(* ===== verification/Lob_Prelude.thy ===== *)
theory Lob_Prelude
  imports "HOL-Library.Word"
begin

section \<open>Shared types, results of C++ calls, and generic lemmas\<close>

text \<open>
  What the components of the order book share.
  \<^item> The integer types of \<^verbatim>\<open>namespace lob\<close> at their widths. A \<^verbatim>\<open>std::size_t\<close> that counts
    or indexes the elements of a container is a \<open>nat\<close> (it is bounded by the container);
    free-running 64-bit counters are words and wrap.
  \<^item> The result of a call: \<open>None\<close> when it does not return, otherwise the final state
    together with the value returned (\<open>Inr\<close>) or the exception thrown (\<open>Inl\<close>). The state is
    kept when an exception is thrown, because C++ does not roll it back.
  \<^item> Singly linked chains through an array of links, which both the free list of the slot
    pool and the queue of a price level are.
\<close>

unbundle bit_operations_syntax

type_synonym order_id = "64 word"
type_synonym price = "64 word"
type_synonym quantity = "32 word"
type_synonym volume = "64 word"
type_synonym participant_id = "32 word"
type_synonym sequence_no = "64 word"
type_synonym slot_index = "32 word"

text \<open>The collections of rewrite rules the component proofs share.\<close>

named_theorems run_simps \<open>rules that evaluate the result type of C++ calls\<close>
named_theorems cyc_simps \<open>linear-arithmetic definitions of cyclic distance\<close>

subsection \<open>Results of calls\<close>

datatype fault =
    Length_error           \<comment> \<open>\<^verbatim>\<open>std::length_error\<close>\<close>
  | Bad_alloc              \<comment> \<open>\<^verbatim>\<open>std::bad_alloc\<close>\<close>
  | Undefined_behaviour    \<comment> \<open>a null pointer or an out-of-range index is used\<close>

type_synonym ('a, 's) run = "((fault + 'a) \<times> 's) option"

definition ret :: "'a \<Rightarrow> 's \<Rightarrow> ('a, 's) run" where
  "ret a s = Some (Inr a, s)"

definition throw :: "fault \<Rightarrow> 's \<Rightarrow> ('a, 's) run" where
  "throw e s = Some (Inl e, s)"

text \<open>
  Sequencing: the continuation runs only when the call returned normally. When it threw, \<open>h\<close>
  puts the state of the callee back into the state of the caller.
\<close>

definition bind_run :: "('a, 's) run \<Rightarrow> ('a \<Rightarrow> 's \<Rightarrow> ('b, 't) run) \<Rightarrow> ('s \<Rightarrow> 't) \<Rightarrow> ('b, 't) run" where
  "bind_run m k h = Option.bind m (\<lambda>(r, s). case r of Inl e \<Rightarrow> throw e (h s) | Inr a \<Rightarrow> k a s)"

lemma bind_run_ret [simp, run_simps]: "bind_run (ret a s) k h = k a s"
  by (simp add: bind_run_def ret_def)

lemma bind_run_throw [simp, run_simps]: "bind_run (throw e s) k h = throw e (h s)"
  by (simp add: bind_run_def throw_def)

lemma bind_run_None [simp, run_simps]: "bind_run None k h = None"
  by (simp add: bind_run_def)

lemma ret_inject [simp]: "ret a s = ret b t \<longleftrightarrow> a = b \<and> s = t"
  by (auto simp: ret_def)

lemma ret_not_throw [simp]: "ret a s \<noteq> throw e t" "throw e t \<noteq> ret a s"
  by (auto simp: ret_def throw_def)

lemma ret_not_None [simp]: "ret a s \<noteq> None" "None \<noteq> ret a s"
  by (auto simp: ret_def)

lemma bind_run_eq_ret:
  "bind_run m k h = ret b t \<longleftrightarrow> (\<exists>a s. m = ret a s \<and> k a s = ret b t)"
  by (cases m) (auto simp: bind_run_def ret_def throw_def split: sum.splits)

lemma bind_run_mono [partial_function_mono]:
  assumes "mono_option B" and "\<And>a s. mono_option (\<lambda>f. C a s f)"
  shows "mono_option (\<lambda>f. bind_run (B f) (\<lambda>a s. C a s f) h)"
  unfolding bind_run_def
proof (intro bind_mono assms(1))
  fix x :: "(fault + 'c) \<times> 'd"
  obtain r s where x: "x = (r, s)" by (cases x)
  show "mono_option (\<lambda>f. case x of (r, s) \<Rightarrow> (case r of Inl e \<Rightarrow> throw e (h s) | Inr a \<Rightarrow> C a s f))"
    by (cases r) (auto simp: x intro: assms(2) option.const_mono)
qed

text \<open>
  A constructor has no state to keep when it throws: its result is \<open>None\<close> when it does not return, the exception, or the
  object. A class is constructed member after member, and the first member that throws ends it.
\<close>

definition construct :: "(fault + 'a) option \<Rightarrow> ('a \<Rightarrow> (fault + 'b) option) \<Rightarrow> (fault + 'b) option" where
  "construct m k = Option.bind m (\<lambda>r. case r of Inl e \<Rightarrow> Some (Inl e) | Inr a \<Rightarrow> k a)"

lemma construct_simps [simp, run_simps]:
  "construct None k = None" "construct (Some (Inl e)) k = Some (Inl e)" "construct (Some (Inr a)) k = k a"
  by (simp_all add: construct_def)

lemma construct_eq_Inr: "construct m k = Some (Inr b) \<longleftrightarrow> (\<exists>a. m = Some (Inr a) \<and> k a = Some (Inr b))"
proof (cases m)
  case (Some r)
  then show ?thesis by (cases r) auto
qed simp

text \<open>
  The storage of a \<^verbatim>\<open>std::vector\<close> whose elements have \<open>elem\<close> bytes. The standard library refuses more elements than
  \<^verbatim>\<open>max_size()\<close>, with \<^verbatim>\<open>length_error\<close> and before it asks its allocator: no vector may be larger than the largest
  \<^verbatim>\<open>ptrdiff_t\<close> in bytes. Then \<open>grants bytes\<close> says whether the system has the memory.
\<close>

definition vector_max :: "nat \<Rightarrow> nat" where
  "vector_max elem = (2 ^ 63 - 1) div elem"

definition take_block :: "(nat \<Rightarrow> bool) \<Rightarrow> nat \<Rightarrow> (fault + unit) option" where
  "take_block grants bytes = Some (if bytes = 0 \<or> grants bytes then Inr () else Inl Bad_alloc)"

definition take_vector :: "(nat \<Rightarrow> bool) \<Rightarrow> nat \<Rightarrow> nat \<Rightarrow> (fault + unit) option" where
  "take_vector grants elem n = (if n > vector_max elem then Some (Inl Length_error) else take_block grants (elem * n))"

subsection \<open>Chains of links\<close>

text \<open>
  The loop \<^verbatim>\<open>for (i = head; i != end; i = next(i))\<close>, with at most \<open>n\<close> iterations, collecting
  the indices it visits; and the chain predicate that says the loop visits exactly \<open>xs\<close>.
\<close>

fun walk :: "nat \<Rightarrow> 'a \<Rightarrow> ('a \<Rightarrow> 'a) \<Rightarrow> 'a \<Rightarrow> 'a list" where
  "walk 0 z f i = []"
| "walk (Suc n) z f i = (if i = z then [] else i # walk n z f (f i))"

fun chain :: "'a \<Rightarrow> ('a \<Rightarrow> 'a) \<Rightarrow> 'a \<Rightarrow> 'a list \<Rightarrow> bool" where
  "chain z f i [] \<longleftrightarrow> i = z"
| "chain z f i (x # xs) \<longleftrightarrow> i = x \<and> x \<noteq> z \<and> chain z f (f x) xs"

lemma chain_walk: "chain z f i xs \<Longrightarrow> length xs \<le> n \<Longrightarrow> walk n z f i = xs"
proof (induction n arbitrary: i xs)
  case 0
  then show ?case by simp
next
  case (Suc n)
  then show ?case by (cases xs) auto
qed

lemma chain_unique: "chain z f i xs \<Longrightarrow> chain z f i ys \<Longrightarrow> xs = ys"
proof (induction xs arbitrary: i ys)
  case Nil
  then show ?case by (cases ys) auto
next
  case (Cons x xs)
  then show ?case by (cases ys) auto
qed

lemma chain_cong:
  "chain z f i xs \<Longrightarrow> (\<And>x. x \<in> set xs \<Longrightarrow> f x = g x) \<Longrightarrow> chain z g i xs"
  by (induction xs arbitrary: i) auto

lemma chain_not_sentinel: "chain z f i xs \<Longrightarrow> z \<notin> set xs"
  by (induction xs arbitrary: i) auto

lemma chain_suffix: "chain z f i (xs @ y # ys) \<Longrightarrow> chain z f y (y # ys)"
  by (induction xs arbitrary: i) auto

lemma chain_distinct: "chain z f i xs \<Longrightarrow> distinct xs"
proof (induction xs arbitrary: i)
  case Nil
  then show ?case by simp
next
  case (Cons x xs)
  have "x \<notin> set xs"
  proof
    assume "x \<in> set xs"
    then obtain as bs where xs: "xs = as @ x # bs" by (auto dest: split_list)
    have "chain z f x (x # bs)"
      using Cons.prems chain_suffix [of z f "f x" as x bs] by (simp add: xs)
    moreover have "chain z f x (x # xs)" using Cons.prems by auto
    ultimately have "bs = xs" by (auto dest: chain_unique)
    then show False by (simp add: xs)
  qed
  then show ?case using Cons by auto
qed

subsection \<open>Options\<close>

lemma find_Some_member: "find P xs = Some y \<Longrightarrow> y \<in> set xs \<and> P y"
  by (induction xs) (auto split: if_splits)

lemma option_eqI: "(\<And>v. a = Some v \<longleftrightarrow> b = Some v) \<Longrightarrow> a = b"
  by (cases a; cases b) auto

subsection \<open>Powers of two and masks\<close>

lemma unat_lt64: "unat (x :: 64 word) < 2 ^ 64"
  using unsigned_less [of x] by simp

lemma unat_lt32: "unat (x :: 32 word) < 2 ^ 32"
  using unsigned_less [of x] by simp

lemma unat_ucast_32 [simp]: "unat (ucast (w :: 32 word) :: 64 word) = unat w"
  using unat_lt32 [of w] by (simp add: unsigned_ucast_eq take_bit_nat_eq_self_iff)

lemma ucast_diff:
  fixes a b :: "32 word"
  assumes "b \<le> a"
  shows "(ucast (a - b) :: 64 word) = ucast a - ucast b"
proof -
  have "unat (ucast (a - b) :: 64 word) = unat (ucast a - ucast b :: 64 word)"
    using assms unat_sub [of "ucast b :: 64 word" "ucast a"] by (simp add: unat_sub word_le_nat_alt)
  then show ?thesis by (simp add: word_unat_eq_iff)
qed

text \<open>A 64-bit sum of at most \<open>2 ^ 31\<close> 32-bit numbers does not wrap.\<close>

lemma unat_sum_ucast:
  fixes f :: "'a \<Rightarrow> 32 word"
  assumes "length xs \<le> 2 ^ 31"
  shows "unat (\<Sum>x\<leftarrow>xs. ucast (f x) :: 64 word) = (\<Sum>x\<leftarrow>xs. unat (f x))" "(\<Sum>x\<leftarrow>xs. unat (f x)) < 2 ^ 63 + 1"
proof -
  have "(\<Sum>x\<leftarrow>xs. unat (f x)) \<le> length xs * 2 ^ 32"
  proof (induction xs)
    case (Cons x xs)
    then show ?case using unat_lt32 [of "f x"] by simp
  qed simp
  then show bd: "(\<Sum>x\<leftarrow>xs. unat (f x)) < 2 ^ 63 + 1" using assms by simp
  then show "unat (\<Sum>x\<leftarrow>xs. ucast (f x) :: 64 word) = (\<Sum>x\<leftarrow>xs. unat (f x))"
  proof (induction xs)
    case (Cons x xs)
    then show ?case using unat_add_lem [of "ucast (f x) :: 64 word" "\<Sum>x\<leftarrow>xs. ucast (f x)"] by simp
  qed simp
qed

lemma unat_pow2:
  assumes "k < 64"
  shows "unat ((2::64 word) ^ k) = 2 ^ k"
proof -
  have "(2::nat) ^ k < 2 ^ 64" using assms by (intro power_strict_increasing) auto
  moreover have "(2::64 word) ^ k = of_nat (2 ^ k)" by simp
  ultimately show ?thesis by (simp only: unat_of_nat) simp
qed

lemma unat_and_mask:
  fixes x :: "64 word"
  assumes "k < 64"
  shows "unat (x AND (2 ^ k - 1)) = unat x mod 2 ^ k"
proof -
  have "x AND (2 ^ k - 1) = take_bit k x"
    by (simp add: take_bit_eq_mask mask_eq_exp_minus_1)
  also have "unat (take_bit k x) = take_bit k (unat x)"
    by (rule unsigned_take_bit_eq)
  finally show ?thesis by (simp only: take_bit_eq_mod)
qed

lemma pow_dvd_64: "k < 64 \<Longrightarrow> (2::nat) ^ k dvd 2 ^ 64"
  by (rule le_imp_power_dvd) simp

end
