(* ===== verification/Slot_Pool.thy ===== *)
theory Slot_Pool
  imports Lob_Prelude
begin

section \<open>The slot pool (\<^verbatim>\<open>lob::SlotPool\<close>)\<close>

text \<open>
  A growing array of slots addressed by 32-bit index, with a LIFO free list threaded through the
  \<open>next\<close> links of the free slots. Modelled as built with \<^verbatim>\<open>NDEBUG\<close> and without AddressSanitizer:
  \<open>release\<close> leaves the value in place and poisoning is a no-op; \<^verbatim>\<open>Asan_Pool\<close> has the other build. The element type is a type
  variable, and \<open>d\<close> is the value-initialised element \<^verbatim>\<open>T{}\<close> that the vector fills new slots with.
  The interface \<open>slot_allocator\<close> is what the order book relies on.
\<close>

subsection \<open>Model\<close>

definition kNoSlot :: slot_index where
  "kNoSlot = 4294967295"

record 'a slot =
  slot_value :: 'a
  slot_prev :: slot_index
  slot_next :: slot_index

record 'a slot_pool =
  slots :: "'a slot list"
  pool_used :: nat
  pool_live :: nat
  free_head :: slot_index
  pool_growths :: "64 word"

definition new_slot :: "'a \<Rightarrow> 'a slot" where
  "new_slot d = \<lparr>slot_value = d, slot_prev = kNoSlot, slot_next = kNoSlot\<rparr>"

definition pool_new :: "'a \<Rightarrow> nat \<Rightarrow> 'a slot_pool" where
  "pool_new d capacity = \<lparr>slots = replicate (if capacity = 0 then 1 else capacity) (new_slot d),
     pool_used = 0, pool_live = 0, free_head = kNoSlot, pool_growths = 0\<rparr>"

text \<open>\<^verbatim>\<open>pool[i]\<close>, read and written.\<close>

definition slot_at :: "'a slot_pool \<Rightarrow> slot_index \<Rightarrow> 'a slot" where
  "slot_at P i = slots P ! unat i"

definition upd_slot :: "slot_index \<Rightarrow> ('a slot \<Rightarrow> 'a slot) \<Rightarrow> 'a slot_pool \<Rightarrow> 'a slot_pool" where
  "upd_slot i f P = P\<lparr>slots := (slots P)[unat i := f (slots P ! unat i)]\<rparr>"

definition pool_grow :: "'a \<Rightarrow> 'a slot_pool \<Rightarrow> (unit, 'a slot_pool) run" where
  "pool_grow d P =
     (let kMax = unat kNoSlot; size = length (slots P) in
      if size \<ge> kMax then throw Length_error P
      else let bigger = (if size > kMax div 2 then kMax else size * 2) in
        ret () (P\<lparr>slots := slots P @ replicate (bigger - size) (new_slot d),
                  pool_growths := pool_growths P + 1\<rparr>))"

text \<open>The common end of \<^verbatim>\<open>acquire\<close>: reset the links of slot \<open>i\<close> and count it as live.\<close>

definition hand_out :: "slot_index \<Rightarrow> 'a slot_pool \<Rightarrow> 'a slot_pool" where
  "hand_out i P = (upd_slot i (\<lambda>s. s\<lparr>slot_prev := kNoSlot, slot_next := kNoSlot\<rparr>) P)
     \<lparr>pool_live := pool_live P + 1\<rparr>"

definition acquire :: "'a \<Rightarrow> 'a slot_pool \<Rightarrow> (slot_index, 'a slot_pool) run" where
  "acquire d P =
     (if free_head P \<noteq> kNoSlot
      then let i = free_head P in
        ret i (hand_out i (P\<lparr>free_head := slot_next (slot_at P i)\<rparr>))
      else bind_run (if pool_used P = length (slots P) then pool_grow d P else ret () P)
        (\<lambda>_ P1. let i = of_nat (pool_used P1) in
           ret i (hand_out i (P1\<lparr>pool_used := pool_used P1 + 1\<rparr>)))
        (\<lambda>P1. P1))"

definition release :: "slot_index \<Rightarrow> 'a slot_pool \<Rightarrow> 'a slot_pool" where
  "release i P = (upd_slot i (\<lambda>s. s\<lparr>slot_prev := kNoSlot, slot_next := free_head P\<rparr>) P)
     \<lparr>free_head := i, pool_live := pool_live P - 1\<rparr>"

definition pool_capacity :: "'a slot_pool \<Rightarrow> nat" where
  "pool_capacity P = length (slots P)"

definition pool_size :: "'a slot_pool \<Rightarrow> nat" where
  "pool_size P = pool_live P"

text \<open>The loop of \<^verbatim>\<open>consistent()\<close>: \<open>c\<close> free slots have been seen and \<open>i\<close> is the next one.\<close>

function consistent_loop :: "'a slot_pool \<Rightarrow> slot_index \<Rightarrow> nat \<Rightarrow> bool" where
  "consistent_loop P i c =
     (if i = kNoSlot then c + pool_live P = pool_used P
      else if unat i \<ge> pool_used P \<or> c + 1 > pool_used P then False
      else consistent_loop P (slot_next (slot_at P i)) (c + 1))"
  by pat_completeness auto
termination
  by (relation "measure (\<lambda>(P, i, c). pool_used P - c)") auto

declare consistent_loop.simps [simp del]

definition pool_consistent :: "'a slot_pool \<Rightarrow> bool" where
  "pool_consistent P = consistent_loop P (free_head P) 0"

subsection \<open>Free list, live slots, invariant\<close>

definition free_list :: "'a slot_pool \<Rightarrow> slot_index list" where
  "free_list P = walk (pool_used P) kNoSlot (\<lambda>i. slot_next (slot_at P i)) (free_head P)"

definition free_chain :: "'a slot_pool \<Rightarrow> slot_index list \<Rightarrow> bool" where
  "free_chain P fs \<longleftrightarrow> chain kNoSlot (\<lambda>i. slot_next (slot_at P i)) (free_head P) fs"

definition pool_inv :: "'a slot_pool \<Rightarrow> bool" where
  "pool_inv P \<longleftrightarrow>
     pool_used P \<le> length (slots P) \<and> pool_used P \<le> unat kNoSlot \<and> 0 < length (slots P) \<and>
     free_chain P (free_list P) \<and> list_all (\<lambda>i. unat i < pool_used P) (free_list P) \<and>
     length (free_list P) + pool_live P = pool_used P"

definition live_slots :: "'a slot_pool \<Rightarrow> slot_index set" where
  "live_slots P = {i. unat i < pool_used P} - set (free_list P)"

subsection \<open>The interface: an allocator of slot indices\<close>

text \<open>\<open>n\<close> acquisitions in a row, as a client would make them.\<close>

fun acquire_n :: "('p \<Rightarrow> (slot_index, 'p) run) \<Rightarrow> nat \<Rightarrow> 'p \<Rightarrow> (slot_index list, 'p) run" where
  "acquire_n acq 0 P = ret [] P"
| "acquire_n acq (Suc n) P =
     bind_run (acq P) (\<lambda>i P1. bind_run (acquire_n acq n P1) (\<lambda>is P2. ret (i # is) P2) (\<lambda>s. s)) (\<lambda>s. s)"

locale slot_allocator =
  fixes acq :: "'p \<Rightarrow> (slot_index, 'p) run"
    and rel :: "slot_index \<Rightarrow> 'p \<Rightarrow> 'p"
    and live :: "'p \<Rightarrow> slot_index set"
    and content :: "'p \<Rightarrow> slot_index \<Rightarrow> 'v"
    and inv :: "'p \<Rightarrow> bool"
    and limit :: nat
  assumes acq_ok: "inv P \<Longrightarrow> card (live P) < limit \<Longrightarrow>
      \<exists>i P'. acq P = ret i P' \<and> i \<notin> live P \<and> live P' = insert i (live P) \<and> inv P' \<and>
        (\<forall>j\<in>live P. content P' j = content P j)"
    and rel_ok: "inv P \<Longrightarrow> i \<in> live P \<Longrightarrow>
      inv (rel i P) \<and> live (rel i P) = live P - {i} \<and>
      (\<forall>j\<in>live P - {i}. content (rel i P) j = content P j)"
    and acq_rel: "inv P \<Longrightarrow> i \<in> live P \<Longrightarrow> \<exists>P'. acq (rel i P) = ret i P'"
begin

lemma acquire_n_fresh:
  assumes "inv P" and "card (live P) + n \<le> limit"
  shows "\<exists>is P'. acquire_n acq n P = ret is P' \<and> inv P' \<and> length is = n \<and> distinct is \<and>
    set is \<inter> live P = {} \<and> live P' = live P \<union> set is \<and> (\<forall>j\<in>live P. content P' j = content P j)"
  using assms
proof (induction n arbitrary: P)
  case 0
  then show ?case by simp
next
  case (Suc n)
  obtain i P1 where i: "acq P = ret i P1" "i \<notin> live P" "live P1 = insert i (live P)" "inv P1"
      "\<forall>j\<in>live P. content P1 j = content P j"
    using acq_ok [OF Suc.prems(1)] Suc.prems(2) by auto
  have "finite (live P)" by simp
  then have "card (live P1) + n \<le> limit" using i(2,3) Suc.prems(2) by simp
  then obtain js P2 where "acquire_n acq n P1 = ret js P2" "inv P2" "length js = n" "distinct js"
      "set js \<inter> live P1 = {}" "live P2 = live P1 \<union> set js" "\<forall>j\<in>live P1. content P2 j = content P1 j"
    using Suc.IH [OF i(4)] by blast
  then show ?case using i by (intro exI [of _ "i # js"] exI [of _ P2]) auto
qed

end

subsection \<open>Field access after updates\<close>

lemma slot_at_upd:
  "unat i < length (slots P) \<Longrightarrow>
   slot_at (upd_slot i f P) j = (if j = i then f (slot_at P i) else slot_at P j)"
  by (auto simp: slot_at_def upd_slot_def word_unat_eq_iff)

lemma upd_slot_fields [simp]:
  "length (slots (upd_slot i f P)) = length (slots P)"
  "pool_used (upd_slot i f P) = pool_used P"
  "pool_live (upd_slot i f P) = pool_live P"
  "free_head (upd_slot i f P) = free_head P"
  "pool_growths (upd_slot i f P) = pool_growths P"
  by (simp_all add: upd_slot_def)

lemma slot_at_fields [simp]:
  "slot_at (P\<lparr>pool_live := n\<rparr>) j = slot_at P j"
  "slot_at (P\<lparr>free_head := h\<rparr>) j = slot_at P j"
  "slot_at (P\<lparr>pool_used := u\<rparr>) j = slot_at P j"
  "slot_at (P\<lparr>pool_growths := g\<rparr>) j = slot_at P j"
  by (simp_all add: slot_at_def)

lemma unat_kNoSlot [simp]: "unat kNoSlot = 4294967295"
  by (simp add: kNoSlot_def)

lemma slot_index_neq_kNoSlot: "unat i < 4294967295 \<Longrightarrow> i \<noteq> kNoSlot"
  by auto

subsection \<open>Establishing the invariant\<close>

lemma free_list_eqI:
  assumes "free_chain P fs" and "length fs \<le> pool_used P"
  shows "free_list P = fs"
  using chain_walk [OF assms(1) [unfolded free_chain_def] assms(2)] by (simp add: free_list_def)

lemma pool_invI:
  assumes "free_chain P fs" and "length fs + pool_live P = pool_used P"
    and "\<And>i. i \<in> set fs \<Longrightarrow> unat i < pool_used P"
    and "pool_used P \<le> length (slots P)" and "pool_used P \<le> unat kNoSlot" and "0 < length (slots P)"
  shows "pool_inv P \<and> free_list P = fs"
proof -
  have "free_list P = fs" using assms(1,2) by (intro free_list_eqI) auto
  then show ?thesis using assms by (simp add: pool_inv_def list_all_iff)
qed

lemma pool_invD:
  assumes "pool_inv P"
  shows "free_chain P (free_list P)" "length (free_list P) + pool_live P = pool_used P"
    "i \<in> set (free_list P) \<Longrightarrow> unat i < pool_used P"
    "pool_used P \<le> length (slots P)" "pool_used P \<le> 4294967295" "0 < length (slots P)"
    "distinct (free_list P)"
  using assms by (auto simp: pool_inv_def list_all_iff free_chain_def dest: chain_distinct)

lemma unat_slot_of_nat [simp]: "n \<le> 4294967295 \<Longrightarrow> unat (of_nat n :: slot_index) = n"
  by (simp add: unat_of_nat take_bit_nat_eq_self_iff)

lemma card_used: "n \<le> 4294967295 \<Longrightarrow> card {i::slot_index. unat i < n} = n"
proof -
  assume n: "n \<le> 4294967295"
  have "{i::slot_index. unat i < n} = of_nat ` {..<n}"
  proof (intro equalityI subsetI)
    fix i :: slot_index
    assume "i \<in> {i. unat i < n}"
    then show "i \<in> of_nat ` {..<n}" by (intro image_eqI [of _ _ "unat i"]) auto
  next
    fix i :: slot_index
    assume "i \<in> of_nat ` {..<n}"
    then show "i \<in> {i. unat i < n}" using n by auto
  qed
  moreover have "inj_on (of_nat :: nat \<Rightarrow> slot_index) {..<n}"
    using n by (intro inj_on_inverseI [of _ unat]) auto
  ultimately show ?thesis by (simp add: card_image)
qed

lemma card_live_slots:
  assumes "pool_inv P"
  shows "card (live_slots P) = pool_live P"
proof -
  note inv = pool_invD [OF assms]
  have "set (free_list P) \<subseteq> {i. unat i < pool_used P}" using inv(3) by auto
  then have "card (live_slots P) = pool_used P - card (set (free_list P))"
    by (simp add: live_slots_def card_Diff_subset card_used inv(5))
  then show ?thesis using inv(2,7) by (simp add: distinct_card)
qed

lemma live_slot_bounds:
  assumes "pool_inv P" and "i \<in> live_slots P"
  shows "unat i < pool_used P" "unat i < length (slots P)" "i \<noteq> kNoSlot" "i \<notin> set (free_list P)"
  using assms pool_invD [OF assms(1)] by (auto simp: live_slots_def)

subsection \<open>Every operation keeps the invariant\<close>

lemma pool_new_inv:
  "pool_inv (pool_new d n)" "free_list (pool_new d n) = []" "live_slots (pool_new d n) = {}"
proof -
  have "pool_inv (pool_new d n) \<and> free_list (pool_new d n) = []"
    by (rule pool_invI) (auto simp: pool_new_def free_chain_def)
  then show "pool_inv (pool_new d n)" "free_list (pool_new d n) = []" by auto
  show "live_slots (pool_new d n) = {}" by (simp add: live_slots_def pool_new_def)
qed

text \<open>Handing out the head of the free list.\<close>

text \<open>Whatever slot it hands out, \<open>acquire\<close> counts one more live slot.\<close>

lemma acquire_live: "acquire d P = ret i P' \<Longrightarrow> pool_live P' = pool_live P + 1"
  by (auto simp: acquire_def pool_grow_def hand_out_def upd_slot_def Let_def split: if_splits)

lemma acquire_recycled:
  assumes inv: "pool_inv P" and fs: "free_list P = i # fs"
  shows "\<exists>P'. acquire d P = ret i P' \<and> pool_inv P' \<and> free_list P' = fs \<and>
     pool_used P' = pool_used P \<and> pool_live P' = pool_live P + 1 \<and>
     slot_at P' i = (slot_at P i)\<lparr>slot_prev := kNoSlot, slot_next := kNoSlot\<rparr> \<and>
     (\<forall>j. j \<noteq> i \<longrightarrow> slot_at P' j = slot_at P j) \<and> length (slots P') = length (slots P)"
proof -
  note inv' = pool_invD [OF inv]
  have ch: "free_head P = i" "i \<noteq> kNoSlot"
      "chain kNoSlot (\<lambda>i. slot_next (slot_at P i)) (slot_next (slot_at P i)) fs"
    using inv'(1) by (auto simp: free_chain_def fs)
  have len: "unat i < length (slots P)" using inv'(3,4) fs by fastforce
  define P' where "P' = hand_out i (P\<lparr>free_head := slot_next (slot_at P i)\<rparr>)"
  have at: "slot_at P' j = (if j = i then (slot_at P i)\<lparr>slot_prev := kNoSlot, slot_next := kNoSlot\<rparr>
      else slot_at P j)" for j
    using len by (simp add: P'_def hand_out_def slot_at_upd)
  have "i \<notin> set fs" using inv'(7) by (simp add: fs)
  moreover have "free_head P' = slot_next (slot_at P i)" by (simp add: P'_def hand_out_def)
  ultimately have "free_chain P' fs"
    using ch(3) by (auto simp: free_chain_def at intro: chain_cong)
  then have "pool_inv P' \<and> free_list P' = fs"
    using inv' by (intro pool_invI) (auto simp: P'_def hand_out_def fs)
  moreover have "acquire d P = ret i P'" using ch by (simp add: acquire_def P'_def Let_def)
  ultimately show ?thesis using at by (auto simp: P'_def hand_out_def)
qed

text \<open>Handing out the next slot never used before, growing the pool when it is exhausted.\<close>

lemma acquire_extends:
  assumes inv: "pool_inv P" and fs: "free_list P = []" and room: "pool_live P < 4294967295"
  shows "\<exists>P'. acquire d P = ret (of_nat (pool_used P)) P' \<and> pool_inv P' \<and> free_list P' = [] \<and>
     pool_used P' = pool_used P + 1 \<and> pool_live P' = pool_live P + 1 \<and>
     slot_prev (slot_at P' (of_nat (pool_used P))) = kNoSlot \<and>
     slot_next (slot_at P' (of_nat (pool_used P))) = kNoSlot \<and>
     (\<forall>j. unat j < pool_used P \<longrightarrow> slot_at P' j = slot_at P j) \<and>
     length (slots P) \<le> length (slots P')"
proof -
  note inv' = pool_invD [OF inv]
  have used: "pool_used P = pool_live P" and fh: "free_head P = kNoSlot"
    using inv'(1,2) by (auto simp: fs free_chain_def)
  let ?i = "of_nat (pool_used P) :: slot_index"
  obtain P1 where P1: "(if pool_used P = length (slots P) then pool_grow d P else ret () P) = ret () P1"
      "pool_used P < length (slots P1)" "pool_used P1 = pool_used P" "pool_live P1 = pool_live P"
      "free_head P1 = kNoSlot" "\<And>j. unat j < pool_used P \<Longrightarrow> slot_at P1 j = slot_at P j"
      "length (slots P) \<le> length (slots P1)"
  proof (cases "pool_used P = length (slots P)")
    case True
    then show ?thesis
      using that room used fh inv'(6) by (auto simp: pool_grow_def Let_def slot_at_def nth_append)
  next
    case False
    then show ?thesis using that [of P] inv'(4) fh by simp
  qed
  define P' where "P' = hand_out ?i (P1\<lparr>pool_used := pool_used P1 + 1\<rparr>)"
  have i: "unat ?i = pool_used P" using room used by simp
  have at: "slot_at P' j = (if j = ?i then (slot_at P1 ?i)\<lparr>slot_prev := kNoSlot, slot_next := kNoSlot\<rparr>
      else slot_at P1 j)" for j
    using P1(2) i by (simp add: P'_def hand_out_def slot_at_upd)
  have "pool_inv P' \<and> free_list P' = []"
    using P1 used room by (intro pool_invI) (auto simp: P'_def hand_out_def free_chain_def)
  moreover have "acquire d P = ret ?i P'"
    using fh P1(1,3) by (simp add: acquire_def P'_def Let_def)
  moreover have "slot_at P' j = slot_at P j" if "unat j < pool_used P" for j
    using that i P1(6) by (auto simp: at)
  ultimately show ?thesis using at P1 by (auto simp: P'_def hand_out_def)
qed

lemma release_inv:
  assumes inv: "pool_inv P" and live: "i \<in> live_slots P"
  shows "pool_inv (release i P) \<and> free_list (release i P) = i # free_list P"
    and "live_slots (release i P) = live_slots P - {i}"
    and "j \<noteq> i \<Longrightarrow> slot_at (release i P) j = slot_at P j"
proof -
  note inv' = pool_invD [OF inv] and i = live_slot_bounds [OF inv live]
  have at: "slot_at (release i P) j = (if j = i then (slot_at P i)\<lparr>slot_prev := kNoSlot,
      slot_next := free_head P\<rparr> else slot_at P j)" for j
    using i(2) by (simp add: release_def slot_at_upd)
  then show "j \<noteq> i \<Longrightarrow> slot_at (release i P) j = slot_at P j" by simp
  have "0 < card (live_slots P)" using live by (auto simp: card_gt_0_iff)
  then have pos: "0 < pool_live P" by (simp add: card_live_slots [OF inv])
  have fh: "free_head (release i P) = i" by (simp add: release_def)
  have "chain kNoSlot (\<lambda>j. slot_next (slot_at (release i P) j)) (free_head P) (free_list P)"
    using inv'(1) i(4) by (auto simp: free_chain_def at intro: chain_cong)
  then have "free_chain (release i P) (i # free_list P)"
    using i(3) by (simp add: free_chain_def fh at)
  then show fl: "pool_inv (release i P) \<and> free_list (release i P) = i # free_list P"
    using inv' i pos by (intro pool_invI) (auto simp: release_def)
  then show "live_slots (release i P) = live_slots P - {i}"
    by (auto simp: live_slots_def) (auto simp: release_def)
qed

lemma acquire_spec:
  assumes inv: "pool_inv P" and room: "pool_live P < 4294967295"
  shows "\<exists>i P'. acquire d P = ret i P' \<and> i \<notin> live_slots P \<and> live_slots P' = insert i (live_slots P) \<and>
     pool_inv P' \<and> (\<forall>j\<in>live_slots P. slot_at P' j = slot_at P j) \<and>
     slot_prev (slot_at P' i) = kNoSlot \<and> slot_next (slot_at P' i) = kNoSlot \<and>
     pool_live P' = pool_live P + 1 \<and> pool_used P' = max (pool_used P) (pool_live P + 1) \<and>
     unat i < pool_used P'"
proof (cases "free_list P")
  case Nil
  then have used: "pool_used P = pool_live P" using pool_invD(2) [OF inv] by simp
  obtain P' where P': "acquire d P = ret (of_nat (pool_used P)) P'" "pool_inv P'" "free_list P' = []"
      "pool_used P' = pool_used P + 1" "pool_live P' = pool_live P + 1"
      "slot_prev (slot_at P' (of_nat (pool_used P))) = kNoSlot"
      "slot_next (slot_at P' (of_nat (pool_used P))) = kNoSlot"
      "\<forall>j. unat j < pool_used P \<longrightarrow> slot_at P' j = slot_at P j"
    using acquire_extends [OF inv Nil room] by blast
  have "unat (of_nat (pool_used P) :: slot_index) = pool_used P" using room used by simp
  moreover have "live_slots P' = insert (of_nat (pool_used P)) (live_slots P)"
    using P'(3,4) Nil room used by (auto simp: live_slots_def less_Suc_eq word_unat_eq_iff)
  ultimately show ?thesis
    using P' used by (intro exI [of _ "of_nat (pool_used P)"] exI [of _ P']) (auto simp: live_slots_def Nil)
next
  case (Cons i fs)
  obtain P' where P': "acquire d P = ret i P'" "pool_inv P'" "free_list P' = fs"
      "pool_used P' = pool_used P" "pool_live P' = pool_live P + 1"
      "slot_at P' i = (slot_at P i)\<lparr>slot_prev := kNoSlot, slot_next := kNoSlot\<rparr>"
      "\<forall>j. j \<noteq> i \<longrightarrow> slot_at P' j = slot_at P j"
    using acquire_recycled [OF inv Cons] by blast
  note inv' = pool_invD [OF inv, unfolded Cons]
  have "unat i < pool_used P" "i \<notin> set fs" using inv'(3,7) by auto
  moreover have "pool_live P + 1 \<le> pool_used P" using inv'(2) by simp
  ultimately show ?thesis
    using P' by (intro exI [of _ i] exI [of _ P']) (auto simp: live_slots_def Cons)
qed

interpretation pool: slot_allocator "acquire d" release live_slots slot_at pool_inv 4294967295 for d
proof unfold_locales
  fix P :: "'a slot_pool"
  assume inv: "pool_inv P"
  show "card (live_slots P) < 4294967295 \<Longrightarrow>
      \<exists>i P'. acquire d P = ret i P' \<and> i \<notin> live_slots P \<and> live_slots P' = insert i (live_slots P) \<and>
        pool_inv P' \<and> (\<forall>j\<in>live_slots P. slot_at P' j = slot_at P j)"
    using acquire_spec [OF inv, of d] by (auto simp: card_live_slots [OF inv])
next
  fix P :: "'a slot_pool" and i
  assume inv: "pool_inv P" and i: "i \<in> live_slots P"
  note rel = release_inv [OF inv i]
  show "pool_inv (release i P) \<and> live_slots (release i P) = live_slots P - {i} \<and>
      (\<forall>j\<in>live_slots P - {i}. slot_at (release i P) j = slot_at P j)"
    using rel by auto
  show "\<exists>P'. acquire d (release i P) = ret i P'"
    using acquire_recycled [of "release i P" i "free_list P" d] rel(1) by auto
qed

subsection \<open>The self-check of the pool\<close>

lemma consistent_loop_chain:
  assumes "chain kNoSlot (\<lambda>i. slot_next (slot_at P i)) i fs"
    and "\<And>j. j \<in> set fs \<Longrightarrow> unat j < pool_used P"
    and "c + length fs + pool_live P = pool_used P"
  shows "consistent_loop P i c"
  using assms
proof (induction fs arbitrary: i c)
  case Nil
  then show ?case by (simp add: consistent_loop.simps [of P kNoSlot])
next
  case (Cons x fs)
  then have "consistent_loop P (slot_next (slot_at P x)) (c + 1)" by auto
  moreover have "unat x < pool_used P" using Cons.prems(2) by simp
  ultimately show ?case using Cons.prems(1,3) by (simp add: consistent_loop.simps [of P x])
qed

lemma pool_inv_consistent: "pool_inv P \<Longrightarrow> pool_consistent P"
  unfolding pool_consistent_def
  by (rule consistent_loop_chain [of _ _ "free_list P"])
    (use pool_invD [of P] in \<open>auto simp: free_chain_def\<close>)

subsection \<open>Properties\<close>

text \<open>
  Handing out slots: as long as fewer than \<open>2 ^ 32 - 1\<close> slots are live, any number of
  acquisitions in a row succeeds, whether the slots come off the free list, off the unused tail or
  out of a growth of the pool. The indices are pairwise distinct and were not live before, nothing else
  becomes live, every slot that was live keeps its value and links (also when the block moves),
  and the pool's own \<open>consistent()\<close> check accepts the result.
\<close>

lemma pool_acquire_many:
  assumes "pool_inv P" and "pool_size P + n \<le> 4294967295"
  shows "\<exists>is P'. acquire_n (acquire d) n P = ret is P' \<and> pool_inv P' \<and> pool_consistent P' \<and>
    length is = n \<and> distinct is \<and> set is \<inter> live_slots P = {} \<and> kNoSlot \<notin> set is \<and>
    live_slots P' = live_slots P \<union> set is \<and> pool_size P' = pool_size P + n \<and>
    (\<forall>j\<in>live_slots P. slot_at P' j = slot_at P j)"
proof -
  obtain js P' where P': "acquire_n (acquire d) n P = ret js P'" "pool_inv P'" "length js = n" "distinct js"
      "set js \<inter> live_slots P = {}" "live_slots P' = live_slots P \<union> set js"
      "\<forall>j\<in>live_slots P. slot_at P' j = slot_at P j"
    using pool.acquire_n_fresh [of P n d] assms by (auto simp: card_live_slots pool_size_def)
  have "pool_live P' = card (live_slots P \<union> set js)"
    using card_live_slots [OF P'(2)] P'(6) by simp
  also have "\<dots> = pool_live P + n"
    using P'(3,4,5) by (subst card_Un_disjoint) (auto simp: card_live_slots [OF assms(1)] distinct_card)
  finally have "pool_size P' = pool_size P + n" by (simp add: pool_size_def)
  moreover have "kNoSlot \<notin> set js" using live_slot_bounds(3) [OF P'(2)] P'(6) by auto
  ultimately show ?thesis using P' pool_inv_consistent [OF P'(2)] by blast
qed

text \<open>
  Releasing a live slot takes exactly that slot out of the live set, leaves every other
  slot as it was, keeps the invariant and the \<open>consistent()\<close> check, and puts the slot on top of the
  free list: the next acquisition returns it again (LIFO reuse).
\<close>

lemma pool_release_then_acquire:
  assumes "pool_inv P" and "i \<in> live_slots P"
  shows "pool_inv (release i P) \<and> pool_consistent (release i P) \<and>
     live_slots (release i P) = live_slots P - {i} \<and> pool_size (release i P) + 1 = pool_size P \<and>
     (\<forall>j. j \<noteq> i \<longrightarrow> slot_at (release i P) j = slot_at P j) \<and>
     (\<exists>P'. acquire d (release i P) = ret i P' \<and> live_slots P' = live_slots P)"
proof -
  note rel = release_inv [OF assms]
  have inv': "pool_inv (release i P)" using rel(1) by blast
  have "0 < card (live_slots P)" using assms(2) by (auto simp: card_gt_0_iff)
  then have pos: "0 < pool_live P" by (simp add: card_live_slots [OF assms(1)])
  obtain P' where P': "acquire d (release i P) = ret i P'" using pool.acq_rel [OF assms] by blast
  have live': "pool_live (release i P) = pool_live P - 1" by (simp add: release_def)
  then have "pool_live (release i P) < 4294967295"
    using pos pool_invD(2,5) [OF assms(1)] by simp
  from acquire_spec [OF inv' this, of d] P' have "live_slots P' = live_slots P"
    using rel(2) assms(2) by auto
  then show ?thesis
    using rel inv' pool_inv_consistent [OF inv'] P' live' pos by (auto simp: pool_size_def)
qed

text \<open>
  The limit is only tested where the pool grows: a pool that was constructed larger than \<open>2 ^ 32 - 1\<close> slots hands out the
  reserved index.
\<close>

lemma acquire_hands_out_kNoSlot:
  assumes "free_head P = kNoSlot" and "pool_used P = 4294967295" and "pool_used P < pool_capacity P"
  shows "\<exists>P'. acquire d P = ret kNoSlot P' \<and> pool_size P' = pool_size P + 1"
  using assms
  by (simp add: acquire_def Let_def pool_capacity_def pool_size_def hand_out_def kNoSlot_def)

end
