(* ===== verification/Price_Ladder.thy ===== *)
theory Price_Ladder
  imports Slot_Pool
begin

section \<open>One side of the book (\<^verbatim>\<open>lob::PriceLadder\<close>)\<close>

text \<open>
  The price levels of one side: a flat window of consecutive prices, with a tracked best index
  and an occupancy count, and a sorted fallback map (\<^verbatim>\<open>std::map\<close>) for prices outside the window. The
  template parameter \<^verbatim>\<open>IsBid\<close> is the argument \<open>bid\<close>. A \<^verbatim>\<open>PriceLevel&\<close> is the price it belongs to:
  \<open>level_ref\<close> reads through it and \<open>set_level\<close> writes through it. The fallback map is an association
  list in the map's order, best price first. The interface \<open>level_store\<close> is what the order book
  relies on.
\<close>

subsection \<open>Model\<close>

record price_level =
  total_qty :: volume
  lv_head :: slot_index
  lv_tail :: slot_index

definition empty_level :: price_level where
  "empty_level = \<lparr>total_qty = 0, lv_head = kNoSlot, lv_tail = kNoSlot\<rparr>"

definition level_empty :: "price_level \<Rightarrow> bool" where
  "level_empty l \<longleftrightarrow> lv_head l = kNoSlot"

record price_ladder =
  window :: "price_level list"
  overflow :: "(price \<times> price_level) list"
  lo :: price
  limit :: nat
  occupied :: nat
  best_idx :: nat
  outside_opens :: "64 word"
  is_placed :: bool

definition ladder_new :: "nat \<Rightarrow> price_ladder" where
  "ladder_new window_levels = \<lparr>window = replicate window_levels empty_level, overflow = [], lo = 0,
     limit = 0, occupied = 0, best_idx = 0, outside_opens = 0, is_placed = False\<rparr>"

text \<open>\<^verbatim>\<open>std::numeric_limits<Price>::max()\<close> is \<open>-1\<close>.\<close>

definition ladder_place :: "price \<Rightarrow> price_ladder \<Rightarrow> price_ladder" where
  "ladder_place base L =
     (let room = (-1 :: price) - base; size = length (window L) in
      L\<lparr>lo := base,
        limit := (if window L = [] \<or> size - 1 \<le> unat room then size else unat room + 1),
        is_placed := True\<rparr>)"

definition better :: "bool \<Rightarrow> price \<Rightarrow> price \<Rightarrow> bool" where
  "better bid a b \<longleftrightarrow> (if bid then a > b else a < b)"

definition in_window :: "price_ladder \<Rightarrow> price \<Rightarrow> bool" where
  "in_window L p \<longleftrightarrow> p \<ge> lo L \<and> unat (p - lo L) < limit L"

definition beyond_best_edge :: "bool \<Rightarrow> price_ladder \<Rightarrow> price \<Rightarrow> bool" where
  "beyond_best_edge bid L p \<longleftrightarrow>
     (if bid then p \<ge> lo L \<and> unat (p - lo L) \<ge> limit L else p < lo L)"

definition note_opened :: "bool \<Rightarrow> nat \<Rightarrow> price_ladder \<Rightarrow> price_ladder" where
  "note_opened bid i L =
     (let L1 = L\<lparr>occupied := occupied L + 1\<rparr> in
      if occupied L = 0 \<or> (if bid then i > best_idx L else i < best_idx L)
      then L1\<lparr>best_idx := i\<rparr> else L1)"

text \<open>The operations of the fallback map that the ladder uses.\<close>

fun omap_try_emplace :: "bool \<Rightarrow> price \<Rightarrow> (price \<times> price_level) list \<Rightarrow> (price \<times> price_level) list" where
  "omap_try_emplace bid p [] = [(p, empty_level)]"
| "omap_try_emplace bid p ((q, l) # xs) =
     (if q = p then (q, l) # xs
      else if better bid p q then (p, empty_level) # (q, l) # xs
      else (q, l) # omap_try_emplace bid p xs)"

definition omap_set :: "price \<Rightarrow> price_level \<Rightarrow> (price \<times> price_level) list \<Rightarrow> (price \<times> price_level) list" where
  "omap_set p l xs = map (\<lambda>(q, k). if q = p then (q, l) else (q, k)) xs"

definition omap_erase :: "price \<Rightarrow> (price \<times> price_level) list \<Rightarrow> (price \<times> price_level) list" where
  "omap_erase p xs = filter (\<lambda>(q, k). q \<noteq> p) xs"

definition ladder_open :: "bool \<Rightarrow> price \<Rightarrow> price_ladder \<Rightarrow> price_ladder" where
  "ladder_open bid p L =
     (if in_window L p
      then let i = unat (p - lo L) in
        if level_empty (window L ! i) then note_opened bid i L else L
      else L\<lparr>outside_opens := outside_opens L + 1,
             overflow := omap_try_emplace bid p (overflow L)\<rparr>)"

definition level_ref :: "price_ladder \<Rightarrow> price \<Rightarrow> price_level" where
  "level_ref L p =
     (if in_window L p then window L ! unat (p - lo L)
      else case map_of (overflow L) p of Some l \<Rightarrow> l | None \<Rightarrow> empty_level)"

definition set_level :: "price \<Rightarrow> price_level \<Rightarrow> price_ladder \<Rightarrow> price_ladder" where
  "set_level p l L =
     (if in_window L p then L\<lparr>window := (window L)[unat (p - lo L) := l]\<rparr>
      else L\<lparr>overflow := omap_set p l (overflow L)\<rparr>)"

definition ladder_find :: "price_ladder \<Rightarrow> price \<Rightarrow> price_level option" where
  "ladder_find L p =
     (if in_window L p
      then let l = window L ! unat (p - lo L) in if level_empty l then None else Some l
      else map_of (overflow L) p)"

definition ladder_best :: "bool \<Rightarrow> price_ladder \<Rightarrow> (price \<times> price_level) option" where
  "ladder_best bid L =
     (let inside = (if occupied L > 0
                    then Some (lo L + of_nat (best_idx L), window L ! best_idx L) else None)
      in case overflow L of
           [] \<Rightarrow> inside
         | (q, k) # _ \<Rightarrow>
             (case inside of
                None \<Rightarrow> Some (q, k)
              | Some (p, l) \<Rightarrow> if better bid q p then Some (q, k) else Some (p, l)))"

definition best_price :: "bool \<Rightarrow> price_ladder \<Rightarrow> price option" where
  "best_price bid L = map_option fst (ladder_best bid L)"

text \<open>
  \<^verbatim>\<open>next_occupied\<close>: the unchecked scan for the next occupied index, \<open>None\<close> when it would leave the
  array.
\<close>

fun next_down :: "price_level list \<Rightarrow> nat \<Rightarrow> nat option" where
  "next_down w 0 = None"
| "next_down w (Suc i) = (if level_empty (w ! i) then next_down w i else Some i)"

function next_up :: "price_level list \<Rightarrow> nat \<Rightarrow> nat option" where
  "next_up w i =
     (if i + 1 \<ge> length w then None
      else if level_empty (w ! (i + 1)) then next_up w (i + 1) else Some (i + 1))"
  by pat_completeness auto
termination
  by (relation "measure (\<lambda>(w, i). length w - i)") auto

declare next_up.simps [simp del]

definition next_occupied :: "bool \<Rightarrow> price_ladder \<Rightarrow> nat \<Rightarrow> nat option" where
  "next_occupied bid L i = (if bid then next_down (window L) i else next_up (window L) i)"

text \<open>\<^verbatim>\<open>closed()\<close>: \<^verbatim>\<open>--occupied\<close> on a 64-bit unsigned count.\<close>

definition ladder_closed :: "bool \<Rightarrow> price \<Rightarrow> price_ladder \<Rightarrow> (unit, price_ladder) run" where
  "ladder_closed bid p L =
     (if \<not> in_window L p then ret () (L\<lparr>overflow := omap_erase p (overflow L)\<rparr>)
      else let i = unat (p - lo L);
               L1 = L\<lparr>occupied := if occupied L = 0 then 2 ^ 64 - 1 else occupied L - 1\<rparr> in
        if occupied L1 > 0 \<and> i = best_idx L1
        then (case next_occupied bid L1 i of
                None \<Rightarrow> throw Undefined_behaviour L1
              | Some j \<Rightarrow> ret () (L1\<lparr>best_idx := j\<rparr>))
        else ret () L1)"

text \<open>\<^verbatim>\<open>for_each_level\<close>: the levels in the order in which the callback sees them.\<close>

definition window_levels :: "bool \<Rightarrow> price_ladder \<Rightarrow> (price \<times> price_level) list" where
  "window_levels bid L =
     map (\<lambda>i. (lo L + of_nat i, window L ! i))
       (filter (\<lambda>i. \<not> level_empty (window L ! i))
         (if bid then rev [0..<best_idx L + 1] else [best_idx L..<limit L]))"

definition for_each_level :: "bool \<Rightarrow> price_ladder \<Rightarrow> (price \<times> price_level) list" where
  "for_each_level bid L =
     takeWhile (\<lambda>(p, _). beyond_best_edge bid L p) (overflow L) @
     (if occupied L > 0 then window_levels bid L else []) @
     dropWhile (\<lambda>(p, _). beyond_best_edge bid L p) (overflow L)"

text \<open>\<^verbatim>\<open>check()\<close>: whether every assertion of the debug build holds.\<close>

definition ladder_check :: "bool \<Rightarrow> price_ladder \<Rightarrow> bool" where
  "ladder_check bid L \<longleftrightarrow>
     list_all (\<lambda>i. let l = window L ! i in
         if level_empty l then total_qty l = 0 \<and> lv_tail l = kNoSlot
         else i < limit L \<and> \<not> (if bid then i > best_idx L else i < best_idx L))
       [0..<length (window L)] \<and>
     length (filter (\<lambda>l. \<not> level_empty l) (window L)) = occupied L \<and>
     (occupied L > 0 \<longrightarrow> \<not> level_empty (window L ! best_idx L)) \<and>
     list_all (\<lambda>(p, l). \<not> in_window L p \<and> \<not> level_empty l) (overflow L)"

text \<open>\<^verbatim>\<open>centred_base\<close>: a window of \<open>levels\<close> prices around \<open>p\<close>, kept inside the price range.\<close>

definition centred_base :: "price \<Rightarrow> nat \<Rightarrow> price" where
  "centred_base p levels =
     (if levels = 0 then p
      else let half = of_nat (levels div 2); highest = (-1 :: price) - of_nat (levels - 1) in
        min (if p \<ge> half then p - half else 0) highest)"

subsection \<open>Representation invariant\<close>

definition occ :: "price_ladder \<Rightarrow> nat set" where
  "occ L = {i. i < length (window L) \<and> \<not> level_empty (window L ! i)}"

definition ladder_inv :: "bool \<Rightarrow> price_ladder \<Rightarrow> bool" where
  "ladder_inv bid L \<longleftrightarrow>
     limit L \<le> length (window L) \<and> unat (lo L) + limit L \<le> 2 ^ 64 \<and>
     (\<forall>i<length (window L). level_empty (window L ! i) \<longrightarrow> window L ! i = empty_level) \<and>
     occ L \<subseteq> {..<limit L} \<and> occupied L = card (occ L) \<and>
     (occ L \<noteq> {} \<longrightarrow> best_idx L \<in> occ L \<and>
        (\<forall>i\<in>occ L. if bid then i \<le> best_idx L else best_idx L \<le> i)) \<and>
     sorted_wrt (\<lambda>a b. better bid (fst a) (fst b)) (overflow L) \<and>
     (\<forall>(p, l)\<in>set (overflow L). \<not> in_window L p \<and> \<not> level_empty l) \<and>
     (\<not> is_placed L \<longrightarrow> limit L = 0 \<and> overflow L = [])"

subsection \<open>The ranking of prices\<close>

lemma better_irrefl [simp]: "\<not> better bid p p"
  by (simp add: better_def)

lemma better_trans: "better bid p q \<Longrightarrow> better bid q r \<Longrightarrow> better bid p r"
  by (auto simp: better_def split: if_splits)

lemma better_total: "p \<noteq> q \<Longrightarrow> better bid p q \<or> better bid q p"
  by (auto simp: better_def)

lemma better_asym: "better bid p q \<Longrightarrow> \<not> better bid q p"
  by (auto simp: better_def split: if_splits)

abbreviation ranked :: "bool \<Rightarrow> (price \<times> 'a) list \<Rightarrow> bool" where
  "ranked bid xs \<equiv> sorted_wrt (\<lambda>a b. better bid (fst a) (fst b)) xs"

lemma ranked_distinct: "ranked bid xs \<Longrightarrow> distinct (map fst xs)"
  by (induction xs) (auto simp: better_def split: if_splits)

subsection \<open>The fallback map\<close>

lemma map_of_try_emplace:
  "map_of (omap_try_emplace bid p xs) q =
     (if q = p then (case map_of xs p of None \<Rightarrow> Some empty_level | Some l \<Rightarrow> Some l) else map_of xs q)"
  if "ranked bid xs"
  using that
proof (induction bid p xs rule: omap_try_emplace.induct)
  case (2 bid p r l xs)
  have "map_of xs p = None" if "better bid p r"
  proof (rule ccontr)
    assume "map_of xs p \<noteq> None"
    then have "p \<in> fst ` set xs" by (simp add: map_of_eq_None_iff)
    then have "better bid r p" using "2.prems" by auto
    then show False using that better_asym by blast
  qed
  then show ?case using 2 by auto
qed auto

lemma fst_try_emplace: "fst ` set (omap_try_emplace bid p xs) = insert p (fst ` set xs)"
  by (induction bid p xs rule: omap_try_emplace.induct) auto

lemma ranked_try_emplace: "ranked bid xs \<Longrightarrow> ranked bid (omap_try_emplace bid p xs)"
proof (induction bid p xs rule: omap_try_emplace.induct)
  case (2 bid p q l xs)
  have "better bid q (fst x)" if "x \<in> set (omap_try_emplace bid p xs)" "q \<noteq> p" "\<not> better bid p q" for x
  proof -
    have "fst x = p \<or> fst x \<in> fst ` set xs" using that(1) fst_try_emplace by (metis image_eqI insertE)
    then show ?thesis using 2 that better_total [of p q bid] by auto
  qed
  then show ?case using 2 better_trans [of bid p q] by auto
qed simp

lemma map_of_omap_set: "map_of (omap_set p l xs) q = (if q = p \<and> map_of xs p \<noteq> None then Some l else map_of xs q)"
  by (induction xs) (auto simp: omap_set_def)

lemma map_fst_omap_set [simp]: "map fst (omap_set p l xs) = map fst xs"
  by (induction xs) (auto simp: omap_set_def)

lemma omap_set_Nil [simp]: "omap_set p l [] = []"
  by (simp add: omap_set_def)

lemma ranked_map_fst: "ranked bid xs \<longleftrightarrow> sorted_wrt (better bid) (map fst xs)"
  by (simp add: sorted_wrt_map)

lemma ranked_omap_set [simp]: "ranked bid (omap_set p l xs) \<longleftrightarrow> ranked bid xs"
  by (simp add: ranked_map_fst)

lemma map_of_omap_erase: "map_of (omap_erase p xs) q = (if q = p then None else map_of xs q)"
  by (induction xs) (auto simp: omap_erase_def)

lemma omap_erase_Nil: "omap_erase p [] = []"
  by (simp add: omap_erase_def)

lemma ranked_omap_erase: "ranked bid xs \<Longrightarrow> ranked bid (omap_erase p xs)"
  by (simp add: omap_erase_def sorted_wrt_filter)

lemma set_of_ranked: "ranked bid xs \<Longrightarrow> (p, l) \<in> set xs \<longleftrightarrow> map_of xs p = Some l"
  using ranked_distinct map_of_eq_Some_iff by fastforce

subsection \<open>Window indices and prices\<close>

lemma window_price:
  assumes "unat (lo L) + limit L \<le> 2 ^ 64" and "i < limit L"
  shows "unat (lo L + of_nat i) = unat (lo L) + i" "unat (lo L + of_nat i - lo L) = i"
    "in_window L (lo L + of_nat i)"
proof -
  have small: "i < 2 ^ 64" "unat (lo L) + i < 2 ^ 64" using assms by auto
  then have i: "unat (of_nat i :: price) = i" by (simp add: unat_of_nat take_bit_nat_eq_self_iff)
  show u: "unat (lo L + of_nat i) = unat (lo L) + i" using small i by (simp add: unat_word_ariths)
  show d: "unat (lo L + of_nat i - lo L) = i" using i by simp
  show "in_window L (lo L + of_nat i)" using u d assms(2) by (simp add: in_window_def word_le_nat_alt)
qed

lemma window_index_price: "lo L + of_nat (unat (p - lo L)) = (p :: price)"
  by simp

lemma window_index_eq_iff: "unat (p - lo L) = unat (q - lo L) \<longleftrightarrow> p = q"
  by (simp add: word_unat_eq_iff [symmetric])

lemma in_window_upd [simp]:
  "in_window (L\<lparr>overflow := x\<rparr>) p = in_window L p" "in_window (L\<lparr>window := w\<rparr>) p = in_window L p"
  "in_window (L\<lparr>occupied := n\<rparr>) p = in_window L p" "in_window (L\<lparr>best_idx := n\<rparr>) p = in_window L p"
  "in_window (L\<lparr>outside_opens := c\<rparr>) p = in_window L p"
  by (simp_all add: in_window_def)

lemma in_window_index:
  assumes "ladder_inv bid L" and "in_window L p"
  shows "unat (p - lo L) < length (window L)" "unat (p - lo L) < limit L"
  using assms by (auto simp: ladder_inv_def in_window_def)

lemma better_window:
  fixes L :: price_ladder
  assumes "unat (lo L) + limit L \<le> 2 ^ 64" and "i < limit L" "j < limit L"
  shows "better bid (lo L + of_nat i) (lo L + of_nat j) \<longleftrightarrow> (if bid then j < i else i < j)"
  using window_price(1) [OF assms(1)] assms(2,3) by (auto simp: better_def word_less_nat_alt)

subsection \<open>Consequences of the invariant\<close>

lemma ladder_invD:
  assumes "ladder_inv bid L"
  shows "limit L \<le> length (window L)" "unat (lo L) + limit L \<le> 2 ^ 64"
    "i < length (window L) \<Longrightarrow> level_empty (window L ! i) \<Longrightarrow> window L ! i = empty_level"
    "i \<in> occ L \<Longrightarrow> i < limit L" "occupied L = card (occ L)"
    "occ L \<noteq> {} \<Longrightarrow> best_idx L \<in> occ L"
    "i \<in> occ L \<Longrightarrow> (if bid then i \<le> best_idx L else best_idx L \<le> i)"
    "ranked bid (overflow L)"
    "map_of (overflow L) p = Some l \<Longrightarrow> \<not> in_window L p \<and> \<not> level_empty l"
    "\<not> is_placed L \<Longrightarrow> limit L = 0 \<and> overflow L = []"
proof -
  note d = assms [unfolded ladder_inv_def]
  show "limit L \<le> length (window L)" "unat (lo L) + limit L \<le> 2 ^ 64"
    "i < length (window L) \<Longrightarrow> level_empty (window L ! i) \<Longrightarrow> window L ! i = empty_level"
    "i \<in> occ L \<Longrightarrow> i < limit L" "occupied L = card (occ L)"
    "occ L \<noteq> {} \<Longrightarrow> best_idx L \<in> occ L" "ranked bid (overflow L)"
    "\<not> is_placed L \<Longrightarrow> limit L = 0 \<and> overflow L = []"
    "i \<in> occ L \<Longrightarrow> (if bid then i \<le> best_idx L else best_idx L \<le> i)"
    using d by blast+
  show "\<not> in_window L p \<and> \<not> level_empty l" if "map_of (overflow L) p = Some l"
    using d map_of_SomeD [OF that] by blast
qed

lemma finite_occ [simp]: "finite (occ L)"
  by (simp add: occ_def)

lemma occupied_pos_iff: "ladder_inv bid L \<Longrightarrow> occupied L > 0 \<longleftrightarrow> occ L \<noteq> {}"
  using ladder_invD(5) [of bid L] by (simp add: card_gt_0_iff)

text \<open>The price of a window index, and the two ways in which a price can be occupied.\<close>

lemma find_window_index:
  assumes "ladder_inv bid L" and "i < limit L"
  shows "ladder_find L (lo L + of_nat i) = (if i \<in> occ L then Some (window L ! i) else None)"
  using ladder_invD(1,2) [OF assms(1)] window_price [of L i] assms(2)
  by (auto simp: ladder_find_def occ_def Let_def)

lemma find_cases:
  assumes inv: "ladder_inv bid L" and f: "ladder_find L p = Some l"
  obtains (inside) i where "i \<in> occ L" "i < limit L" "p = lo L + of_nat i" "l = window L ! i" "in_window L p"
    | (outside) "\<not> in_window L p" "map_of (overflow L) p = Some l"
proof (cases "in_window L p")
  case True
  then show ?thesis
    using f in_window_index [OF inv True] inside [of "unat (p - lo L)"] window_index_price [of L p]
    by (auto simp: ladder_find_def occ_def Let_def split: if_splits)
next
  case False
  then show ?thesis using f outside by (simp add: ladder_find_def)
qed

lemma find_nonempty:
  assumes "ladder_inv bid L" and "ladder_find L p = Some l"
  shows "\<not> level_empty l"
  using assms(2) ladder_invD(9) [OF assms(1)]
  by (auto simp: ladder_find_def Let_def split: if_splits)

text \<open>
  The best level: it exists exactly when the side is not empty, it is the level at its price, and
  no occupied price beats it.
\<close>

lemma best_window:
  assumes "ladder_inv bid L" and "occ L \<noteq> {}"
  shows "ladder_find L (lo L + of_nat (best_idx L)) = Some (window L ! best_idx L)"
    "i \<in> occ L \<Longrightarrow> \<not> better bid (lo L + of_nat i) (lo L + of_nat (best_idx L))"
proof -
  note d = ladder_invD [OF assms(1)]
  have b: "best_idx L \<in> occ L" "best_idx L < limit L" using d(4,6) assms(2) by auto
  show "ladder_find L (lo L + of_nat (best_idx L)) = Some (window L ! best_idx L)"
    using find_window_index [OF assms(1) b(2)] b(1) by simp
  show "\<not> better bid (lo L + of_nat i) (lo L + of_nat (best_idx L))" if "i \<in> occ L"
    using better_window [OF d(2), of i "best_idx L" bid] d(4,7) [OF that] b by (auto split: if_splits)
qed

lemma ladder_best_None:
  assumes "ladder_inv bid L"
  shows "ladder_best bid L = None \<longleftrightarrow> (\<forall>p. ladder_find L p = None)"
proof -
  note d = ladder_invD [OF assms]
  have "ladder_best bid L = None \<longleftrightarrow> occ L = {} \<and> overflow L = []"
    using occupied_pos_iff [OF assms] by (auto simp: ladder_best_def Let_def split: list.splits option.splits)
  also have "\<dots> \<longleftrightarrow> (\<forall>p. ladder_find L p = None)"
  proof
    assume e: "occ L = {} \<and> overflow L = []"
    show "\<forall>p. ladder_find L p = None"
    proof
      fix p
      show "ladder_find L p = None"
        using e by (cases "ladder_find L p") (auto elim!: find_cases [OF assms])
    qed
  next
    assume n: "\<forall>p. ladder_find L p = None"
    have "overflow L = []"
    proof (rule ccontr)
      assume "overflow L \<noteq> []"
      then obtain q k xs where o: "overflow L = (q, k) # xs" by (cases "overflow L") auto
      then have "map_of (overflow L) q = Some k" by simp
      then have "ladder_find L q = Some k" using d(9) by (simp add: ladder_find_def)
      then show False using n by simp
    qed
    moreover have "occ L = {}" using n best_window(1) [OF assms] by (cases "occ L = {}") auto
    ultimately show "occ L = {} \<and> overflow L = []" by simp
  qed
  finally show ?thesis .
qed

lemma ladder_best_Some:
  assumes inv: "ladder_inv bid L" and best: "ladder_best bid L = Some (p, l)"
  shows "ladder_find L p = Some l" "ladder_find L q \<noteq> None \<Longrightarrow> \<not> better bid q p"
proof -
  note d = ladder_invD [OF inv]
  let ?w = "lo L + of_nat (best_idx L)"
  have win: "\<not> better bid q p" if "\<not> better bid ?w p" "occ L \<noteq> {}" "i \<in> occ L" "q = lo L + of_nat i" for q i
    using that best_window(2) [OF inv that(2,3)] better_trans [of bid q p ?w] better_total [of ?w p bid]
    by auto
  show "ladder_find L p = Some l" "ladder_find L q \<noteq> None \<Longrightarrow> \<not> better bid q p"
  proof (atomize (full), cases "overflow L")
    case Nil
    then have occ: "occ L \<noteq> {}" and p: "p = ?w" "l = window L ! best_idx L"
      using best occupied_pos_iff [OF inv] by (auto simp: ladder_best_def split: if_splits)
    have "\<not> better bid q p" if f: "ladder_find L q = Some k" for k
    proof (rule find_cases [OF inv f])
      fix i
      assume "i \<in> occ L" "q = lo L + of_nat i"
      then show ?thesis using win [of i q] occ p(1) by auto
    qed (use Nil in simp)
    then show "ladder_find L p = Some l \<and> (ladder_find L q \<noteq> None \<longrightarrow> \<not> better bid q p)"
      using p best_window(1) [OF inv occ] by auto
  next
    case (Cons x xs)
    obtain r k where x: "x = (r, k)" by (cases x)
    have r: "ladder_find L r = Some k" using d(9) [of r k] Cons x by (simp add: ladder_find_def)
    have first: "\<not> better bid q r" if "map_of (overflow L) q \<noteq> None" for q
    proof -
      have "q = r \<or> better bid r q"
        using that d(8) Cons x by (auto dest!: map_of_SomeD split: if_splits)
      then show ?thesis using better_asym by auto
    qed
    have alt: "(p = r \<and> l = k \<and> (occ L \<noteq> {} \<longrightarrow> \<not> better bid ?w r)) \<or>
        (occ L \<noteq> {} \<and> p = ?w \<and> l = window L ! best_idx L \<and> \<not> better bid r ?w)"
      using best Cons x occupied_pos_iff [OF inv] better_asym [of bid r ?w]
      by (auto simp: ladder_best_def split: if_splits)
    have "\<not> better bid q p" if f: "ladder_find L q = Some m" for m
    proof (rule find_cases [OF inv f])
      fix i
      assume i: "i \<in> occ L" "q = lo L + of_nat i"
      then have "occ L \<noteq> {}" by auto
      then show ?thesis using win [of i q] alt i by auto
    next
      assume "map_of (overflow L) q = Some m"
      then have "\<not> better bid q r" using first by simp
      then show ?thesis using alt better_trans [of bid q p r] better_total [of r p bid] by auto
    qed
    then show "ladder_find L p = Some l \<and> (ladder_find L q \<noteq> None \<longrightarrow> \<not> better bid q p)"
      using alt r best_window(1) [OF inv] by auto
  qed
qed

subsection \<open>Opening, updating and closing levels\<close>

text \<open>Opening the level of a price and filling it; emptying the level of a price and closing it.\<close>

definition ladder_put :: "bool \<Rightarrow> price \<Rightarrow> price_level \<Rightarrow> price_ladder \<Rightarrow> price_ladder" where
  "ladder_put bid p l L = set_level p l (ladder_open bid p L)"

definition ladder_drop :: "bool \<Rightarrow> price \<Rightarrow> price_ladder \<Rightarrow> (unit, price_ladder) run" where
  "ladder_drop bid p L = ladder_closed bid p (set_level p empty_level L)"

lemma find_upd_window:
  assumes "in_window L p" and "unat (p - lo L) < length (window L)"
    and "lo L' = lo L" "limit L' = limit L" "overflow L' = overflow L"
    and "window L' = (window L)[unat (p - lo L) := l]"
  shows "ladder_find L' = (ladder_find L)(p := if level_empty l then None else Some l)"
proof
  fix q
  have "in_window L' q = in_window L q" using assms(3,4) by (simp add: in_window_def)
  then show "ladder_find L' q = ((ladder_find L)(p := if level_empty l then None else Some l)) q"
    using assms window_index_eq_iff [of p L q] by (auto simp: ladder_find_def Let_def)
qed

lemma find_upd_overflow:
  assumes "\<not> in_window L p" and "lo L' = lo L" "limit L' = limit L" "window L' = window L"
    and "map_of (overflow L') = (map_of (overflow L))(p := x)"
  shows "ladder_find L' = (ladder_find L)(p := x)"
proof
  fix q
  have "in_window L' q = in_window L q" using assms(2,3) by (simp add: in_window_def)
  then show "ladder_find L' q = ((ladder_find L)(p := x)) q"
    using assms by (auto simp: ladder_find_def Let_def)
qed

lemma occ_upd:
  assumes "i < length (window L)" and "window L' = (window L)[i := l]"
  shows "occ L' = (if level_empty l then occ L - {i} else insert i (occ L))"
  using assms by (auto simp: occ_def nth_list_update split: if_splits)

text \<open>A window update keeps the invariant when count and best index are kept in step with it.\<close>

lemma ladder_inv_window:
  assumes inv: "ladder_inv bid L" and i: "i < limit L"
    and same: "lo L' = lo L" "limit L' = limit L" "overflow L' = overflow L" "is_placed L' = is_placed L"
    and win: "window L' = (window L)[i := l]" and clean: "level_empty l \<Longrightarrow> l = empty_level"
    and cnt: "occupied L' = card (occ L')"
    and best: "occ L' \<noteq> {} \<Longrightarrow> best_idx L' \<in> occ L' \<and>
        (\<forall>j\<in>occ L'. if bid then j \<le> best_idx L' else best_idx L' \<le> j)"
  shows "ladder_inv bid L'"
proof -
  note d = ladder_invD [OF inv]
  have iw: "i < length (window L)" using i d(1) by simp
  have iw': "in_window L' q = in_window L q" for q using same by (simp add: in_window_def)
  have "\<forall>j<length (window L'). level_empty (window L' ! j) \<longrightarrow> window L' ! j = empty_level"
    using d(3) clean iw by (auto simp: win nth_list_update)
  moreover have "occ L' \<subseteq> {..<limit L'}"
    using d(4) i occ_upd [OF iw win] same(2) by auto
  moreover have "\<forall>(p, l)\<in>set (overflow L'). \<not> in_window L' p \<and> \<not> level_empty l"
    using inv by (simp add: same iw' ladder_inv_def)
  ultimately show ?thesis
    using d(1,2,8,10) cnt best by (simp add: ladder_inv_def same win)
qed

lemma ladder_inv_overflow:
  assumes inv: "ladder_inv bid L" and same: "lo L' = lo L" "limit L' = limit L" "window L' = window L"
      "occupied L' = occupied L" "best_idx L' = best_idx L" "is_placed L' = is_placed L"
    and rk: "ranked bid (overflow L')"
    and out: "\<And>q k. map_of (overflow L') q = Some k \<Longrightarrow> \<not> in_window L q \<and> \<not> level_empty k"
    and placed: "\<not> is_placed L \<Longrightarrow> overflow L' = []"
  shows "ladder_inv bid L'"
proof -
  have "in_window L' q = in_window L q" for q using same by (simp add: in_window_def)
  then have "\<forall>(p, l)\<in>set (overflow L'). \<not> in_window L' p \<and> \<not> level_empty l"
    using out set_of_ranked [OF rk] by auto
  then show ?thesis using inv rk placed by (simp add: ladder_inv_def same occ_def)
qed

lemma set_level_existing:
  assumes inv: "ladder_inv bid L" and f: "ladder_find L p = Some l0" and l: "\<not> level_empty l"
  shows "ladder_inv bid (set_level p l L)" "ladder_find (set_level p l L) = (ladder_find L)(p \<mapsto> l)"
proof -
  note d = ladder_invD [OF inv]
  show "ladder_inv bid (set_level p l L)" "ladder_find (set_level p l L) = (ladder_find L)(p \<mapsto> l)"
  proof (atomize (full), cases rule: find_cases [OF inv f])
    case (1 i)
    have i: "unat (p - lo L) = i" using window_price(2) [OF d(2) 1(2)] 1(3) by simp
    have iw: "i < length (window L)" using 1(2) d(1) by simp
    let ?L = "L\<lparr>window := (window L)[i := l]\<rparr>"
    have L': "set_level p l L = ?L" using 1(5) i by (simp add: set_level_def)
    have occ: "occ ?L = occ L" using occ_upd [OF iw, of ?L l] l 1(1) by auto
    have "ladder_inv bid ?L"
      by (rule ladder_inv_window [OF inv 1(2), of _ l]) (use d l occ in auto)
    moreover have "ladder_find ?L = (ladder_find L)(p \<mapsto> l)"
      using find_upd_window [OF 1(5), of ?L l] i iw l by simp
    ultimately show "ladder_inv bid (set_level p l L) \<and> ladder_find (set_level p l L) = (ladder_find L)(p \<mapsto> l)"
      by (simp add: L')
  next
    case 2
    let ?L = "L\<lparr>overflow := omap_set p l (overflow L)\<rparr>"
    have L': "set_level p l L = ?L" using 2(1) by (simp add: set_level_def)
    have m: "map_of (overflow ?L) = (map_of (overflow L))(p \<mapsto> l)"
      using 2(2) by (auto simp: map_of_omap_set)
    have "ladder_inv bid ?L"
      by (rule ladder_inv_overflow [OF inv]) (use d(8,9,10) 2 l m in \<open>auto split: if_splits\<close>)
    moreover have "ladder_find ?L = (ladder_find L)(p \<mapsto> l)"
      by (rule find_upd_overflow) (use 2 m in auto)
    ultimately show "ladder_inv bid (set_level p l L) \<and> ladder_find (set_level p l L) = (ladder_find L)(p \<mapsto> l)"
      by (simp add: L')
  qed
qed

lemma put_window_fresh:
  assumes inv: "ladder_inv bid L" and p: "in_window L p" and e: "ladder_find L p = None"
    and l: "\<not> level_empty l"
  shows "ladder_inv bid (ladder_put bid p l L)"
    "ladder_find (ladder_put bid p l L) = (ladder_find L)(p \<mapsto> l)"
proof -
  note d = ladder_invD [OF inv]
  define i where "i = unat (p - lo L)"
  have i: "i < limit L" "i < length (window L)" using in_window_index [OF inv p] by (auto simp: i_def)
  have empty: "level_empty (window L ! i)" using e p by (auto simp: ladder_find_def i_def Let_def split: if_splits)
  define L' where "L' = ladder_put bid p l L"
  define b where "b = (if occupied L = 0 \<or> (if bid then i > best_idx L else i < best_idx L) then i else best_idx L)"
  have L': "L' = L\<lparr>window := (window L)[i := l], occupied := occupied L + 1, best_idx := b\<rparr>"
    using p empty
    by (auto simp: L'_def ladder_put_def ladder_open_def set_level_def note_opened_def
        i_def b_def Let_def)
  have "i \<notin> occ L" using empty by (simp add: occ_def)
  moreover have occ: "occ L' = insert i (occ L)" using occ_upd [OF i(2), of L' l] l L' by simp
  ultimately have cnt: "occupied L' = card (occ L')" using d(5) by (simp add: L')
  have best: "b \<in> insert i (occ L) \<and> (\<forall>j\<in>insert i (occ L). if bid then j \<le> b else b \<le> j)"
  proof (cases "occ L = {}")
    case True
    then show ?thesis using d(5) by (simp add: b_def)
  next
    case False
    then have nz: "occupied L \<noteq> 0" and bi: "best_idx L \<in> occ L" using d(5,6) by auto
    have "if bid then j \<le> b else b \<le> j" if "j \<in> occ L" for j
      using d(7) [OF that] nz by (auto simp: b_def split: if_splits)
    then show ?thesis using nz bi by (auto simp: b_def)
  qed
  show "ladder_inv bid (ladder_put bid p l L)"
    unfolding L'_def [symmetric]
    by (rule ladder_inv_window [OF inv i(1), of L' l]) (use cnt best occ l in \<open>auto simp: L'\<close>)
  show "ladder_find (ladder_put bid p l L) = (ladder_find L)(p \<mapsto> l)"
    unfolding L'_def [symmetric]
    using find_upd_window [OF p, of L' l] i l by (simp add: L' i_def)
qed

lemma put_overflow:
  assumes inv: "ladder_inv bid L" and p: "\<not> in_window L p" and placed: "is_placed L"
    and l: "\<not> level_empty l"
  shows "ladder_inv bid (ladder_put bid p l L)"
    "ladder_find (ladder_put bid p l L) = (ladder_find L)(p \<mapsto> l)"
proof -
  note d = ladder_invD [OF inv]
  define L' where "L' = ladder_put bid p l L"
  have L': "L' = L\<lparr>outside_opens := outside_opens L + 1,
      overflow := omap_set p l (omap_try_emplace bid p (overflow L))\<rparr>"
    using p by (simp add: L'_def ladder_put_def ladder_open_def set_level_def)
  have m: "map_of (overflow L') = (map_of (overflow L))(p \<mapsto> l)"
    by (auto simp: L' map_of_omap_set map_of_try_emplace [OF d(8)] fun_eq_iff split: option.splits)
  have rk: "ranked bid (overflow L')" by (simp add: L' ranked_try_emplace [OF d(8)])
  show "ladder_inv bid (ladder_put bid p l L)"
    unfolding L'_def [symmetric]
    by (rule ladder_inv_overflow [OF inv _ _ _ _ _ _ rk])
      (use d(9) p l placed m in \<open>auto simp: L' split: if_splits\<close>)
  show "ladder_find (ladder_put bid p l L) = (ladder_find L)(p \<mapsto> l)"
    unfolding L'_def [symmetric] by (rule find_upd_overflow [OF p]) (use m in \<open>auto simp: L'\<close>)
qed

lemma open_existing:
  assumes "ladder_inv bid L" and "ladder_find L p = Some l0" and "in_window L p"
  shows "ladder_open bid p L = L"
  using assms by (auto simp: ladder_open_def ladder_find_def Let_def split: if_splits)

lemma ladder_open_placed [simp]: "is_placed (ladder_open bid p L) = is_placed L"
  by (simp add: ladder_open_def note_opened_def Let_def)

lemma set_level_placed [simp]: "is_placed (set_level p l L) = is_placed L"
  by (simp add: set_level_def)

lemma ladder_put_placed [simp]: "is_placed (ladder_put bid p l L) = is_placed L"
  by (simp add: ladder_put_def)

lemma ladder_put_spec:
  assumes inv: "ladder_inv bid L" and placed: "is_placed L" and l: "\<not> level_empty l"
  shows "ladder_inv bid (ladder_put bid p l L)"
    "ladder_find (ladder_put bid p l L) = (ladder_find L)(p \<mapsto> l)"
proof (atomize (full), cases "in_window L p")
  case True
  show "ladder_inv bid (ladder_put bid p l L) \<and> ladder_find (ladder_put bid p l L) = (ladder_find L)(p \<mapsto> l)"
  proof (cases "ladder_find L p")
    case None
    then show ?thesis using put_window_fresh [OF inv True None l] by simp
  next
    case (Some l0)
    then show ?thesis
      using set_level_existing [OF inv Some l] open_existing [OF inv Some True] by (simp add: ladder_put_def)
  qed
next
  case False
  show "ladder_inv bid (ladder_put bid p l L) \<and> ladder_find (ladder_put bid p l L) = (ladder_find L)(p \<mapsto> l)"
    using put_overflow [OF inv False placed l] by simp
qed

text \<open>The unchecked scan stays inside the array whenever a worse occupied level exists.\<close>

lemma next_down_spec:
  assumes "k < i" and "\<not> level_empty (w ! k)"
  shows "\<exists>j<i. next_down w i = Some j \<and> \<not> level_empty (w ! j) \<and> (\<forall>k<i. \<not> level_empty (w ! k) \<longrightarrow> k \<le> j)"
  using assms
proof (induction i arbitrary: k)
  case (Suc i)
  show ?case
  proof (cases "level_empty (w ! i)")
    case True
    then have "k < i" using Suc.prems by (cases "k = i") auto
    then show ?thesis using Suc.IH [OF _ Suc.prems(2)] True by (auto simp: less_Suc_eq)
  qed (auto simp: less_Suc_eq)
qed simp

lemma next_up_spec:
  assumes "i < k" "k < length w" and "\<not> level_empty (w ! k)"
  shows "\<exists>j>i. next_up w i = Some j \<and> j < length w \<and> \<not> level_empty (w ! j) \<and>
    (\<forall>k>i. k < length w \<and> \<not> level_empty (w ! k) \<longrightarrow> j \<le> k)"
  using assms
proof (induction w i arbitrary: k rule: next_up.induct)
  case (1 w i)
  show ?case
  proof (cases "level_empty (w ! (i + 1))")
    case True
    have ne: "k \<noteq> i + 1" if "\<not> level_empty (w ! k)" for k using True that by auto
    have "i + 1 < k" using "1.prems"(1) ne [OF "1.prems"(3)] by simp
    from "1.IH" [OF _ True this "1.prems"(2,3)] "1.prems"(1,2)
    obtain j where j: "j > i + 1" "next_up w (i + 1) = Some j" "j < length w" "\<not> level_empty (w ! j)"
      and least: "\<forall>k>i + 1. k < length w \<and> \<not> level_empty (w ! k) \<longrightarrow> j \<le> k"
      by auto
    have "next_up w i = Some j" using j(2) True "1.prems"(1,2) by (simp add: next_up.simps [of w i])
    moreover have "j \<le> k" if "k > i" "k < length w" "\<not> level_empty (w ! k)" for k
      using least that ne [of k] by (metis Suc_eq_plus1 Suc_leI le_neq_implies_less)
    ultimately show ?thesis using j by (intro exI [of _ j]) auto
  next
    case False
    then have "next_up w i = Some (i + 1)" using "1.prems"(1,2) by (simp add: next_up.simps [of w i])
    then show ?thesis using False "1.prems"(1,2) by (intro exI [of _ "i + 1"]) auto
  qed
qed

lemma next_occupied_spec:
  assumes ne: "occ L \<noteq> {}" and i: "i < length (window L)" and worse: "\<And>k. k \<in> occ L \<Longrightarrow> if bid then k < i else i < k"
  shows "\<exists>j\<in>occ L. next_occupied bid L i = Some j \<and> (\<forall>k\<in>occ L. if bid then k \<le> j else j \<le> k)"
proof -
  obtain k where k: "k \<in> occ L" using ne by auto
  note kk = k [unfolded occ_def] worse [OF k]
  show ?thesis
  proof (cases bid)
    case True
    have b: "m < i" if "m \<in> occ L" for m using worse [OF that] True by simp
    obtain j where j: "j < i" "next_down (window L) i = Some j" "\<not> level_empty (window L ! j)"
        "\<forall>k<i. \<not> level_empty (window L ! k) \<longrightarrow> k \<le> j"
      using next_down_spec [of k i "window L"] kk True by auto
    have kj: "m \<le> j" if "m \<in> occ L" for m using j(4) b [OF that] that by (auto simp: occ_def)
    show ?thesis using True i j kj by (intro bexI [of _ j]) (auto simp: next_occupied_def occ_def)
  next
    case False
    have b: "i < m" if "m \<in> occ L" for m using worse [OF that] False by simp
    obtain j where j: "j > i" "next_up (window L) i = Some j" "j < length (window L)"
        "\<not> level_empty (window L ! j)"
        "\<forall>k>i. k < length (window L) \<and> \<not> level_empty (window L ! k) \<longrightarrow> j \<le> k"
      using next_up_spec [of i k "window L"] kk False by auto
    show ?thesis using False j b by (intro bexI [of _ j]) (auto simp: next_occupied_def occ_def)
  qed
qed

lemma drop_window:
  assumes inv: "ladder_inv bid L" and i: "i \<in> occ L" and p: "p = lo L + of_nat i"
  shows "\<exists>L'. ladder_drop bid p L = ret () L' \<and> ladder_inv bid L' \<and>
    ladder_find L' = (ladder_find L)(p := None) \<and> is_placed L' = is_placed L"
proof -
  note d = ladder_invD [OF inv]
  have il: "i < limit L" using d(4) i by simp
  then have iw: "i < length (window L)" using d(1) by simp
  have idx: "unat (p - lo L) = i" "in_window L p" using window_price(2,3) [OF d(2) il] p by auto
  define L1 where "L1 = L\<lparr>window := (window L)[i := empty_level], occupied := occupied L - 1\<rparr>"
  have "occupied L \<noteq> 0" using i d(5) card_gt_0_iff [of "occ L"] finite_occ [of L] by auto
  then have drop: "ladder_drop bid p L =
      (if occupied L1 > 0 \<and> i = best_idx L
       then (case next_occupied bid L1 i of None \<Rightarrow> throw Undefined_behaviour L1
             | Some j \<Rightarrow> ret () (L1\<lparr>best_idx := j\<rparr>)) else ret () L1)"
    using idx by (auto simp: ladder_drop_def ladder_closed_def set_level_def L1_def Let_def split: option.split)
  have emp: "level_empty empty_level" by (simp add: level_empty_def empty_level_def)
  have occ1: "occ L1 = occ L - {i}" using occ_upd [OF iw, of L1 empty_level] emp by (simp add: L1_def)
  have cnt: "occupied L1 = card (occ L1)" using i d(5) occ1 by (simp add: L1_def)
  then have pos: "occupied L1 > 0 \<longleftrightarrow> occ L1 \<noteq> {}"
    by (metis card_gt_0_iff finite_occ)
  have upd: "ladder_inv bid L' \<and> ladder_find L' = (ladder_find L)(p := None) \<and> is_placed L' = is_placed L"
    if L': "L' = L1\<lparr>best_idx := j\<rparr>"
      and best: "occ L1 \<noteq> {} \<Longrightarrow> j \<in> occ L1 \<and> (\<forall>k\<in>occ L1. if bid then k \<le> j else j \<le> k)" for j L'
  proof -
    have o: "occ L' = occ L1" by (simp add: L' occ_def)
    have "ladder_inv bid L'"
      by (rule ladder_inv_window [OF inv il, of _ empty_level])
        (use best cnt o in \<open>auto simp: L' L1_def\<close>)
    moreover have "ladder_find L' = (ladder_find L)(p := None)"
      using find_upd_window [OF idx(2), of L' empty_level] emp iw by (simp add: L' L1_def idx(1))
    ultimately show ?thesis by (simp add: L' L1_def)
  qed
  show ?thesis
  proof (cases "occ L1 \<noteq> {} \<and> i = best_idx L")
    case True
    have "if bid then k < i else i < k" if "k \<in> occ L1" for k
      using d(7) [of k] that occ1 True by (auto split: if_splits)
    then obtain j where "j \<in> occ L1" "next_occupied bid L1 i = Some j"
        "\<forall>k\<in>occ L1. if bid then k \<le> j else j \<le> k"
      using next_occupied_spec [of L1 i bid] True iw by (auto simp: L1_def)
    then show ?thesis using upd [of _ j] drop True pos by auto
  next
    case False
    have "best_idx L \<in> occ L1 \<and> (\<forall>k\<in>occ L1. if bid then k \<le> best_idx L else best_idx L \<le> k)"
      if "occ L1 \<noteq> {}" using d(6,7) i occ1 False that by auto
    then have "ladder_inv bid L1 \<and> ladder_find L1 = (ladder_find L)(p := None) \<and> is_placed L1 = is_placed L"
      using upd [of L1 "best_idx L"] by (simp add: L1_def)
    then show ?thesis using drop False pos by auto
  qed
qed

lemma drop_overflow:
  assumes inv: "ladder_inv bid L" and p: "\<not> in_window L p"
  shows "\<exists>L'. ladder_drop bid p L = ret () L' \<and> ladder_inv bid L' \<and>
    ladder_find L' = (ladder_find L)(p := None) \<and> is_placed L' = is_placed L"
proof -
  note d = ladder_invD [OF inv]
  let ?L = "L\<lparr>overflow := omap_erase p (overflow L)\<rparr>"
  have "omap_erase p (omap_set p l xs) = omap_erase p xs" for l xs
    by (induction xs) (auto simp: omap_erase_def omap_set_def)
  then have drop: "ladder_drop bid p L = ret () ?L"
    using p by (simp add: ladder_drop_def ladder_closed_def set_level_def)
  have m: "map_of (overflow ?L) = (map_of (overflow L))(p := None)"
    by (auto simp: map_of_omap_erase)
  have "ladder_inv bid ?L"
    by (rule ladder_inv_overflow [OF inv])
      (use d(9,10) m in \<open>auto simp: ranked_omap_erase [OF d(8)] omap_erase_Nil split: if_splits\<close>)
  moreover have "ladder_find ?L = (ladder_find L)(p := None)"
    by (rule find_upd_overflow [OF p]) (use m in auto)
  ultimately show ?thesis using drop by auto
qed

lemma ladder_drop_spec:
  assumes inv: "ladder_inv bid L" and f: "ladder_find L p = Some l"
  shows "\<exists>L'. ladder_drop bid p L = ret () L' \<and> ladder_inv bid L' \<and>
    ladder_find L' = (ladder_find L)(p := None) \<and> is_placed L' = is_placed L"
  by (cases rule: find_cases [OF inv f]) (use drop_window [OF inv] drop_overflow [OF inv] in auto)

subsection \<open>The traversal\<close>

lemma sorted_takeWhile_filter:
  assumes "sorted_wrt R xs" and "\<And>a b. R a b \<Longrightarrow> P b \<Longrightarrow> P a"
  shows "takeWhile P xs = filter P xs" "dropWhile P xs = filter (\<lambda>x. \<not> P x) xs"
  using assms(1)
proof (induction xs)
  case (Cons x xs)
  { case 1
    have "filter P xs = []" if "\<not> P x" using 1 assms(2) [of x] that by (auto simp: filter_empty_conv)
    then show ?case using Cons.IH(1) 1 by auto }
  { case 2
    have "filter (\<lambda>y. \<not> P y) xs = xs" if "\<not> P x"
      using 2 assms(2) [of x] that by (auto simp: filter_id_conv)
    then show ?case using Cons.IH(2) 2 by auto }
qed auto

lemma edge_better:
  fixes L :: price_ladder
  assumes "unat (lo L) + limit L \<le> 2 ^ 64"
  shows "beyond_best_edge bid L p \<Longrightarrow> in_window L q \<Longrightarrow> better bid p q"
    "\<not> beyond_best_edge bid L p \<Longrightarrow> \<not> in_window L p \<Longrightarrow> in_window L q \<Longrightarrow> better bid q p"
    "beyond_best_edge bid L p \<Longrightarrow> better bid r p \<Longrightarrow> beyond_best_edge bid L r"
    "beyond_best_edge bid L p \<Longrightarrow> \<not> in_window L p"
    "beyond_best_edge bid L p \<Longrightarrow> \<not> beyond_best_edge bid L q \<Longrightarrow> better bid p q"
  by (auto simp: beyond_best_edge_def in_window_def better_def word_le_nat_alt word_less_nat_alt
      unat_sub split: if_splits)

lemma window_levels_map:
  assumes inv: "ladder_inv bid L" and ne: "occ L \<noteq> {}"
  shows "ranked bid (window_levels bid L)"
    "set (window_levels bid L) = (\<lambda>i. (lo L + of_nat i, window L ! i)) ` occ L"
proof -
  note d = ladder_invD [OF inv]
  define ks where "ks = (if bid then rev [0..<best_idx L + 1] else [best_idx L..<limit L])"
  define js where "js = filter (\<lambda>i. \<not> level_empty (window L ! i)) ks"
  have w: "window_levels bid L = map (\<lambda>i. (lo L + of_nat i, window L ! i)) js"
    by (simp add: window_levels_def js_def ks_def)
  have b: "best_idx L < limit L" using d(4,6) ne by auto
  have occ: "set js = occ L"
    using b d(1,4,7) by (fastforce simp: js_def ks_def occ_def split: if_splits)
  then show "set (window_levels bid L) = (\<lambda>i. (lo L + of_nat i, window L ! i)) ` occ L" by (simp add: w)
  have "sorted_wrt (\<lambda>i j. if bid then j < i else i < j) ks"
    by (auto simp: ks_def sorted_wrt_rev simp del: upt_Suc)
  then have "sorted_wrt (\<lambda>i j. if bid then j < i else i < j) js"
    by (simp add: js_def sorted_wrt_filter)
  then have "sorted_wrt (\<lambda>i j. better bid (lo L + of_nat i) (lo L + of_nat j)) js"
    by (rule sorted_wrt_mono_rel [rotated]) (use occ d(4) better_window [OF d(2)] in auto)
  then show "ranked bid (window_levels bid L)" by (simp add: w sorted_wrt_map)
qed

lemma for_each_level_ranked:
  assumes inv: "ladder_inv bid L"
  shows "ranked bid (for_each_level bid L)"
    "(p, l) \<in> set (for_each_level bid L) \<longleftrightarrow> ladder_find L p = Some l"
proof -
  note d = ladder_invD [OF inv]
  note e = edge_better [OF d(2), where bid = bid]
  define W where "W = (if occupied L > 0 then window_levels bid L else [])"
  define P where "P = (\<lambda>x :: price \<times> price_level. beyond_best_edge bid L (fst x))"
  have W: "set W = (\<lambda>i. (lo L + of_nat i, window L ! i)) ` occ L" "ranked bid W"
    using window_levels_map [OF inv] occupied_pos_iff [OF inv] by (auto simp: W_def)
  have win: "in_window L (fst x)" if "x \<in> set W" for x
    using that W(1) d(4) window_price(3) [OF d(2)] by auto
  have out: "\<not> in_window L (fst x)" if "x \<in> set (overflow L)" for x
    using that d(9) [of "fst x" "snd x"] set_of_ranked [OF d(8), of "fst x" "snd x"] by simp
  have up: "P a" if "better bid (fst a) (fst b)" "P b" for a b using that e(3) by (auto simp: P_def)
  have "takeWhile P (overflow L) = filter P (overflow L)"
    "dropWhile P (overflow L) = filter (\<lambda>x. \<not> P x) (overflow L)"
    using sorted_takeWhile_filter [OF d(8), of P] up by blast+
  then have fe: "for_each_level bid L = filter P (overflow L) @ W @ filter (\<lambda>x. \<not> P x) (overflow L)"
    unfolding for_each_level_def W_def P_def case_prod_beta by simp
  have "better bid (fst x) (fst y)" if "x \<in> set (filter P (overflow L))" "y \<in> set W" for x y
    using that win [OF that(2)] e(1) by (simp add: P_def)
  moreover have "better bid (fst y) (fst x)" if "x \<in> set (filter (\<lambda>x. \<not> P x) (overflow L))" "y \<in> set W" for x y
    using that win [OF that(2)] out [of x] e(2) by (simp add: P_def)
  moreover have "better bid (fst x) (fst y)"
    if "x \<in> set (filter P (overflow L))" "y \<in> set (filter (\<lambda>x. \<not> P x) (overflow L))" for x y
    using that e(5) by (simp add: P_def)
  ultimately show "ranked bid (for_each_level bid L)"
    using W(2) d(8) unfolding fe sorted_wrt_append by (auto simp: sorted_wrt_filter)
  have "(p, l) \<in> set (for_each_level bid L) \<longleftrightarrow> (p, l) \<in> set W \<or> map_of (overflow L) p = Some l"
    using set_of_ranked [OF d(8), of p l] by (auto simp: fe)
  also have "\<dots> \<longleftrightarrow> ladder_find L p = Some l"
  proof
    assume "(p, l) \<in> set W \<or> map_of (overflow L) p = Some l"
    then show "ladder_find L p = Some l"
    proof
      assume "(p, l) \<in> set W"
      then show ?thesis using W(1) find_window_index [OF inv] d(4) by auto
    next
      assume "map_of (overflow L) p = Some l"
      then show ?thesis using d(9) [of p l] by (simp add: ladder_find_def)
    qed
  next
    assume f: "ladder_find L p = Some l"
    show "(p, l) \<in> set W \<or> map_of (overflow L) p = Some l"
      by (cases rule: find_cases [OF inv f]) (auto simp: W(1))
  qed
  finally show "(p, l) \<in> set (for_each_level bid L) \<longleftrightarrow> ladder_find L p = Some l" .
qed

subsection \<open>Construction, placement, and the debug check\<close>

lemma ladder_new_inv: "ladder_inv bid (ladder_new n)"
proof -
  have "occ (ladder_new n) = {}"
    by (auto simp: occ_def ladder_new_def level_empty_def empty_level_def)
  then show ?thesis by (auto simp: ladder_inv_def ladder_new_def)
qed

lemma ladder_new_find: "ladder_find (ladder_new n) p = None"
  by (simp add: ladder_find_def in_window_def ladder_new_def)

lemma place_limit:
  "unat base + limit (ladder_place base L) \<le> 2 ^ 64" "limit (ladder_place base L) \<le> length (window L)"
proof -
  have "unat ((-1 :: price) - base) = 2 ^ 64 - 1 - unat base"
    by (simp add: unat_sub word_order.extremum unsigned_minus_1_eq_mask mask_eq_exp_minus_1)
  moreover have "unat base < 2 ^ 64" by (rule unat_lt64)
  ultimately show "unat base + limit (ladder_place base L) \<le> 2 ^ 64"
    "limit (ladder_place base L) \<le> length (window L)"
    by (auto simp: ladder_place_def Let_def)
qed

lemma ladder_place_spec:
  assumes inv: "ladder_inv bid L" and empty: "\<And>p. ladder_find L p = None"
  shows "ladder_inv bid (ladder_place base L)" "ladder_find (ladder_place base L) p = None"
    "is_placed (ladder_place base L)"
proof -
  note d = ladder_invD [OF inv]
  have o: "occ L = {}" "overflow L = []"
    using ladder_best_None [OF inv] empty best_window(1) [OF inv] occupied_pos_iff [OF inv]
    by (auto simp: ladder_best_def Let_def split: list.splits option.splits if_splits)
  have same: "occ (ladder_place base L) = occ L" "overflow (ladder_place base L) = overflow L"
      "lo (ladder_place base L) = base" "window (ladder_place base L) = window L"
      "occupied (ladder_place base L) = occupied L" "best_idx (ladder_place base L) = best_idx L"
    by (simp_all add: ladder_place_def occ_def Let_def)
  show p: "is_placed (ladder_place base L)" by (simp add: ladder_place_def Let_def)
  show inv': "ladder_inv bid (ladder_place base L)"
    using d(3,5) place_limit [of base L] p by (simp add: ladder_inv_def same o)
  have "ladder_best bid (ladder_place base L) = None"
    using d(5) by (simp add: ladder_best_def same o)
  then show "ladder_find (ladder_place base L) p = None" using ladder_best_None [OF inv'] by simp
qed

lemma ladder_inv_check: "ladder_check bid L" if inv: "ladder_inv bid L"
proof -
  note d = ladder_invD [OF inv]
  have "length (filter (\<lambda>l. \<not> level_empty l) (window L)) = card (occ L)"
    by (simp add: length_filter_conv_card occ_def)
  moreover have "let l = window L ! i in if level_empty l then total_qty l = 0 \<and> lv_tail l = kNoSlot
      else i < limit L \<and> \<not> (if bid then i > best_idx L else i < best_idx L)" if "i < length (window L)" for i
    using d(3) [OF that] d(4,7) [of i] that by (auto simp: occ_def empty_level_def Let_def split: if_splits)
  moreover have "\<forall>(p, l)\<in>set (overflow L). \<not> in_window L p \<and> \<not> level_empty l"
    using inv by (simp add: ladder_inv_def)
  moreover have "\<not> level_empty (window L ! best_idx L)" if "occupied L > 0"
    using d(6) occupied_pos_iff [OF inv] that by (simp add: occ_def)
  ultimately show ?thesis using d(5) by (simp add: ladder_check_def list_all_iff)
qed

subsection \<open>The interface the order book relies on\<close>

locale level_store =
  fixes bid :: bool
    and inv :: "'l \<Rightarrow> bool" and ready :: "'l \<Rightarrow> bool"
    and put upd :: "price \<Rightarrow> price_level \<Rightarrow> 'l \<Rightarrow> 'l"
    and drop :: "price \<Rightarrow> 'l \<Rightarrow> (unit, 'l) run"
    and find :: "'l \<Rightarrow> price \<Rightarrow> price_level option"
    and best :: "'l \<Rightarrow> (price \<times> price_level) option"
    and levels :: "'l \<Rightarrow> (price \<times> price_level) list"
  assumes put_law: "inv L \<Longrightarrow> ready L \<Longrightarrow> \<not> level_empty l \<Longrightarrow>
      inv (put p l L) \<and> ready (put p l L) \<and> find (put p l L) = (find L)(p \<mapsto> l)"
    and upd_law: "inv L \<Longrightarrow> find L p \<noteq> None \<Longrightarrow> \<not> level_empty l \<Longrightarrow>
      inv (upd p l L) \<and> ready (upd p l L) = ready L \<and> find (upd p l L) = (find L)(p \<mapsto> l)"
    and drop_law: "inv L \<Longrightarrow> find L p \<noteq> None \<Longrightarrow>
      \<exists>L'. drop p L = ret () L' \<and> inv L' \<and> ready L' = ready L \<and> find L' = (find L)(p := None)"
    and occupied_law: "inv L \<Longrightarrow> find L p = Some l \<Longrightarrow> \<not> level_empty l"
    and best_None_law: "inv L \<Longrightarrow> best L = None \<longleftrightarrow> find L = Map.empty"
    and best_Some_law: "inv L \<Longrightarrow> best L = Some (p, l) \<Longrightarrow>
      find L p = Some l \<and> (\<forall>q. find L q \<noteq> None \<longrightarrow> \<not> better bid q p)"
    and levels_law: "inv L \<Longrightarrow>
      ranked bid (levels L) \<and> (\<forall>p l. (p, l) \<in> set (levels L) \<longleftrightarrow> find L p = Some l)"
begin

text \<open>The best level is the first one of the traversal.\<close>

lemma best_is_first: "inv L \<Longrightarrow> best L = (case levels L of [] \<Rightarrow> None | x # _ \<Rightarrow> Some x)"
proof (cases "levels L")
  case Nil
  assume i: "inv L"
  have "find L = Map.empty" using levels_law [OF i] Nil by (auto simp: fun_eq_iff intro: option_eqI)
  then show ?thesis using best_None_law [OF i] Nil by simp
next
  case (Cons x xs)
  assume i: "inv L"
  obtain p l where x: "x = (p, l)" by (cases x)
  have f: "find L p = Some l" using levels_law [OF i] Cons x by auto
  then obtain q k where b: "best L = Some (q, k)"
    using best_None_law [OF i] by (cases "best L") auto
  have fq: "find L q = Some k" "\<not> better bid p q" using best_Some_law [OF i b] f by auto
  then have "(q, k) \<in> set (x # xs)" using levels_law [OF i] Cons by metis
  moreover have "better bid p (fst y)" if "y \<in> set xs" for y
    using levels_law [OF i] Cons x that by auto
  ultimately show ?thesis using fq(2) b Cons x by auto
qed

text \<open>The traversal is determined by the contents: two ranked lists with the same members are equal.\<close>

lemma ranked_unique: "ranked bid xs \<Longrightarrow> ranked bid ys \<Longrightarrow> set xs = set ys \<Longrightarrow> xs = ys"
  for xs ys :: "(price \<times> 'a) list"
proof (induction xs arbitrary: ys)
  case (Cons x xs)
  obtain y zs where ys: "ys = y # zs" using Cons.prems(3) by (cases ys) auto
  have "x = y \<or> (better bid (fst y) (fst x) \<and> better bid (fst x) (fst y))"
    using Cons.prems unfolding ys by auto
  then have xy: "x = y" using better_asym by blast
  have "x \<notin> set xs" "y \<notin> set zs" using Cons.prems(1,2) unfolding ys by auto
  then have "set xs = set zs" using Cons.prems(3) xy unfolding ys by auto
  then show ?case using Cons xy unfolding ys by auto
qed simp

lemma levels_determined:
  assumes "inv L" "inv L'" and "find L = find L'"
  shows "levels L = levels L'"
  by (rule ranked_unique) (use levels_law [OF assms(1)] levels_law [OF assms(2)] assms(3) in auto)

text \<open>Opening a fresh level and closing it again gives back the same traversal.\<close>

lemma put_drop:
  assumes i: "inv L" "ready L" and fresh: "find L p = None" and l: "\<not> level_empty l"
  obtains L' where "drop p (put p l L) = ret () L'" "inv L'" "ready L'" "levels L' = levels L"
proof -
  note put = put_law [OF i l, of p]
  obtain L' where L': "drop p (put p l L) = ret () L'" "inv L'" "ready L'" "find L' = (find (put p l L))(p := None)"
    using drop_law [of "put p l L" p] put by auto
  have "find L' = find L" using L'(4) put fresh by (auto simp: fun_upd_idem)
  then show thesis using that L'(1-3) levels_determined [OF L'(2) i(1)] by blast
qed

end

interpretation ladder: level_store bid "ladder_inv bid" is_placed "ladder_put bid" set_level
    "ladder_drop bid" ladder_find "ladder_best bid" "for_each_level bid"
  for bid
proof (unfold_locales, goal_cases)
  case (1 L l p)
  then show ?case using ladder_put_spec by auto
next
  case (2 L p l)
  then show ?case using set_level_existing by auto
next
  case (3 L p)
  then show ?case using ladder_drop_spec by fastforce
next
  case (4 L p l)
  then show ?case by (rule find_nonempty)
next
  case (5 L)
  then show ?case using ladder_best_None by auto
next
  case (6 L p l)
  then show ?case using ladder_best_Some by blast
next
  case (7 L)
  then show ?case using for_each_level_ranked by blast
qed

subsection \<open>Properties\<close>

text \<open>
  (C26) Opening the level of a price, inside the window or outside it, and giving it a queue is a map
  update: the level is found at its price afterwards, every other price is unaffected, and the
  invariant of the ladder (occupancy count, best index, sorted fallback map) is kept.
\<close>

theorem ladder_open_fills:
  assumes "ladder_inv bid L" and "is_placed L" and "\<not> level_empty l"
  shows "ladder_inv bid (set_level p l (ladder_open bid p L)) \<and>
    ladder_find (set_level p l (ladder_open bid p L)) = (ladder_find L)(p \<mapsto> l)"
  using ladder.put_law [OF assms, of p] by (simp add: ladder_put_def)

text \<open>A small ladder for the witnesses: a window of four prices from 10, one level inside it, one outside.\<close>

definition sample_level :: "slot_index \<Rightarrow> price_level" where
  "sample_level s = \<lparr>total_qty = 5, lv_head = s, lv_tail = s\<rparr>"

definition sample_ladder :: price_ladder where
  "sample_ladder = ladder_put True 20 (sample_level 1) (ladder_put True 11 (sample_level 0) (ladder_place 10 (ladder_new 4)))"

lemma sample_ladder_ok:
  "ladder_inv True sample_ladder" "is_placed sample_ladder"
  "ladder_find sample_ladder = [11 \<mapsto> sample_level 0, 20 \<mapsto> sample_level 1]"
proof -
  have n: "\<not> level_empty (sample_level 0)" "\<not> level_empty (sample_level 1)"
    by (simp_all add: level_empty_def sample_level_def kNoSlot_def)
  let ?L = "ladder_place 10 (ladder_new 4)"
  have e: "ladder_find ?L = Map.empty"
    using ladder_place_spec(2) [OF ladder_new_inv ladder_new_find] by blast
  have p: "ladder_inv True ?L" "is_placed ?L"
    using ladder_place_spec(1,3) [OF ladder_new_inv ladder_new_find] by blast+
  note a = ladder.put_law [OF p n(1), of 11]
  note b = ladder.put_law [OF _ _ n(2), of True "ladder_put True 11 (sample_level 0) ?L" 20]
  show "ladder_inv True sample_ladder" "is_placed sample_ladder"
    "ladder_find sample_ladder = [11 \<mapsto> sample_level 0, 20 \<mapsto> sample_level 1]"
    using a b e by (auto simp: sample_ladder_def)
qed

theorem ladder_open_fills_witness:
  "ladder_find (set_level 12 (sample_level 2) (ladder_open True 12 sample_ladder)) 12 = Some (sample_level 2)"
  using ladder_open_fills [OF sample_ladder_ok(1,2), of "sample_level 2" 12]
  by (simp add: level_empty_def sample_level_def kNoSlot_def)

text \<open>
  (C27) Closing a level that has become empty always returns: the unchecked scan of \<^verbatim>\<open>next_occupied\<close>
  never leaves the array, exactly that price disappears from the ladder, and the new best level is
  again the best of the remaining ones.
\<close>

theorem ladder_close_returns:
  assumes inv: "ladder_inv bid L" and f: "ladder_find L p = Some l"
  shows "\<exists>L'. ladder_closed bid p (set_level p empty_level L) = ret () L' \<and> ladder_inv bid L' \<and>
    ladder_find L' = (ladder_find L)(p := None) \<and>
    (\<forall>q. ladder_find L' q \<noteq> None \<longrightarrow> (\<exists>b. best_price bid L' = Some b \<and> \<not> better bid q b))"
proof -
  obtain L' where L': "ladder_closed bid p (set_level p empty_level L) = ret () L'" "ladder_inv bid L'"
      "ladder_find L' = (ladder_find L)(p := None)"
    using ladder.drop_law [OF inv, of p] f by (auto simp: ladder_drop_def)
  have "\<exists>b. best_price bid L' = Some b \<and> \<not> better bid q b" if "ladder_find L' q \<noteq> None" for q
    using ladder.best_None_law [OF L'(2)] ladder.best_Some_law [OF L'(2)] that
    by (cases "ladder_best bid L'") (auto simp: best_price_def)
  then show ?thesis using L' by blast
qed

theorem ladder_close_returns_witness:
  "\<exists>L'. ladder_closed True 20 (set_level 20 empty_level sample_ladder) = ret () L' \<and> ladder_find L' 20 = None"
  using ladder_close_returns [OF sample_ladder_ok(1), of 20 "sample_level 1"] sample_ladder_ok(3) by auto

text \<open>
  (C28) The traversal visits exactly the occupied levels, once each and best price first, although it
  is put together from two parts of the fallback map and a scan of the window; the tracked best
  level is its first element.
\<close>

theorem ladder_traversal:
  assumes inv: "ladder_inv bid L"
  shows "sorted_wrt (better bid) (map fst (for_each_level bid L)) \<and>
    map_of (for_each_level bid L) = ladder_find L \<and>
    ladder_best bid L = (case for_each_level bid L of [] \<Rightarrow> None | x # _ \<Rightarrow> Some x)"
proof -
  have r: "ranked bid (for_each_level bid L)" using ladder.levels_law [OF inv] by blast
  have "map_of (for_each_level bid L) = ladder_find L"
    using ladder.levels_law [OF inv] set_of_ranked [OF r] by (auto simp: fun_eq_iff intro: option_eqI)
  then show ?thesis using r ladder.best_is_first [OF inv] by (simp add: ranked_map_fst)
qed

theorem ladder_traversal_witness:
  "map_of (for_each_level True sample_ladder) 20 = Some (sample_level 1) \<and>
    map_of (for_each_level True sample_ladder) 12 = None"
proof -
  have "map_of (for_each_level True sample_ladder) = ladder_find sample_ladder"
    using ladder_traversal [OF sample_ladder_ok(1)] by blast
  then show ?thesis by (simp add: sample_ladder_ok(3))
qed

text \<open>
  (C29) The window that is centred on the first resting price contains that price and is never
  clipped: all of its \<open>n\<close> levels are usable, also at either end of the price range.
\<close>

theorem centred_window_contains:
  assumes "0 < n" and "n < 2 ^ 64"
  shows "in_window (ladder_place (centred_base p n) (ladder_new n)) p \<and>
    limit (ladder_place (centred_base p n) (ladder_new n)) = n \<and>
    unat (centred_base p n) + n \<le> 2 ^ 64"
proof -
  have n: "unat (of_nat (n - 1) :: price) = n - 1" "unat (of_nat (n div 2) :: price) = n div 2"
    using assms by (auto simp: unat_of_nat take_bit_nat_eq_self_iff simp del: of_nat_diff)
  have m1: "unat (-1 :: price) = 2 ^ 64 - 1" by (simp add: unsigned_minus_1_eq_mask mask_eq_exp_minus_1)
  have pl: "unat p < 2 ^ 64" by (rule unat_lt64)
  define hi where "hi = (-1 :: price) - of_nat (n - 1)"
  have hi: "unat hi = 2 ^ 64 - n" using assms n m1 unat_sub [of "of_nat (n - 1)" "-1 :: price"] by (simp add: hi_def word_order.extremum del: of_nat_diff)
  define b where "b = centred_base p n"
  have bw: "b = min (if p \<ge> of_nat (n div 2) then p - of_nat (n div 2) else 0) hi"
    unfolding b_def centred_base_def hi_def Let_def using assms(1) by simp
  have b: "unat b = min (unat p - n div 2) (2 ^ 64 - n)"
    using n(2) hi by (auto simp: bw min_def word_le_nat_alt unat_sub)
  have room: "unat ((-1 :: price) - b) = 2 ^ 64 - 1 - unat b" using m1 by (simp add: unat_sub word_order.extremum)
  have le: "b \<le> p" using b by (simp add: word_le_nat_alt)
  then have "unat (p - b) = unat p - unat b" by (rule unat_sub)
  moreover have "n div 2 < n" using assms(1) by simp
  ultimately have "unat (p - b) < n" using b assms pl by linarith
  moreover have "n - 1 \<le> unat ((-1 :: price) - b)" using b room assms by linarith
  ultimately show ?thesis
    using le b assms by (simp add: ladder_place_def ladder_new_def in_window_def Let_def b_def [symmetric])
qed

theorem centred_window_contains_witness:
  "in_window (ladder_place (centred_base (-1) 4) (ladder_new 4)) (-1) \<and>
    limit (ladder_place (centred_base (-1) 4) (ladder_new 4)) = 4 \<and> centred_base (-1) 4 = -4"
  using centred_window_contains [of 4 "-1"] by (simp add: centred_base_def)

text \<open>
  Every state that satisfies the ladder's invariant passes the assertions of the debug build's
  \<^verbatim>\<open>check()\<close>, and a freshly built or freshly placed ladder satisfies it.
\<close>

lemma ladder_check_sound:
  shows "ladder_inv bid (ladder_new n) \<and> ladder_inv bid (ladder_place base (ladder_new n)) \<and>
    (ladder_inv bid L \<longrightarrow> ladder_check bid L)"
  using ladder_new_inv ladder_place_spec(1) [OF ladder_new_inv ladder_new_find] ladder_inv_check by blast

lemma ladder_check_sound_witness: "ladder_check True sample_ladder"
  using ladder_check_sound [of True 4 10 sample_ladder] sample_ladder_ok(1) by simp

text \<open>
  The counter behind \<^verbatim>\<open>levels_opened_outside_window()\<close> counts calls, not levels: opening the same
  outside price a second time, with orders resting there, counts again.
\<close>

lemma outside_opens_counts_calls:
  assumes "\<not> in_window L p" and "ladder_find L p \<noteq> None" and "ladder_inv bid L"
  shows "outside_opens (ladder_open bid p L) = outside_opens L + 1 \<and>
    map fst (overflow (ladder_open bid p L)) = map fst (overflow L)"
proof -
  have "omap_try_emplace bid p xs = xs" if "ranked bid xs" "map_of xs p \<noteq> None" for xs
    using that
  proof (induction bid p xs rule: omap_try_emplace.induct)
    case (2 bid p q l xs)
    have "better bid q p" if "q \<noteq> p"
      using 2(2,3) that map_of_SomeD [of xs p] by fastforce
    then show ?case using 2 better_asym by auto
  qed simp
  moreover have "map_of (overflow L) p \<noteq> None" using assms(1,2) by (simp add: ladder_find_def)
  ultimately show ?thesis using assms(1) ladder_invD(8) [OF assms(3)] by (simp add: ladder_open_def)
qed

end
