(* ===== verification/Order_Queue.thy ===== *)
theory Order_Queue
  imports Price_Ladder
begin

section \<open>The queue of a price level (\<^verbatim>\<open>OrderBook::append\<close> and \<^verbatim>\<open>OrderBook::detach\<close>)\<close>

text \<open>
  The orders at one price form a doubly linked queue threaded through the slot pool: the level holds
  the two ends and the total quantity, every slot its two neighbours. The model of the two operations
  that maintain it, the predicate \<open>is_queue\<close> that ties a level to the list of slots it stands for, and
  the proof that appending is \<open>xs @ [x]\<close> and detaching, from any position, is removal from that list.
\<close>

subsection \<open>Model\<close>

record resting_order =
  res_id :: order_id
  res_price :: price
  res_qty :: quantity
  res_owner :: participant_id

type_synonym order_slots = "resting_order slot_pool"

definition zero_resting :: resting_order where
  "zero_resting = \<lparr>res_id = 0, res_price = 0, res_qty = 0, res_owner = 0\<rparr>"

definition append_slot :: "price_level \<Rightarrow> slot_index \<Rightarrow> order_slots \<Rightarrow> price_level \<times> order_slots" where
  "append_slot level slot P =
     (let P1 = upd_slot slot (\<lambda>s. s\<lparr>slot_prev := lv_tail level, slot_next := kNoSlot\<rparr>) P;
          (level1, P2) =
            (if lv_tail level \<noteq> kNoSlot
             then (level, upd_slot (lv_tail level) (\<lambda>s. s\<lparr>slot_next := slot\<rparr>) P1)
             else (level\<lparr>lv_head := slot\<rparr>, P1))
      in (level1\<lparr>lv_tail := slot,
            total_qty := total_qty level1 + ucast (res_qty (slot_value (slot_at P2 slot)))\<rparr>, P2))"

definition detach :: "price_level \<Rightarrow> slot_index \<Rightarrow> order_slots \<Rightarrow> price_level \<times> order_slots" where
  "detach level slot P =
     (let s = slot_at P slot;
          (level1, P1) =
            (if slot_prev s \<noteq> kNoSlot
             then (level, upd_slot (slot_prev s) (\<lambda>t. t\<lparr>slot_next := slot_next s\<rparr>) P)
             else (level\<lparr>lv_head := slot_next s\<rparr>, P));
          s1 = slot_at P1 slot;
          (level2, P2) =
            (if slot_next s1 \<noteq> kNoSlot
             then (level1, upd_slot (slot_next s1) (\<lambda>t. t\<lparr>slot_prev := slot_prev s1\<rparr>) P1)
             else (level1\<lparr>lv_tail := slot_prev s1\<rparr>, P1))
      in (level2\<lparr>total_qty := total_qty level2 - ucast (res_qty (slot_value (slot_at P2 slot)))\<rparr>,
          release slot P2))"

subsection \<open>Doubly linked segments\<close>

text \<open>The first and last slot of a segment, with what stands in for them when it is empty.\<close>

definition first_of :: "slot_index list \<Rightarrow> slot_index \<Rightarrow> slot_index" where
  "first_of xs n = (case xs of [] \<Rightarrow> n | x # _ \<Rightarrow> x)"

definition last_of :: "slot_index \<Rightarrow> slot_index list \<Rightarrow> slot_index" where
  "last_of p xs = (if xs = [] then p else last xs)"

lemma first_last_simps [simp]:
  "first_of [] n = n" "first_of (x # xs) n = x" "last_of p [] = p" "last_of p (x # xs) = last_of x xs"
  "first_of (xs @ [y]) n = first_of xs y" "last_of p (xs @ [y]) = y"
  "first_of (xs @ ys) n = first_of xs (first_of ys n)" "last_of p (xs @ ys) = last_of (last_of p xs) ys"
  by (auto simp: first_of_def last_of_def split: list.splits)

lemma last_of_in: "xs \<noteq> [] \<Longrightarrow> last_of p xs \<in> set xs"
  by (simp add: last_of_def)

fun seg :: "order_slots \<Rightarrow> slot_index \<Rightarrow> slot_index list \<Rightarrow> slot_index \<Rightarrow> bool" where
  "seg P p [] n \<longleftrightarrow> True"
| "seg P p (x # xs) n \<longleftrightarrow>
     slot_prev (slot_at P x) = p \<and> slot_next (slot_at P x) = first_of xs n \<and> seg P x xs n"

lemma seg_append: "seg P p (xs @ ys) n \<longleftrightarrow> seg P p xs (first_of ys n) \<and> seg P (last_of p xs) ys n"
  by (induction xs arbitrary: p) auto

lemma seg_cong:
  "(\<And>x. x \<in> set xs \<Longrightarrow> slot_prev (slot_at P' x) = slot_prev (slot_at P x) \<and>
      slot_next (slot_at P' x) = slot_next (slot_at P x)) \<Longrightarrow> seg P' p xs n = seg P p xs n"
  by (induction xs arbitrary: p) auto

lemma seg_retarget_next:
  assumes "seg P p (xs @ [y]) n" and "y \<notin> set xs"
    and "slot_prev (slot_at P' y) = slot_prev (slot_at P y)" "slot_next (slot_at P' y) = m"
    and "\<And>x. x \<in> set xs \<Longrightarrow> slot_at P' x = slot_at P x"
  shows "seg P' p (xs @ [y]) m"
  using assms seg_cong [of xs P' P p y] by (auto simp: seg_append)

lemma seg_retarget_prev:
  assumes "seg P p (y # ys) n" and "y \<notin> set ys"
    and "slot_next (slot_at P' y) = slot_next (slot_at P y)" "slot_prev (slot_at P' y) = q"
    and "\<And>x. x \<in> set ys \<Longrightarrow> slot_at P' x = slot_at P x"
  shows "seg P' q (y # ys) n"
  using assms seg_cong [of ys P' P y n] by auto

lemma seg_chain:
  assumes "seg P p xs kNoSlot" and "kNoSlot \<notin> set xs"
  shows "chain kNoSlot (\<lambda>i. slot_next (slot_at P i)) (first_of xs kNoSlot) xs"
  using assms
proof (induction xs arbitrary: p)
  case (Cons x xs)
  then show ?case by (cases xs) auto
qed simp

subsection \<open>Levels and their queues\<close>

abbreviation value_at :: "order_slots \<Rightarrow> slot_index \<Rightarrow> resting_order" where
  "value_at P x \<equiv> slot_value (slot_at P x)"

definition queue_total :: "order_slots \<Rightarrow> slot_index list \<Rightarrow> volume" where
  "queue_total P xs = (\<Sum>x\<leftarrow>xs. ucast (res_qty (value_at P x)))"

definition is_queue :: "order_slots \<Rightarrow> price_level \<Rightarrow> slot_index list \<Rightarrow> bool" where
  "is_queue P l xs \<longleftrightarrow> distinct xs \<and> seg P kNoSlot xs kNoSlot \<and> lv_head l = first_of xs kNoSlot \<and>
     lv_tail l = last_of kNoSlot xs \<and> total_qty l = queue_total P xs"

lemma queue_total_simps [simp]:
  "queue_total P [] = 0" "queue_total P (x # xs) = ucast (res_qty (value_at P x)) + queue_total P xs"
  "queue_total P (xs @ ys) = queue_total P xs + queue_total P ys"
  by (simp_all add: queue_total_def)

lemma queue_total_cong: "(\<And>x. x \<in> set xs \<Longrightarrow> value_at P' x = value_at P x) \<Longrightarrow> queue_total P' xs = queue_total P xs"
  by (induction xs) auto

lemma is_queue_cong:
  "is_queue P l xs \<Longrightarrow> (\<And>x. x \<in> set xs \<Longrightarrow> slot_at P' x = slot_at P x) \<Longrightarrow> is_queue P' l xs"
  using seg_cong [of xs P' P] queue_total_cong [of xs P' P] by (simp add: is_queue_def)

lemma is_queue_empty_iff: "is_queue P l xs \<Longrightarrow> kNoSlot \<notin> set xs \<Longrightarrow> level_empty l \<longleftrightarrow> xs = []"
  by (cases xs) (auto simp: is_queue_def level_empty_def)

lemma is_queue_Nil: "is_queue P l [] \<longleftrightarrow> l = empty_level"
  by (auto simp: is_queue_def empty_level_def)

text \<open>Slots whose update the pool's invariant permits: those in use.\<close>

lemma upd_live_inv:
  assumes inv: "pool_inv P" and x: "x \<in> live_slots P"
  shows "pool_inv (upd_slot x f P)" "live_slots (upd_slot x f P) = live_slots P"
    "slot_at (upd_slot x f P) y = (if y = x then f (slot_at P x) else slot_at P y)"
proof -
  note i = live_slot_bounds [OF inv x] and d = pool_invD [OF inv]
  show at: "slot_at (upd_slot x f P) y = (if y = x then f (slot_at P x) else slot_at P y)" for y
    using slot_at_upd [OF i(2)] by simp
  have "free_chain (upd_slot x f P) (free_list P)"
    using d(1) i(4) by (auto simp: free_chain_def at intro: chain_cong)
  then have "pool_inv (upd_slot x f P) \<and> free_list (upd_slot x f P) = free_list P"
    using d by (intro pool_invI) auto
  then show "pool_inv (upd_slot x f P)" "live_slots (upd_slot x f P) = live_slots P"
    by (auto simp: live_slots_def)
qed

text \<open>
  Appending an acquired slot that is not yet in the queue. Values are kept, and the links of slots
  outside the queue too.
\<close>

lemma append_slot_spec:
  assumes inv: "pool_inv P" and q: "is_queue P l xs" and x: "x \<in> live_slots P" "x \<notin> set xs"
    and live: "set xs \<subseteq> live_slots P"
  obtains l' P' where "append_slot l x P = (l', P')" "is_queue P' l' (xs @ [x])" "pool_inv P'"
    "live_slots P' = live_slots P" "pool_used P' = pool_used P"
    "\<And>y. value_at P' y = value_at P y"
    "\<And>y. y \<notin> set (xs @ [x]) \<Longrightarrow> slot_at P' y = slot_at P y"
proof -
  define P1 where "P1 = upd_slot x (\<lambda>s. s\<lparr>slot_prev := lv_tail l, slot_next := kNoSlot\<rparr>) P"
  note u1 = upd_live_inv [OF inv x(1), of "\<lambda>s. s\<lparr>slot_prev := lv_tail l, slot_next := kNoSlot\<rparr>", folded P1_def]
  have tail: "lv_tail l = last_of kNoSlot xs" and hd: "lv_head l = first_of xs kNoSlot"
    and seg: "seg P kNoSlot xs kNoSlot" and dist: "distinct xs" and tot: "total_qty l = queue_total P xs"
    using q by (auto simp: is_queue_def)
  show thesis
  proof (cases xs rule: rev_cases)
    case Nil
    let ?l = "l\<lparr>lv_head := x, lv_tail := x, total_qty := total_qty l + ucast (res_qty (value_at P x))\<rparr>"
    have "append_slot l x P = (?l, P1)"
      unfolding append_slot_def Let_def P1_def [symmetric] using tail Nil u1(3) by simp
    moreover have "is_queue P1 ?l [x]" using u1(3) tot Nil tail by (simp add: is_queue_def)
    ultimately show thesis using that [of ?l P1] u1 Nil by (simp add: P1_def)
  next
    case (snoc ys y)
    have y: "y \<in> live_slots P1" "y \<noteq> x" "y \<noteq> kNoSlot" "lv_tail l = y"
      using live x(2) snoc u1(2) live_slot_bounds(3) [OF inv, of y] tail by auto
    define P2 where "P2 = upd_slot y (\<lambda>s. s\<lparr>slot_next := x\<rparr>) P1"
    note u2 = upd_live_inv [OF u1(1) y(1), of "\<lambda>s. s\<lparr>slot_next := x\<rparr>", folded P2_def]
    let ?l = "l\<lparr>lv_tail := x, total_qty := total_qty l + ucast (res_qty (value_at P x))\<rparr>"
    have app: "append_slot l x P = (?l, P2)"
      unfolding append_slot_def Let_def P1_def [symmetric]
      unfolding y(4) P2_def [symmetric] using y u1(3) u2(3) by simp
    have at: "z \<noteq> x \<Longrightarrow> z \<noteq> y \<Longrightarrow> slot_at P2 z = slot_at P z" for z using u1(3) u2(3) by simp
    have val: "value_at P2 z = value_at P z" for z using u1(3) u2(3) by simp
    have "seg P2 kNoSlot (ys @ [y]) x"
      by (rule seg_retarget_next [of P _ _ _ kNoSlot]) (use seg dist snoc u1(3) u2(3) x(2) y(2) in auto)
    moreover have "slot_prev (slot_at P2 x) = y" "slot_next (slot_at P2 x) = kNoSlot"
      using u1(3) u2(3) y by simp_all
    ultimately have "seg P2 kNoSlot (xs @ [x]) kNoSlot" by (simp add: snoc seg_append)
    moreover have "queue_total P2 (xs @ [x]) = total_qty ?l"
      using tot queue_total_cong [of xs P2 P] val by (simp add: add.commute)
    ultimately have "is_queue P2 ?l (xs @ [x])" using dist x(2) y(2) hd snoc by (simp add: is_queue_def)
    then show thesis using that [of ?l P2] app u1 u2 at val snoc by (auto simp: P1_def P2_def)
  qed
qed

text \<open>
  Detaching a slot from any position of the queue. The slot is released; the values and links of every
  slot outside the queue are kept.
\<close>

lemma detach_links:
  assumes inv: "pool_inv P" and q: "is_queue P l (xs @ x # ys)"
    and live: "set (xs @ x # ys) \<subseteq> live_slots P"
  obtains l' P2 where "detach l x P = (l', release x P2)" "pool_inv P2"
    "live_slots P2 = live_slots P" "pool_used P2 = pool_used P" "\<And>y. value_at P2 y = value_at P y"
    "\<And>y. y \<notin> set (xs @ ys) \<Longrightarrow> slot_at P2 y = slot_at P y"
    "seg P2 kNoSlot (xs @ ys) kNoSlot" "lv_head l' = first_of (xs @ ys) kNoSlot"
    "lv_tail l' = last_of kNoSlot (xs @ ys)" "total_qty l' = total_qty l - ucast (res_qty (value_at P x))"
proof -
  have ne: "y \<noteq> kNoSlot" if "y \<in> set (xs @ x # ys)" for y using live_slot_bounds(3) [OF inv] live that by blast
  have dist: "distinct (xs @ x # ys)" and sg: "seg P kNoSlot xs x" "seg P x ys kNoSlot"
    and pn: "slot_prev (slot_at P x) = last_of kNoSlot xs" "slot_next (slot_at P x) = first_of ys kNoSlot"
    and hd: "lv_head l = first_of (xs @ [x]) kNoSlot" and tl: "lv_tail l = last_of x ys"
    using q by (auto simp: is_queue_def seg_append)
  define n p where "n = first_of ys kNoSlot" and "p = last_of kNoSlot xs"
  have p0: "p = kNoSlot \<longleftrightarrow> xs = []" using ne last_of_in [of xs kNoSlot] by (auto simp: p_def)
  have n0: "n = kNoSlot \<longleftrightarrow> ys = []" using ne by (cases ys) (auto simp: n_def)
  have px: "xs \<noteq> [] \<Longrightarrow> p \<in> set xs" "xs \<noteq> [] \<Longrightarrow> p \<in> live_slots P" "xs \<noteq> [] \<Longrightarrow> p \<noteq> x"
    using last_of_in [of xs kNoSlot] live dist by (auto simp: p_def)
  have nx: "ys \<noteq> [] \<Longrightarrow> n \<in> set ys" "ys \<noteq> [] \<Longrightarrow> n \<in> live_slots P" "ys \<noteq> [] \<Longrightarrow> n \<noteq> x"
    using live dist by (cases ys; auto simp: n_def)+
  define P1 where "P1 = (if xs = [] then P else upd_slot p (\<lambda>t. t\<lparr>slot_next := n\<rparr>) P)"
  have u1: "pool_inv P1" "live_slots P1 = live_slots P" "pool_used P1 = pool_used P"
    "slot_at P1 y = (if xs \<noteq> [] \<and> y = p then (slot_at P p)\<lparr>slot_next := n\<rparr> else slot_at P y)" for y
    using inv upd_live_inv [OF inv px(2)] by (auto simp: P1_def)
  define P2 where "P2 = (if ys = [] then P1 else upd_slot n (\<lambda>t. t\<lparr>slot_prev := p\<rparr>) P1)"
  have u2: "pool_inv P2" "live_slots P2 = live_slots P" "pool_used P2 = pool_used P"
    "slot_at P2 y = (if ys \<noteq> [] \<and> y = n then (slot_at P1 n)\<lparr>slot_prev := p\<rparr> else slot_at P1 y)" for y
    using u1 nx(2) upd_live_inv [OF u1(1)] by (auto simp: P2_def)
  define l' where "l' = (if ys = [] then (if xs = [] then l\<lparr>lv_head := n\<rparr> else l)\<lparr>lv_tail := p\<rparr>
      else (if xs = [] then l\<lparr>lv_head := n\<rparr> else l))
      \<lparr>total_qty := total_qty l - ucast (res_qty (value_at P x))\<rparr>"
  have "slot_at P1 x = slot_at P x" "slot_at P2 x = slot_at P x" using u1(4) u2(4) px(3) nx(3) by auto
  then have det: "detach l x P = (l', release x P2)"
    unfolding detach_def Let_def pn n_def [symmetric] p_def [symmetric]
    using p0 n0 by (auto simp: pn n_def [symmetric] p_def [symmetric] P1_def P2_def l'_def)
  have disj: "p \<notin> set ys" if "xs \<noteq> []" using px(1) that dist by auto
  have disj': "n \<notin> set xs" if "ys \<noteq> []" using nx(1) that dist by auto
  have "seg P2 kNoSlot xs n"
  proof (cases xs rule: rev_cases)
    case (snoc zs z)
    then have z: "z = p" by (simp add: p_def)
    show ?thesis unfolding snoc
      by (rule seg_retarget_next [of P _ _ _ x])
        (use sg(1) dist disj' u1(4) u2(4) snoc z in \<open>auto split: if_splits\<close>)
  qed simp
  moreover have "seg P2 p ys kNoSlot"
  proof (cases ys)
    case (Cons z zs)
    then have z: "z = n" by (simp add: n_def)
    show ?thesis unfolding Cons
      by (rule seg_retarget_prev [of P x])
        (use sg(2) dist disj u1(4) u2(4) Cons z in \<open>auto split: if_splits\<close>)
  qed simp
  ultimately have "seg P2 kNoSlot (xs @ ys) kNoSlot" by (simp add: seg_append n_def p_def)
  moreover have "slot_at P2 y = slot_at P y" if "y \<notin> set (xs @ ys)" for y
    using that u1(4) u2(4) px(1) nx(1) by auto
  moreover have "value_at P2 y = value_at P y" for y using u1(4) u2(4) by auto
  moreover have "lv_head l' = first_of (xs @ ys) kNoSlot" "lv_tail l' = last_of kNoSlot (xs @ ys)"
    using hd tl by (cases xs; cases ys; auto simp: l'_def n_def p_def)+
  moreover have "total_qty l' = total_qty l - ucast (res_qty (value_at P x))" by (simp add: l'_def)
  ultimately show thesis using that [OF det] u2(1-3) by blast
qed

lemma detach_spec:
  assumes inv: "pool_inv P" and q: "is_queue P l (xs @ x # ys)"
    and live: "set (xs @ x # ys) \<subseteq> live_slots P"
  obtains l' P' where "detach l x P = (l', P')" "is_queue P' l' (xs @ ys)" "pool_inv P'"
    "live_slots P' = live_slots P - {x}" "pool_used P' = pool_used P"
    "\<And>y. y \<noteq> x \<Longrightarrow> value_at P' y = value_at P y"
    "\<And>y. y \<notin> set (xs @ x # ys) \<Longrightarrow> slot_at P' y = slot_at P y"
proof -
  obtain l' P2 where d: "detach l x P = (l', release x P2)" "pool_inv P2"
    "live_slots P2 = live_slots P" "pool_used P2 = pool_used P" and val: "\<And>y. value_at P2 y = value_at P y"
    and at: "\<And>y. y \<notin> set (xs @ ys) \<Longrightarrow> slot_at P2 y = slot_at P y"
    and sg: "seg P2 kNoSlot (xs @ ys) kNoSlot" and ends: "lv_head l' = first_of (xs @ ys) kNoSlot"
    "lv_tail l' = last_of kNoSlot (xs @ ys)" "total_qty l' = total_qty l - ucast (res_qty (value_at P x))"
    using detach_links [OF inv q live] by blast
  have "x \<in> live_slots P2" using live d(3) by simp
  note r = release_inv [OF d(2) this]
  have dist: "distinct (xs @ x # ys)" and tot: "total_qty l = queue_total P (xs @ x # ys)"
    using q by (auto simp: is_queue_def)
  have nx: "y \<noteq> x" if "y \<in> set (xs @ ys)" for y using that dist by auto
  have "seg (release x P2) kNoSlot (xs @ ys) kNoSlot"
    using sg seg_cong [of "xs @ ys" "release x P2" P2] r(3) nx by auto
  moreover have "queue_total (release x P2) (xs @ ys) = queue_total P (xs @ ys)"
    by (rule queue_total_cong) (use r(3) nx val in auto)
  then have "total_qty l' = queue_total (release x P2) (xs @ ys)" using ends(3) tot by simp
  ultimately have "is_queue (release x P2) l' (xs @ ys)" using dist ends by (simp add: is_queue_def)
  moreover have "pool_used (release x P2) = pool_used P" using d(4) by (simp add: release_def)
  ultimately show thesis
    using that [OF d(1)] r d(3) val at by (metis Un_iff insert_iff list.set(2) set_append)
qed

text \<open>
  (C23) The intrusive FIFO queue of a price level. Appending a fresh live slot puts it at the tail; detaching any slot of the
  queue then, first, last, middle or only one, leaves the others linked in both directions in the same order, with head,
  tail and total quantity of the level right, frees exactly that slot, and touches no other order.
\<close>

theorem queue_append_detach:
  assumes inv: "pool_inv P" and q: "is_queue P l xs" and x: "x \<in> live_slots P" "x \<notin> set xs" and live: "set xs \<subseteq> live_slots P"
    and y: "y \<in> set (xs @ [x])"
  shows "\<exists>l1 P1 l2 P2. append_slot l x P = (l1, P1) \<and> is_queue P1 l1 (xs @ [x]) \<and> live_slots P1 = live_slots P \<and>
    detach l1 y P1 = (l2, P2) \<and> is_queue P2 l2 (remove1 y (xs @ [x])) \<and> pool_inv P2 \<and> live_slots P2 = live_slots P - {y} \<and>
    (\<forall>z. z \<noteq> y \<longrightarrow> slot_value (slot_at P2 z) = slot_value (slot_at P z))"
proof -
  obtain l1 P1 where a: "append_slot l x P = (l1, P1)" "is_queue P1 l1 (xs @ [x])" "pool_inv P1" "live_slots P1 = live_slots P"
      "\<And>z. value_at P1 z = value_at P z"
    using append_slot_spec [OF inv q x live] by metis
  obtain us vs where sp: "xs @ [x] = us @ y # vs" "y \<notin> set us" using split_list_first [OF y] by blast
  have "set (us @ y # vs) \<subseteq> live_slots P1" using live x(1) a(4) unfolding sp(1) [symmetric] by simp
  from detach_spec [OF a(3) a(2) [unfolded sp(1)] this]
  obtain l2 P2 where d: "detach l1 y P1 = (l2, P2)" "is_queue P2 l2 (us @ vs)" "pool_inv P2" "live_slots P2 = live_slots P1 - {y}"
      "\<And>z. z \<noteq> y \<Longrightarrow> value_at P2 z = value_at P1 z" by metis
  have "remove1 y (xs @ [x]) = us @ vs" unfolding sp(1) using sp(2) by (simp add: remove1_append)
  then show ?thesis using a d by (intro exI [of _ l1] exI [of _ P1] exI [of _ l2] exI [of _ P2]) simp
qed

definition sample_pool :: order_slots where
  "sample_pool = \<lparr>slots = replicate 4 (new_slot zero_resting), pool_used = 2, pool_live = 2, free_head = kNoSlot, pool_growths = 0\<rparr>"

lemma sample_pool_ok: "pool_inv sample_pool" "live_slots sample_pool = {0, 1}"
  "is_queue sample_pool \<lparr>total_qty = 0, lv_head = 0, lv_tail = 0\<rparr> [0]"
proof -
  have f: "free_list sample_pool = []" by (simp add: free_list_def sample_pool_def numeral_2_eq_2)
  show "pool_inv sample_pool" unfolding pool_inv_def f by (simp add: sample_pool_def free_chain_def)
  have "unat i < 2 \<longleftrightarrow> i = 0 \<or> i = 1" for i :: slot_index
    by (metis One_nat_def less_2_cases_iff unat_0 unat_1 word_unat_eq_iff)
  then show "live_slots sample_pool = {0, 1}" unfolding live_slots_def f by (auto simp: sample_pool_def)
  show "is_queue sample_pool \<lparr>total_qty = 0, lv_head = 0, lv_tail = 0\<rparr> [0]"
    by (simp add: is_queue_def sample_pool_def slot_at_def new_slot_def zero_resting_def first_of_def last_of_def)
qed

theorem queue_append_detach_witness:
  "\<exists>l1 P1 l2 P2. append_slot \<lparr>total_qty = 0, lv_head = 0, lv_tail = 0\<rparr> 1 sample_pool = (l1, P1) \<and> is_queue P1 l1 [0, 1] \<and>
     detach l1 0 P1 = (l2, P2) \<and> is_queue P2 l2 [1] \<and> live_slots P2 = {1}"
  using queue_append_detach [OF sample_pool_ok(1,3), of 1 0] sample_pool_ok(2) by fastforce

end
