(* ===== verification/Id_Index.thy ===== *)
theory Id_Index
  imports Lob_Prelude
begin

section \<open>The id index (\<^verbatim>\<open>lob::IdIndex\<close>)\<close>

text \<open>
  An open-addressed hash table from 64-bit order ids to values, with linear probing,
  backward-shift deletion and doubling at half full. The probing loops have no bound in the
  source, so they are partial functions whose \<open>None\<close> is non-termination; under the
  representation invariant they are shown to return. \<^verbatim>\<open>Entry{}\<close> is the zero entry, hence the
  type class \<open>zero\<close> on the value type. The interface \<open>id_store\<close> is what the order book relies
  on: the table behaves as a finite map.
\<close>

subsection \<open>Model\<close>

record 'v entry =
  ent_id :: "64 word"
  ent_value :: 'v
  ent_used :: bool

record 'v id_index =
  table :: "'v entry list"
  ix_mask :: nat
  ix_bits :: nat
  ix_count :: nat
  ix_growths :: "64 word"

definition zero_entry :: "'v::zero entry" where
  "zero_entry = \<lparr>ent_id = 0, ent_value = 0, ent_used = False\<rparr>"

text \<open>\<^verbatim>\<open>std::countr_zero\<close> of a 64-bit value.\<close>

fun countr_zero :: "nat \<Rightarrow> nat" where
  "countr_zero n = (if n = 0 then 64 else if odd n then 0 else Suc (countr_zero (n div 2)))"

declare countr_zero.simps [simp del]

definition home :: "'v id_index \<Rightarrow> 64 word \<Rightarrow> nat" where
  "home ix k = unat (k XOR drop_bit (ix_bits ix) k) AND ix_mask ix"

definition resize_table :: "nat \<Rightarrow> 'v::zero id_index \<Rightarrow> 'v id_index" where
  "resize_table cap ix = ix\<lparr>table := replicate cap zero_entry, ix_mask := cap - 1,
     ix_bits := countr_zero cap\<rparr>"

text \<open>\<^verbatim>\<open>while (cap / 2 < expected) cap *= 2;\<close> on 64-bit words.\<close>

partial_function (option) cap_loop :: "64 word \<Rightarrow> 64 word \<Rightarrow> 64 word option" where
  "cap_loop expected cap =
     (if cap div 2 < expected then cap_loop expected (cap * 2) else Some cap)"

text \<open>
  \<^verbatim>\<open>table.assign(cap, Entry{})\<close> throws \<^verbatim>\<open>length_error\<close> for more entries than a vector may have; an \<^verbatim>\<open>Entry\<close> of the book has
  16 bytes.
\<close>

definition kEntryBytes :: nat where
  "kEntryBytes = 16"

definition ix_new :: "64 word \<Rightarrow> (fault + 'v::zero id_index) option" where
  "ix_new expected =
     map_option (\<lambda>cap. if unat cap > vector_max kEntryBytes then Inl Length_error
         else Inr (resize_table (unat cap)
           \<lparr>table = [], ix_mask = 0, ix_bits = 0, ix_count = 0, ix_growths = 0\<rparr>))
       (cap_loop expected 16)"

text \<open>
  The probe loop that \<^verbatim>\<open>find\<close> and \<^verbatim>\<open>take\<close> share: \<open>Some (Some i)\<close> when the id is at \<open>i\<close>,
  \<open>Some None\<close> when an unused entry ends the run.
\<close>

partial_function (option) probe :: "'v id_index \<Rightarrow> 64 word \<Rightarrow> nat \<Rightarrow> nat option option" where
  "probe ix k i =
     (if \<not> ent_used (table ix ! i) then Some None
      else if ent_id (table ix ! i) = k then Some (Some i)
      else probe ix k ((i + 1) AND ix_mask ix))"

definition ix_find :: "'v id_index \<Rightarrow> 64 word \<Rightarrow> 'v option option" where
  "ix_find ix k =
     map_option (map_option (\<lambda>i. ent_value (table ix ! i))) (probe ix k (home ix k))"

definition ix_contains :: "'v id_index \<Rightarrow> 64 word \<Rightarrow> bool option" where
  "ix_contains ix k = map_option (\<lambda>r. r \<noteq> None) (ix_find ix k)"

partial_function (option) free_slot :: "'v id_index \<Rightarrow> nat \<Rightarrow> nat option" where
  "free_slot ix i =
     (if ent_used (table ix ! i) then free_slot ix ((i + 1) AND ix_mask ix) else Some i)"

definition place :: "'v id_index \<Rightarrow> 64 word \<Rightarrow> 'v \<Rightarrow> 'v id_index option" where
  "place ix k v =
     map_option (\<lambda>i. ix\<lparr>table := (table ix)[i := \<lparr>ent_id = k, ent_value = v, ent_used = True\<rparr>]\<rparr>)
       (free_slot ix (home ix k))"

fun place_all :: "'v entry list \<Rightarrow> 'v id_index \<Rightarrow> 'v id_index option" where
  "place_all [] ix = Some ix"
| "place_all (e # es) ix =
     (if ent_used e then Option.bind (place ix (ent_id e) (ent_value e)) (place_all es)
      else place_all es ix)"

text \<open>
  \<^verbatim>\<open>grow()\<close> swaps the table out before it asks for the larger one: where the vector refuses that one, the index is left with
  no table.
\<close>

definition ix_grow :: "'v::zero id_index \<Rightarrow> (unit, 'v id_index) run" where
  "ix_grow ix =
     (if length (table ix) > 2 ^ 62 then throw Length_error ix
      else if length (table ix) * 2 > vector_max kEntryBytes then throw Length_error (ix\<lparr>table := []\<rparr>)
      else Option.bind (place_all (table ix) (resize_table (length (table ix) * 2) ix))
        (\<lambda>ix'. ret () (ix'\<lparr>ix_growths := ix_growths ix' + 1\<rparr>)))"

definition ix_insert :: "'v::zero id_index \<Rightarrow> 64 word \<Rightarrow> 'v \<Rightarrow> (unit, 'v id_index) run" where
  "ix_insert ix k v =
     bind_run (if (ix_count ix + 1) * 2 > length (table ix) then ix_grow ix else ret () ix)
       (\<lambda>_ ix1. Option.bind (place ix1 k v) (\<lambda>ix2. ret () (ix2\<lparr>ix_count := ix_count ix2 + 1\<rparr>)))
       (\<lambda>ix1. ix1)"

text \<open>Backward-shift deletion: \<open>hole\<close> is the entry being emptied and \<open>j\<close> the entry examined.\<close>

partial_function (option) close_gap :: "'v id_index \<Rightarrow> nat \<Rightarrow> nat \<Rightarrow> 'v id_index option" where
  "close_gap ix hole j =
     (if ent_used (table ix ! j) then
        (let h = home ix (ent_id (table ix ! j));
             stays = (if hole \<le> j then hole < h \<and> h \<le> j else hole < h \<or> h \<le> j)
         in if \<not> stays
            then close_gap (ix\<lparr>table := (table ix)[hole := table ix ! j]\<rparr>) j ((j + 1) AND ix_mask ix)
            else close_gap ix hole ((j + 1) AND ix_mask ix))
      else Some (ix\<lparr>table := (table ix)[hole := (table ix ! hole)\<lparr>ent_used := False\<rparr>]\<rparr>))"

definition ix_take :: "'v id_index \<Rightarrow> 64 word \<Rightarrow> ('v option \<times> 'v id_index) option" where
  "ix_take ix k =
     Option.bind (probe ix k (home ix k))
       (\<lambda>r. case r of
          None \<Rightarrow> Some (None, ix)
        | Some i \<Rightarrow>
            map_option (\<lambda>ix'. (Some (ent_value (table ix ! i)), ix'\<lparr>ix_count := ix_count ix' - 1\<rparr>))
              (close_gap ix i ((i + 1) AND ix_mask ix)))"

definition ix_erase :: "'v id_index \<Rightarrow> 64 word \<Rightarrow> (bool \<times> 'v id_index) option" where
  "ix_erase ix k = map_option (\<lambda>(r, ix'). (r \<noteq> None, ix')) (ix_take ix k)"

definition ix_size :: "'v id_index \<Rightarrow> nat" where
  "ix_size ix = ix_count ix"

text \<open>The two nested loops of \<^verbatim>\<open>consistent()\<close>.\<close>

partial_function (option) path_used :: "'v id_index \<Rightarrow> nat \<Rightarrow> nat \<Rightarrow> bool option" where
  "path_used ix i p =
     (if i = p then Some True
      else if \<not> ent_used (table ix ! i) then Some False
      else path_used ix ((i + 1) AND ix_mask ix) p)"

fun ix_consistent_from :: "'v id_index \<Rightarrow> nat list \<Rightarrow> nat \<Rightarrow> bool option" where
  "ix_consistent_from ix [] seen = Some (seen = ix_count ix)"
| "ix_consistent_from ix (p # ps) seen =
     (if \<not> ent_used (table ix ! p) then ix_consistent_from ix ps seen
      else Option.bind (path_used ix (home ix (ent_id (table ix ! p))) p)
        (\<lambda>ok. if ok then ix_consistent_from ix ps (seen + 1) else Some False))"

definition ix_consistent :: "'v id_index \<Rightarrow> bool option" where
  "ix_consistent ix = ix_consistent_from ix [0..<length (table ix)] 0"

subsection \<open>Cyclic distance\<close>

text \<open>
  Steps of the probe from \<open>a\<close> to \<open>b\<close> in a table of \<open>n\<close> entries, and the entry after \<open>i\<close>. Entry \<open>c\<close>
  lies on the probe path from \<open>a\<close> to \<open>b\<close>, \<open>b\<close> excluded, when \<open>cdist n a c < cdist n a b\<close>.
\<close>

definition cdist :: "nat \<Rightarrow> nat \<Rightarrow> nat \<Rightarrow> nat" where
  [cyc_simps]: "cdist n a b = (if a \<le> b then b - a else b + n - a)"

definition cnext :: "nat \<Rightarrow> nat \<Rightarrow> nat" where
  [cyc_simps]: "cnext n i = (if i + 1 = n then 0 else i + 1)"

lemma cdist_less: "a < n \<Longrightarrow> b < n \<Longrightarrow> cdist n a b < n"
  by (auto simp: cyc_simps)

lemma cdist_self [simp]: "cdist n a a = 0"
  by (simp add: cyc_simps)

lemma cdist_inject: "a < n \<Longrightarrow> b < n \<Longrightarrow> c < n \<Longrightarrow> cdist n a b = cdist n a c \<longleftrightarrow> b = c"
  by (auto simp: cyc_simps)

lemma cnext_less: "i < n \<Longrightarrow> cnext n i < n"
  by (auto simp: cyc_simps)

lemma cdist_cnext: "a < n \<Longrightarrow> i < n \<Longrightarrow> cnext n i \<noteq> a \<Longrightarrow> cdist n a (cnext n i) = Suc (cdist n a i)"
  by (auto simp: cyc_simps)

lemma cdist_before_start: "a < n \<Longrightarrow> i < n \<Longrightarrow> cnext n i = a \<Longrightarrow> cdist n a i = n - 1"
  by (auto simp: cyc_simps split: if_splits)

lemma cdist_step_left: "i < n \<Longrightarrow> e < n \<Longrightarrow> i \<noteq> e \<Longrightarrow> cdist n (cnext n i) e < cdist n i e"
  by (auto simp: cyc_simps split: if_splits)

text \<open>The test of the source that decides whether an entry may stay behind the hole.\<close>

lemma stays_iff:
  assumes "hole < n" "j < n" "h < n" "hole \<noteq> j"
  shows "(if hole \<le> j then hole < h \<and> h \<le> j else hole < h \<or> h \<le> j) \<longleftrightarrow> \<not> cdist n h hole < cdist n h j"
  using assms by (auto simp: cyc_simps)

subsection \<open>Representation invariant and abstraction\<close>

definition ix_shape :: "'v id_index \<Rightarrow> bool" where
  "ix_shape ix \<longleftrightarrow>
     (\<exists>k\<le>63. 1 \<le> k \<and> length (table ix) = 2 ^ k \<and> ix_bits ix = k \<and> ix_mask ix = 2 ^ k - 1)"

definition used_at :: "'v id_index \<Rightarrow> nat \<Rightarrow> bool" where
  "used_at ix p \<longleftrightarrow> p < length (table ix) \<and> ent_used (table ix ! p)"

definition id_at :: "'v id_index \<Rightarrow> nat \<Rightarrow> 64 word" where
  "id_at ix p = ent_id (table ix ! p)"

abbreviation ix_len :: "'v id_index \<Rightarrow> nat" where
  "ix_len ix \<equiv> length (table ix)"

text \<open>Entry \<open>c\<close> lies on the probe path of id \<open>k\<close> strictly before \<open>p\<close>.\<close>

definition on_path :: "'v id_index \<Rightarrow> 64 word \<Rightarrow> nat \<Rightarrow> nat \<Rightarrow> bool" where
  "on_path ix k c p \<longleftrightarrow>
     c < ix_len ix \<and> cdist (ix_len ix) (home ix k) c < cdist (ix_len ix) (home ix k) p"

definition tab_inv :: "'v id_index \<Rightarrow> bool" where
  "tab_inv ix \<longleftrightarrow> ix_shape ix \<and>
     (\<forall>p c. used_at ix p \<longrightarrow> on_path ix (id_at ix p) c p \<longrightarrow> used_at ix c) \<and>
     (\<forall>p q. used_at ix p \<longrightarrow> used_at ix q \<longrightarrow> id_at ix p = id_at ix q \<longrightarrow> p = q)"

definition ix_inv :: "'v id_index \<Rightarrow> bool" where
  "ix_inv ix \<longleftrightarrow> tab_inv ix \<and> ix_count ix = card {p. used_at ix p} \<and> 2 * ix_count ix \<le> ix_len ix"

definition entries_map :: "'v entry list \<Rightarrow> 64 word \<rightharpoonup> 'v" where
  "entries_map es = map_of (map (\<lambda>e. (ent_id e, ent_value e)) (filter ent_used es))"

definition ix_map :: "'v id_index \<Rightarrow> 64 word \<rightharpoonup> 'v" where
  "ix_map ix = entries_map (table ix)"

lemma ix_map_Some_used:
  assumes "ix_map ix k = Some v"
  shows "\<exists>p. used_at ix p \<and> id_at ix p = k \<and> ent_value (table ix ! p) = v"
proof -
  obtain e where "e \<in> set (table ix)" "ent_used e" "ent_id e = k" "ent_value e = v"
    using map_of_SomeD [OF assms [unfolded ix_map_def entries_map_def]] by auto
  then show ?thesis by (auto simp: in_set_conv_nth used_at_def id_at_def)
qed

lemma ix_map_used:
  assumes "tab_inv ix" and "used_at ix p"
  shows "ix_map ix (id_at ix p) = Some (ent_value (table ix ! p))"
proof -
  have "(id_at ix p, ent_value (table ix ! p))
      \<in> set (map (\<lambda>e. (ent_id e, ent_value e)) (filter ent_used (table ix)))"
    using assms(2) by (auto simp: used_at_def id_at_def)
  then have "ix_map ix (id_at ix p) \<noteq> None"
    unfolding ix_map_def entries_map_def by (auto simp: map_of_eq_None_iff image_iff simp del: not_None_eq)
  then obtain v where v: "ix_map ix (id_at ix p) = Some v" by blast
  obtain q where "used_at ix q" "id_at ix q = id_at ix p" "ent_value (table ix ! q) = v"
    using ix_map_Some_used [OF v] by auto
  then show ?thesis using assms v by (auto simp: tab_inv_def)
qed

lemma ix_map_iff:
  assumes "tab_inv ix"
  shows "ix_map ix k = Some v \<longleftrightarrow> (\<exists>p. used_at ix p \<and> id_at ix p = k \<and> ent_value (table ix ! p) = v)"
  using ix_map_Some_used [of ix k v] ix_map_used [OF assms] by auto

lemma ix_map_None_iff:
  assumes "tab_inv ix"
  shows "ix_map ix k = None \<longleftrightarrow> (\<forall>p. used_at ix p \<longrightarrow> id_at ix p \<noteq> k)"
proof (cases "ix_map ix k")
  case None
  then show ?thesis using ix_map_used [OF assms] by auto
next
  case (Some v)
  then show ?thesis using ix_map_Some_used [OF Some] by auto
qed

lemma dom_ix_map:
  assumes "tab_inv ix"
  shows "dom (ix_map ix) = id_at ix ` {p. used_at ix p}"
proof (intro equalityI subsetI)
  fix k
  assume "k \<in> dom (ix_map ix)"
  then show "k \<in> id_at ix ` {p. used_at ix p}" using ix_map_Some_used by fastforce
next
  fix k
  assume "k \<in> id_at ix ` {p. used_at ix p}"
  then show "k \<in> dom (ix_map ix)" using ix_map_used [OF assms] by auto
qed

lemma finite_used [simp]: "finite {p. used_at ix p}"
  by (rule finite_subset [of _ "{..<ix_len ix}"]) (auto simp: used_at_def)

lemma card_dom_ix_map:
  assumes "tab_inv ix"
  shows "card (dom (ix_map ix)) = card {p. used_at ix p}"
proof -
  have "inj_on (id_at ix) {p. used_at ix p}"
    using assms by (auto simp: inj_on_def tab_inv_def)
  then show ?thesis by (simp add: dom_ix_map [OF assms] card_image)
qed

lemma ix_size_card: "ix_inv ix \<Longrightarrow> ix_size ix = card (dom (ix_map ix))"
  by (simp add: ix_size_def ix_inv_def card_dom_ix_map)

subsection \<open>Probing\<close>

lemma nat_and_mask: "(i::nat) AND (2 ^ k - Suc 0) = i mod 2 ^ k"
  by (simp flip: take_bit_eq_mod add: take_bit_eq_mask mask_eq_exp_minus_1)

lemma step_mask:
  assumes "ix_shape ix" and "i < ix_len ix"
  shows "(i + 1) AND ix_mask ix = cnext (ix_len ix) i"
proof -
  obtain k where "ix_len ix = 2 ^ k" "ix_mask ix = 2 ^ k - 1" using assms(1) by (auto simp: ix_shape_def)
  then show ?thesis using assms(2) by (auto simp: nat_and_mask cnext_def)
qed

lemma home_less: "ix_shape ix \<Longrightarrow> home ix k < ix_len ix"
  by (auto simp: ix_shape_def home_def nat_and_mask)

lemma ix_len_ge_2: "ix_shape ix \<Longrightarrow> 2 \<le> ix_len ix"
proof -
  assume "ix_shape ix"
  then obtain k where "1 \<le> k" "ix_len ix = 2 ^ k" by (auto simp: ix_shape_def)
  then show ?thesis using power_increasing [of 1 k "2::nat"] by simp
qed

text \<open>
  Induction along the probe path of an id: it suffices to advance from a used entry, all
  entries before it being used, and the path ends at the latest at an unused entry.
\<close>

lemma probe_induct [consumes 4, case_names step]:
  assumes "ix_shape ix" and "i < ix_len ix" and "e < ix_len ix" and "\<not> used_at ix e"
    and step: "\<And>i. i < ix_len ix \<Longrightarrow>
       (used_at ix i \<Longrightarrow> \<forall>c. on_path ix k c i \<longrightarrow> used_at ix c \<Longrightarrow>
         P (cnext (ix_len ix) i) \<and>
         (\<forall>c. on_path ix k c (cnext (ix_len ix) i) \<longleftrightarrow> on_path ix k c i \<or> c = i)) \<Longrightarrow> P i"
  shows "P i"
  using assms(2)
proof (induction "ix_len ix - cdist (ix_len ix) (home ix k) i" arbitrary: i rule: less_induct)
  case less
  let ?n = "ix_len ix" and ?h = "home ix k"
  have h: "?h < ?n" using assms(1) by (rule home_less)
  show ?case
  proof (rule step [OF less.prems])
    assume used: "used_at ix i" and before: "\<forall>c. on_path ix k c i \<longrightarrow> used_at ix c"
    have "cnext ?n i \<noteq> ?h"
    proof
      assume "cnext ?n i = ?h"
      then have d: "cdist ?n ?h i = ?n - 1" using h less.prems by (intro cdist_before_start)
      have "cdist ?n ?h e \<noteq> cdist ?n ?h i"
        using assms(3,4) used h less.prems by (auto simp: cdist_inject)
      then have "on_path ix k e i"
        using d cdist_less [OF h assms(3)] assms(3) by (auto simp: on_path_def)
      then show False using before assms(4) by blast
    qed
    then have d: "cdist ?n ?h (cnext ?n i) = Suc (cdist ?n ?h i)"
      using h less.prems by (intro cdist_cnext)
    have "P (cnext ?n i)"
      using d cdist_less [OF h less.prems] cnext_less [OF less.prems] by (intro less.hyps) auto
    moreover have "on_path ix k c (cnext ?n i) \<longleftrightarrow> on_path ix k c i \<or> c = i" for c
      using d cdist_inject [OF h _ less.prems, of c] less.prems by (auto simp: on_path_def less_Suc_eq)
    ultimately show "P (cnext ?n i) \<and> (\<forall>c. on_path ix k c (cnext ?n i) \<longleftrightarrow> on_path ix k c i \<or> c = i)"
      by blast
  qed
qed

lemma not_on_path_home: "\<not> on_path ix k c (home ix k)"
  by (simp add: on_path_def)

text \<open>The probe returns, and finds the id exactly when some used entry holds it.\<close>

lemma probe_from:
  assumes inv: "tab_inv ix" and e: "e < ix_len ix" "\<not> used_at ix e" and i: "i < ix_len ix"
    and visited: "\<forall>c. on_path ix k c i \<longrightarrow> used_at ix c \<and> id_at ix c \<noteq> k"
  shows "\<exists>r. probe ix k i = Some r \<and>
     (case r of None \<Rightarrow> \<forall>p. used_at ix p \<longrightarrow> id_at ix p \<noteq> k | Some p \<Rightarrow> used_at ix p \<and> id_at ix p = k)"
proof -
  have shape: "ix_shape ix" using inv by (simp add: tab_inv_def)
  note h = home_less [OF shape, of k]
  from shape i e visited show ?thesis
  proof (induction i rule: probe_induct [where k = k])
    case (step i)
    show ?case
    proof (cases "used_at ix i")
      case False
      have "id_at ix p \<noteq> k" if p: "used_at ix p" for p
      proof
        assume k: "id_at ix p = k"
        have "\<not> on_path ix k i p" using inv p False k by (auto simp: tab_inv_def)
        moreover have "p \<noteq> i" using p False by auto
        moreover have "p < ix_len ix" using p by (simp add: used_at_def)
        ultimately have "on_path ix k p i"
          using step.hyps cdist_inject [OF h, of p i] by (auto simp: on_path_def)
        then show False using step.prems k by blast
      qed
      then show ?thesis
        using False step.hyps by (intro exI [of _ None]) (simp add: probe.simps [of ix k i] used_at_def)
    next
      case True
      show ?thesis
      proof (cases "id_at ix i = k")
        case eq: True
        then show ?thesis
          using True by (intro exI [of _ "Some i"])
            (simp add: probe.simps [of ix k i] used_at_def id_at_def)
      next
        case False
        have "probe ix k i = probe ix k (cnext (ix_len ix) i)"
          using True False step_mask [OF shape step.hyps]
          by (simp add: probe.simps [of ix k i] used_at_def id_at_def)
        then show ?thesis using step True False by auto
      qed
    qed
  qed
qed

lemma probe_spec:
  assumes "tab_inv ix" and "e < ix_len ix" "\<not> used_at ix e"
  shows "\<exists>r. probe ix k (home ix k) = Some r \<and>
     (case r of None \<Rightarrow> \<forall>p. used_at ix p \<longrightarrow> id_at ix p \<noteq> k | Some p \<Rightarrow> used_at ix p \<and> id_at ix p = k)"
  using assms by (intro probe_from) (auto simp: not_on_path_home tab_inv_def home_less)

lemma ix_inv_has_hole:
  assumes "ix_inv ix"
  shows "\<exists>e. e < ix_len ix \<and> \<not> used_at ix e"
proof (rule ccontr)
  assume "\<not> ?thesis"
  then have "{p. used_at ix p} = {..<ix_len ix}" by (auto simp: used_at_def)
  then have "ix_count ix = ix_len ix" using assms by (simp add: ix_inv_def)
  then show False using assms ix_len_ge_2 [of ix] by (auto simp: ix_inv_def tab_inv_def)
qed

lemma ix_find_spec:
  assumes "ix_inv ix"
  shows "ix_find ix k = Some (ix_map ix k)"
proof -
  have inv: "tab_inv ix" using assms by (simp add: ix_inv_def)
  obtain e where "e < ix_len ix" "\<not> used_at ix e" using ix_inv_has_hole [OF assms] by blast
  then obtain r where r: "probe ix k (home ix k) = Some r"
      "case r of None \<Rightarrow> \<forall>p. used_at ix p \<longrightarrow> id_at ix p \<noteq> k | Some p \<Rightarrow> used_at ix p \<and> id_at ix p = k"
    using probe_spec [OF inv] by blast
  then show ?thesis
    using ix_map_None_iff [OF inv, of k] ix_map_used [OF inv]
    by (cases r) (auto simp: ix_find_def)
qed

text \<open>Placing an id: the first unused entry on its path.\<close>

lemma free_slot_from:
  assumes shape: "ix_shape ix" and i: "i < ix_len ix" and e: "e < ix_len ix" "\<not> used_at ix e"
    and before: "\<forall>c. on_path ix k c i \<longrightarrow> used_at ix c"
  shows "\<exists>j. free_slot ix i = Some j \<and> j < ix_len ix \<and> \<not> used_at ix j \<and>
    (\<forall>c. on_path ix k c j \<longrightarrow> used_at ix c)"
  using shape i e before
proof (induction i rule: probe_induct [where k = k])
  case (step i)
  show ?case
  proof (cases "used_at ix i")
    case True
    have "free_slot ix i = free_slot ix (cnext (ix_len ix) i)"
      using True step_mask [OF shape step.hyps] by (simp add: free_slot.simps [of ix i] used_at_def)
    then show ?thesis using step True by auto
  next
    case False
    then show ?thesis using step by (auto simp: free_slot.simps [of ix i] used_at_def)
  qed
qed

lemma free_slot_spec:
  assumes "ix_shape ix" and "e < ix_len ix" "\<not> used_at ix e"
  shows "\<exists>i. free_slot ix (home ix k) = Some i \<and> i < ix_len ix \<and> \<not> used_at ix i \<and>
    (\<forall>c. on_path ix k c i \<longrightarrow> used_at ix c)"
  using assms by (intro free_slot_from) (auto simp: not_on_path_home home_less)

text \<open>What a table looks like after one of its entries is overwritten.\<close>

lemma table_upd_simps [simp]:
  "home (ix\<lparr>table := t\<rparr>) = home ix" "ix_len (ix\<lparr>table := ts[i := x]\<rparr>) = length ts"
  by (auto simp: home_def fun_eq_iff)

lemma home_cong: "ix_bits ix = ix_bits iy \<Longrightarrow> ix_mask ix = ix_mask iy \<Longrightarrow> home ix = home iy"
  by (auto simp: home_def fun_eq_iff)

lemma on_path_upd [simp]: "on_path (ix\<lparr>table := (table ix)[i := x]\<rparr>) = on_path ix"
  by (auto simp: on_path_def fun_eq_iff)

lemma ix_shape_upd [simp]: "ix_shape (ix\<lparr>table := (table ix)[i := x]\<rparr>) = ix_shape ix"
  by (auto simp: ix_shape_def)

lemma at_upd:
  assumes "i < ix_len ix"
  shows "used_at (ix\<lparr>table := (table ix)[i := x]\<rparr>) p = (if p = i then ent_used x else used_at ix p)"
    and "id_at (ix\<lparr>table := (table ix)[i := x]\<rparr>) p = (if p = i then ent_id x else id_at ix p)"
  using assms by (auto simp: used_at_def id_at_def)

lemma place_spec:
  assumes inv: "tab_inv ix" and e: "e < ix_len ix" "\<not> used_at ix e" and new: "ix_map ix k = None"
  shows "\<exists>ix'. place ix k v = Some ix' \<and> tab_inv ix' \<and> ix_map ix' = (ix_map ix)(k \<mapsto> v) \<and>
     ix_len ix' = ix_len ix \<and> card {p. used_at ix' p} = card {p. used_at ix p} + 1 \<and>
     ix_count ix' = ix_count ix"
proof -
  have shape: "ix_shape ix" using inv by (simp add: tab_inv_def)
  obtain i where i: "free_slot ix (home ix k) = Some i" "i < ix_len ix" "\<not> used_at ix i"
      "\<forall>c. on_path ix k c i \<longrightarrow> used_at ix c"
    using free_slot_spec [OF shape e] by blast
  define x where "x = \<lparr>ent_id = k, ent_value = v, ent_used = True\<rparr>"
  define ix' where "ix' = ix\<lparr>table := (table ix)[i := x]\<rparr>"
  have at: "used_at ix' p = (p = i \<or> used_at ix p)" "id_at ix' p = (if p = i then k else id_at ix p)" for p
    using at_upd [OF i(2), of x] by (auto simp: ix'_def x_def)
  have fresh: "used_at ix p \<Longrightarrow> id_at ix p \<noteq> k" for p using new ix_map_None_iff [OF inv] by blast
  have val: "ent_value (table ix' ! p) = (if p = i then v else ent_value (table ix ! p))" for p
    using i(2) by (simp add: ix'_def x_def)
  have path: "on_path ix' = on_path ix" "ix_shape ix' = ix_shape ix" by (simp_all add: ix'_def)
  have "used_at ix' c" if "used_at ix' p" "on_path ix' (id_at ix' p) c p" for p c
    using that inv i(4) by (cases "p = i") (auto simp: at path tab_inv_def)
  moreover have "p = q" if "used_at ix' p" "used_at ix' q" "id_at ix' p = id_at ix' q" for p q
    using that inv fresh [of p] fresh [of q] by (auto simp: at tab_inv_def split: if_splits)
  ultimately have inv': "tab_inv ix'" using shape path by (auto simp: tab_inv_def)
  have "ix_map ix' q = ((ix_map ix)(k \<mapsto> v)) q" for q
  proof (cases "q = k")
    case True
    then show ?thesis using ix_map_used [OF inv', of i] by (simp add: at val)
  next
    case False
    have "ix_map ix' q = Some w \<longleftrightarrow> ix_map ix q = Some w" for w
      using False i(3) unfolding ix_map_iff [OF inv'] ix_map_iff [OF inv] at val by auto
    then show ?thesis using False by (cases "ix_map ix q") auto
  qed
  moreover have "{p. used_at ix' p} = insert i {p. used_at ix p}" by (auto simp: at)
  ultimately show ?thesis
    using i inv' by (intro exI [of _ ix']) (auto simp: place_def ix'_def x_def)
qed

subsection \<open>Growth and insertion\<close>

lemma hole_if_card_less:
  assumes "card {p. used_at ix p} < ix_len ix"
  shows "\<exists>e. e < ix_len ix \<and> \<not> used_at ix e"
proof (rule ccontr)
  assume "\<not> ?thesis"
  then have "{p. used_at ix p} = {..<ix_len ix}" by (auto simp: used_at_def)
  then show False using assms by simp
qed

lemma distinct_map_filterI:
  assumes "\<And>p q. p < length xs \<Longrightarrow> q < length xs \<Longrightarrow> P (xs ! p) \<Longrightarrow> P (xs ! q) \<Longrightarrow>
    f (xs ! p) = f (xs ! q) \<Longrightarrow> p = q"
  shows "distinct (map f (filter P xs))"
  using assms
proof (induction xs)
  case Nil
  then show ?case by simp
next
  case (Cons x xs)
  have "p = q" if "p < length xs" "q < length xs" "P (xs ! p)" "P (xs ! q)" "f (xs ! p) = f (xs ! q)" for p q
    using Cons.prems [of "Suc p" "Suc q"] that by simp
  then have "distinct (map f (filter P xs))" by (rule Cons.IH)
  moreover have "f x \<noteq> f y" if y: "P x" "y \<in> set xs" "P y" for y
  proof -
    obtain q where "q < length xs" "xs ! q = y" using y(2) by (auto simp: in_set_conv_nth)
    then show ?thesis using Cons.prems [of 0 "Suc q"] y by auto
  qed
  ultimately show ?case by auto
qed

lemma table_ids_distinct:
  assumes "tab_inv ix"
  shows "distinct (map ent_id (filter ent_used (table ix)))"
proof (rule distinct_map_filterI)
  fix p q
  assume "p < ix_len ix" "q < ix_len ix" "ent_used (table ix ! p)" "ent_used (table ix ! q)"
    "ent_id (table ix ! p) = ent_id (table ix ! q)"
  then have "used_at ix p" "used_at ix q" "id_at ix p = id_at ix q" by (auto simp: used_at_def id_at_def)
  then show "p = q" using assms unfolding tab_inv_def by blast
qed

lemma length_filter_used: "length (filter ent_used (table ix)) = card {p. used_at ix p}"
  by (simp add: length_filter_conv_card used_at_def)

lemma entries_map_Nil: "entries_map [] = Map.empty"
  by (simp add: entries_map_def)

lemma entries_map_Cons:
  "entries_map (e # es) = (if ent_used e then (entries_map es)(ent_id e \<mapsto> ent_value e) else entries_map es)"
  by (simp add: entries_map_def)

lemma place_all_spec:
  assumes "tab_inv ix" and "distinct (map ent_id (filter ent_used es))"
    and "\<forall>e\<in>set es. ent_used e \<longrightarrow> ix_map ix (ent_id e) = None"
    and "card {p. used_at ix p} + length (filter ent_used es) < ix_len ix"
  shows "\<exists>ix'. place_all es ix = Some ix' \<and> tab_inv ix' \<and>
    ix_map ix' = ix_map ix ++ entries_map es \<and>
    ix_len ix' = ix_len ix \<and> ix_count ix' = ix_count ix \<and>
    card {p. used_at ix' p} = card {p. used_at ix p} + length (filter ent_used es)"
  using assms
proof (induction es arbitrary: ix)
  case Nil
  then show ?case by (simp add: entries_map_Nil)
next
  case (Cons e es)
  show ?case
  proof (cases "ent_used e")
    case True
    obtain c where "c < ix_len ix" "\<not> used_at ix c"
      using hole_if_card_less [of ix] Cons.prems(4) by auto
    then obtain ix1 where ix1: "place ix (ent_id e) (ent_value e) = Some ix1" "tab_inv ix1"
        "ix_map ix1 = (ix_map ix)(ent_id e \<mapsto> ent_value e)" "ix_len ix1 = ix_len ix"
        "card {p. used_at ix1 p} = card {p. used_at ix p} + 1" "ix_count ix1 = ix_count ix"
      using place_spec [OF Cons.prems(1)] Cons.prems(3) True by auto metis
    have fresh: "ent_id e \<notin> set (map ent_id (filter ent_used es))" using Cons.prems(2) True by simp
    have "\<exists>ix'. place_all es ix1 = Some ix' \<and> tab_inv ix' \<and>
        ix_map ix' = ix_map ix1 ++ entries_map es \<and>
        ix_len ix' = ix_len ix1 \<and> ix_count ix' = ix_count ix1 \<and>
        card {p. used_at ix' p} = card {p. used_at ix1 p} + length (filter ent_used es)"
      using Cons.prems True fresh ix1 by (intro Cons.IH) (auto simp: image_iff)
    moreover have "ix_map ix1 ++ entries_map es =
        ix_map ix ++ entries_map (e # es)"
    proof -
      have "ent_id e \<notin> dom (entries_map es)"
        using fresh by (auto simp: dom_map_of_conv_image_fst entries_map_def)
      then show ?thesis
        using True by (simp add: ix1(3) map_add_upd_left entries_map_Cons)
    qed
    ultimately show ?thesis using True ix1 by auto
  next
    case False
    then show ?thesis using Cons by (auto simp: entries_map_Cons)
  qed
qed

lemma countr_zero_power: "countr_zero (2 ^ k) = k"
  by (induction k) (simp_all add: countr_zero.simps [of "2 * _"] countr_zero.simps [of "Suc 0"])

lemma resize_table_inv:
  assumes "1 \<le> k" "k \<le> 63"
  shows "tab_inv (resize_table (2 ^ k) ix)" "ix_map (resize_table (2 ^ k) ix) = Map.empty"
    "{p. used_at (resize_table (2 ^ k) ix) p} = {}"
proof -
  have "\<not> used_at (resize_table (2 ^ k) ix) p" for p
    by (auto simp: used_at_def resize_table_def zero_entry_def)
  then show "tab_inv (resize_table (2 ^ k) ix)" "{p. used_at (resize_table (2 ^ k) ix) p} = {}"
    using assms by (auto simp: tab_inv_def ix_shape_def resize_table_def countr_zero_power)
  show "ix_map (resize_table (2 ^ k) ix) = Map.empty"
    by (simp add: ix_map_def entries_map_def resize_table_def zero_entry_def)
qed

lemma ix_grow_spec:
  assumes inv: "ix_inv ix" and small: "ix_len ix \<le> 2 ^ 57"
  shows "\<exists>ix'. ix_grow ix = ret () ix' \<and> ix_inv ix' \<and> ix_map ix' = ix_map ix \<and>
    ix_len ix' = 2 * ix_len ix \<and> ix_count ix' = ix_count ix"
proof -
  have tab: "tab_inv ix" using inv by (simp add: ix_inv_def)
  obtain k where k: "1 \<le> k" "k \<le> 63" "ix_len ix = 2 ^ k"
    using tab by (auto simp: tab_inv_def ix_shape_def)
  have "k \<le> 57" using small k(3) by (metis power_le_imp_le_exp one_less_numeral_iff semiring_norm(76))
  then have "k \<le> 62" by simp
  have fits: "\<not> 2 ^ 62 < ix_len ix" "\<not> vector_max kEntryBytes < ix_len ix * 2"
    using small by (simp_all add: vector_max_def kEntryBytes_def)
  define iy where "iy = resize_table (2 ^ Suc k) ix"
  have iy: "tab_inv iy" "ix_map iy = Map.empty" "{p. used_at iy p} = {}" "ix_len iy = 2 * ix_len ix"
      "ix_count iy = ix_count ix"
    using resize_table_inv [of "Suc k" ix] \<open>k \<le> 62\<close> k(3) by (auto simp: iy_def resize_table_def)
  have "card {p. used_at ix p} < 2 * ix_len ix"
    using inv ix_len_ge_2 [of ix] by (auto simp: ix_inv_def tab_inv_def)
  then obtain ix' where ix': "place_all (table ix) iy = Some ix'" "tab_inv ix'"
      "ix_map ix' = ix_map iy ++ entries_map (table ix)"
      "ix_len ix' = ix_len iy" "ix_count ix' = ix_count iy"
      "card {p. used_at ix' p} = card {p. used_at iy p} + length (filter ent_used (table ix))"
    using place_all_spec [OF iy(1) table_ids_distinct [OF tab]] iy by (auto simp: length_filter_used)
  let ?g = "ix'\<lparr>ix_growths := ix_growths ix' + 1\<rparr>"
  have "used_at ?g = used_at ix'" "id_at ?g = id_at ix'" "on_path ?g = on_path ix'" "ix_shape ?g = ix_shape ix'"
    by (auto simp: fun_eq_iff used_at_def id_at_def on_path_def ix_shape_def home_def)
  then have "ix_inv ?g"
    using ix' iy inv by (auto simp: ix_inv_def tab_inv_def length_filter_used)
  moreover have "ix_map ?g = ix_map ix" using ix'(3) iy(2) by (simp add: ix_map_def)
  moreover have "ix_grow ix = ret () ?g"
    using fits ix'(1) k(3) by (simp add: ix_grow_def iy_def mult.commute)
  ultimately show ?thesis using ix' iy by auto
qed

lemma ix_count_upd [simp]:
  "used_at (ix\<lparr>ix_count := n\<rparr>) = used_at ix" "ix_map (ix\<lparr>ix_count := n\<rparr>) = ix_map ix"
  "tab_inv (ix\<lparr>ix_count := n\<rparr>) = tab_inv ix"
proof -
  have "used_at (ix\<lparr>ix_count := n\<rparr>) = used_at ix" "id_at (ix\<lparr>ix_count := n\<rparr>) = id_at ix"
    "on_path (ix\<lparr>ix_count := n\<rparr>) = on_path ix" "ix_shape (ix\<lparr>ix_count := n\<rparr>) = ix_shape ix"
    by (auto simp: fun_eq_iff used_at_def id_at_def on_path_def ix_shape_def home_def)
  then show "used_at (ix\<lparr>ix_count := n\<rparr>) = used_at ix" "tab_inv (ix\<lparr>ix_count := n\<rparr>) = tab_inv ix"
    by (simp_all add: tab_inv_def)
  show "ix_map (ix\<lparr>ix_count := n\<rparr>) = ix_map ix" by (simp add: ix_map_def)
qed

lemma ix_insert_spec:
  assumes inv: "ix_inv ix" and new: "ix_map ix k = None" and small: "ix_count ix < 2 ^ 56"
  shows "\<exists>ix'. ix_insert ix k v = ret () ix' \<and> ix_inv ix' \<and> ix_map ix' = (ix_map ix)(k \<mapsto> v) \<and>
    ix_count ix' = ix_count ix + 1"
proof -
  obtain ix1 where ix1: "(if (ix_count ix + 1) * 2 > ix_len ix then ix_grow ix else ret () ix) = ret () ix1"
      "ix_inv ix1" "ix_map ix1 = ix_map ix" "ix_count ix1 = ix_count ix" "2 * (ix_count ix + 1) \<le> ix_len ix1"
  proof (cases "(ix_count ix + 1) * 2 > ix_len ix")
    case True
    then have "ix_len ix \<le> 2 ^ 57" using small by simp
    then obtain ix' where "ix_grow ix = ret () ix'" "ix_inv ix'" "ix_map ix' = ix_map ix"
        "ix_len ix' = 2 * ix_len ix" "ix_count ix' = ix_count ix"
      using ix_grow_spec [OF inv] by blast
    moreover have "2 * (ix_count ix + 1) \<le> 2 * ix_len ix"
      using inv ix_len_ge_2 [of ix] by (auto simp: ix_inv_def tab_inv_def)
    ultimately show ?thesis using that True by simp
  next
    case False
    then show ?thesis using that [of ix] inv by simp
  qed
  have tab: "tab_inv ix1" using ix1(2) by (simp add: ix_inv_def)
  obtain e where "e < ix_len ix1" "\<not> used_at ix1 e" using ix_inv_has_hole [OF ix1(2)] by blast
  then obtain ix2 where ix2: "place ix1 k v = Some ix2" "tab_inv ix2" "ix_map ix2 = (ix_map ix1)(k \<mapsto> v)"
      "ix_len ix2 = ix_len ix1" "card {p. used_at ix2 p} = card {p. used_at ix1 p} + 1" "ix_count ix2 = ix_count ix1"
    using place_spec [OF tab] new ix1(3) by auto metis
  let ?r = "ix2\<lparr>ix_count := ix_count ix2 + 1\<rparr>"
  have "ix_insert ix k v = ret () ?r"
    using ix1(1) ix2(1) by (simp add: ix_insert_def)
  moreover have "ix_inv ?r" using ix2 ix1 by (simp add: ix_inv_def)
  ultimately show ?thesis using ix2 ix1 by auto
qed

subsection \<open>Backward-shift deletion\<close>

text \<open>
  The loop invariant: between the hole and the entry examined everything is used; the path of
  an entry other than the hole's crosses only used entries, and it crosses the hole only if the
  entry has not been examined yet.
\<close>

definition gap_inv :: "'v id_index \<Rightarrow> nat \<Rightarrow> nat \<Rightarrow> bool" where
  "gap_inv ix hole j \<longleftrightarrow> ix_shape ix \<and> used_at ix hole \<and> j < ix_len ix \<and> hole \<noteq> j \<and>
     (\<forall>c<ix_len ix. cdist (ix_len ix) hole c < cdist (ix_len ix) hole j \<longrightarrow> used_at ix c) \<and>
     (\<forall>p c. used_at ix p \<longrightarrow> p \<noteq> hole \<longrightarrow> on_path ix (id_at ix p) c p \<longrightarrow>
        used_at ix c \<and> (c = hole \<longrightarrow> cdist (ix_len ix) hole j \<le> cdist (ix_len ix) hole p)) \<and>
     (\<forall>p q. used_at ix p \<longrightarrow> used_at ix q \<longrightarrow> p \<noteq> hole \<longrightarrow> q \<noteq> hole \<longrightarrow>
        id_at ix p = id_at ix q \<longrightarrow> p = q)"

lemma gap_invI:
  assumes "ix_shape ix" "used_at ix hole" "j < ix_len ix" "hole \<noteq> j"
    and "\<And>c. c < ix_len ix \<Longrightarrow> cdist (ix_len ix) hole c < cdist (ix_len ix) hole j \<Longrightarrow> used_at ix c"
    and "\<And>p c. used_at ix p \<Longrightarrow> p \<noteq> hole \<Longrightarrow> on_path ix (id_at ix p) c p \<Longrightarrow> used_at ix c"
    and "\<And>p. used_at ix p \<Longrightarrow> p \<noteq> hole \<Longrightarrow> on_path ix (id_at ix p) hole p \<Longrightarrow>
      cdist (ix_len ix) hole j \<le> cdist (ix_len ix) hole p"
    and "\<And>p q. used_at ix p \<Longrightarrow> used_at ix q \<Longrightarrow> p \<noteq> hole \<Longrightarrow> q \<noteq> hole \<Longrightarrow>
      id_at ix p = id_at ix q \<Longrightarrow> p = q"
  shows "gap_inv ix hole j"
  using assms unfolding gap_inv_def by simp

lemma gap_invD:
  assumes "gap_inv ix hole j"
  shows "ix_shape ix" "used_at ix hole" "j < ix_len ix" "hole \<noteq> j" "hole < ix_len ix"
    and "c < ix_len ix \<Longrightarrow> cdist (ix_len ix) hole c < cdist (ix_len ix) hole j \<Longrightarrow> used_at ix c"
    and "used_at ix p \<Longrightarrow> p \<noteq> hole \<Longrightarrow> on_path ix (id_at ix p) c p \<Longrightarrow> used_at ix c"
    and "used_at ix p \<Longrightarrow> p \<noteq> hole \<Longrightarrow> on_path ix (id_at ix p) hole p \<Longrightarrow>
      cdist (ix_len ix) hole j \<le> cdist (ix_len ix) hole p"
    and "used_at ix p \<Longrightarrow> used_at ix q \<Longrightarrow> p \<noteq> hole \<Longrightarrow> q \<noteq> hole \<Longrightarrow>
      id_at ix p = id_at ix q \<Longrightarrow> p = q"
proof -
  note g = assms [unfolded gap_inv_def]
  show "ix_shape ix" "used_at ix hole" "j < ix_len ix" "hole \<noteq> j" using g by blast+
  then show "hole < ix_len ix" by (simp add: used_at_def)
qed (use assms [unfolded gap_inv_def] in blast)+

lemma tab_invI:
  assumes "ix_shape ix"
    and "\<And>p c. used_at ix p \<Longrightarrow> on_path ix (id_at ix p) c p \<Longrightarrow> used_at ix c"
    and "\<And>p q. used_at ix p \<Longrightarrow> used_at ix q \<Longrightarrow> id_at ix p = id_at ix q \<Longrightarrow> p = q"
  shows "tab_inv ix"
  using assms unfolding tab_inv_def by simp

lemma tab_invD:
  assumes "tab_inv ix"
  shows "ix_shape ix" "used_at ix p \<Longrightarrow> on_path ix (id_at ix p) c p \<Longrightarrow> used_at ix c"
    "used_at ix p \<Longrightarrow> used_at ix q \<Longrightarrow> id_at ix p = id_at ix q \<Longrightarrow> p = q"
  using assms unfolding tab_inv_def by simp_all

text \<open>The bindings the table holds when the stale entry in the hole is left out.\<close>

definition holds_except :: "'v id_index \<Rightarrow> nat \<Rightarrow> 64 word \<Rightarrow> 'v \<Rightarrow> bool" where
  "holds_except ix hole k v \<longleftrightarrow>
     (\<exists>p. p \<noteq> hole \<and> used_at ix p \<and> id_at ix p = k \<and> ent_value (table ix ! p) = v)"

lemma gap_inv_start:
  assumes "tab_inv ix" and "used_at ix i"
  shows "gap_inv ix i (cnext (ix_len ix) i)"
proof -
  note inv = tab_invD [OF assms(1)]
  have i: "i < ix_len ix" and n: "2 \<le> ix_len ix"
    using assms ix_len_ge_2 [OF inv(1)] by (auto simp: used_at_def)
  show ?thesis
  proof (rule gap_invI)
    fix c
    assume "c < ix_len ix" "cdist (ix_len ix) i c < cdist (ix_len ix) i (cnext (ix_len ix) i)"
    then have "c = i" using i n by (auto simp: cyc_simps split: if_splits)
    then show "used_at ix c" using assms(2) by simp
  next
    fix p
    assume "used_at ix p" "p \<noteq> i"
    then show "cdist (ix_len ix) i (cnext (ix_len ix) i) \<le> cdist (ix_len ix) i p"
      using i n by (auto simp: cyc_simps used_at_def split: if_splits)
  next
    show "i \<noteq> cnext (ix_len ix) i" using n by (auto simp: cyc_simps)
  qed (use inv assms(2) cnext_less [OF i] in blast)+
qed

text \<open>The last step: an unused entry ends the run, and the hole can be emptied.\<close>

lemma gap_done:
  assumes gap: "gap_inv ix hole j" and j: "\<not> used_at ix j"
  defines "ix' \<equiv> ix\<lparr>table := (table ix)[hole := (table ix ! hole)\<lparr>ent_used := False\<rparr>]\<rparr>"
  shows "tab_inv ix'" and "\<And>k v. ix_map ix' k = Some v \<longleftrightarrow> holds_except ix hole k v"
    and "{p. used_at ix' p} = {p. used_at ix p} - {hole}"
proof -
  note g = gap_invD [OF gap]
  let ?n = "ix_len ix"
  have at: "used_at ix' p = (p \<noteq> hole \<and> used_at ix p)" "id_at ix' p = id_at ix p"
    "ent_value (table ix' ! p) = ent_value (table ix ! p)" for p
    using at_upd [OF g(5), of "(table ix ! hole)\<lparr>ent_used := False\<rparr>"] g(5)
    by (auto simp: ix'_def id_at_def nth_list_update)
  have path: "on_path ix' = on_path ix" "ix_shape ix' = ix_shape ix" by (simp_all add: ix'_def)
  show inv': "tab_inv ix'"
  proof (rule tab_invI)
    fix p c
    assume "used_at ix' p" "on_path ix' (id_at ix' p) c p"
    then have p: "used_at ix p" "p \<noteq> hole" "on_path ix (id_at ix p) c p" by (auto simp: at path)
    have "c \<noteq> hole"
    proof
      assume c: "c = hole"
      let ?h = "home ix (id_at ix p)"
      have d: "cdist ?n hole j \<le> cdist ?n hole p" using g(8) p c by blast
      have h: "?h < ?n" and pn: "p < ?n" using home_less [OF g(1)] p(1) by (auto simp: used_at_def)
      have "p \<noteq> j" using p(1) j by auto
      moreover have "cdist ?n ?h hole < cdist ?n ?h p" using p(3) c by (simp add: on_path_def)
      ultimately have "cdist ?n ?h j < cdist ?n ?h p"
        using d h pn g(3,5) by (auto simp: cyc_simps split: if_splits)
      then have "on_path ix (id_at ix p) j p" using g(3) by (simp add: on_path_def)
      then show False using g(7) p j by blast
    qed
    then show "used_at ix' c" using g(7) p by (auto simp: at)
  next
    fix p q
    assume "used_at ix' p" "used_at ix' q" "id_at ix' p = id_at ix' q"
    then show "p = q" using g(9) by (auto simp: at)
  qed (use g(1) path in simp)
  show "ix_map ix' k = Some v \<longleftrightarrow> holds_except ix hole k v" for k v
    unfolding ix_map_iff [OF inv'] by (auto simp: holds_except_def at)
  show "{p. used_at ix' p} = {p. used_at ix p} - {hole}" by (auto simp: at)
qed

lemma gap_cnext_neq:
  assumes gap: "gap_inv ix hole j" and j: "used_at ix j" and e: "e < ix_len ix" "\<not> used_at ix e"
  shows "cnext (ix_len ix) j \<noteq> hole"
proof
  note g = gap_invD [OF gap]
  assume "cnext (ix_len ix) j = hole"
  moreover have "e \<noteq> j" using e j by auto
  ultimately have "cdist (ix_len ix) hole e < cdist (ix_len ix) hole j"
    using e(1) g(3,5) by (auto simp: cyc_simps split: if_splits)
  then show False using g(6) e by blast
qed

text \<open>An entry whose home lies behind the hole stays where it is.\<close>

lemma gap_stays:
  assumes gap: "gap_inv ix hole j" and j: "used_at ix j" and e: "e < ix_len ix" "\<not> used_at ix e"
    and stays: "\<not> cdist (ix_len ix) (home ix (id_at ix j)) hole < cdist (ix_len ix) (home ix (id_at ix j)) j"
  shows "gap_inv ix hole (cnext (ix_len ix) j)"
proof (rule gap_invI)
  note g = gap_invD [OF gap] and nn = gap_cnext_neq [OF gap j e]
  let ?n = "ix_len ix"
  have nx: "cdist ?n hole (cnext ?n j) = Suc (cdist ?n hole j)" using g(3,5) nn by (intro cdist_cnext)
  show "ix_shape ix" "used_at ix hole" by (fact g)+
  show "cnext ?n j < ?n" "hole \<noteq> cnext ?n j" using cnext_less [OF g(3)] nn by auto
  show "used_at ix c" if c: "c < ?n" "cdist ?n hole c < cdist ?n hole (cnext ?n j)" for c
  proof (cases "c = j")
    case False
    then have "cdist ?n hole c \<noteq> cdist ?n hole j" using cdist_inject [OF g(5) c(1) g(3)] by simp
    then show ?thesis using c nx g(6) by simp
  qed (use j in simp)
  show "used_at ix c" if "used_at ix p" "p \<noteq> hole" "on_path ix (id_at ix p) c p" for p c
    using g(7) that by blast
  show "cdist ?n hole (cnext ?n j) \<le> cdist ?n hole p"
    if p: "used_at ix p" "p \<noteq> hole" "on_path ix (id_at ix p) hole p" for p
  proof -
    have "p \<noteq> j" using stays p(3) by (auto simp: on_path_def)
    then have "cdist ?n hole p \<noteq> cdist ?n hole j"
      using cdist_inject [OF g(5) _ g(3), of p] p(1) by (simp add: used_at_def)
    moreover have "cdist ?n hole j \<le> cdist ?n hole p" using g(8) p by blast
    ultimately show ?thesis using nx by simp
  qed
  show "p = q" if "used_at ix p" "used_at ix q" "p \<noteq> hole" "q \<noteq> hole" "id_at ix p = id_at ix q" for p q
    using g(9) that by blast
qed

text \<open>Any other entry moves into the hole and leaves the hole where it was.\<close>

lemma gap_moves:
  assumes gap: "gap_inv ix hole j" and j: "used_at ix j" and e: "e < ix_len ix" "\<not> used_at ix e"
    and moves: "cdist (ix_len ix) (home ix (id_at ix j)) hole < cdist (ix_len ix) (home ix (id_at ix j)) j"
  defines "ix' \<equiv> ix\<lparr>table := (table ix)[hole := table ix ! j]\<rparr>"
  shows "gap_inv ix' j (cnext (ix_len ix) j)"
    and "\<And>k v. holds_except ix' j k v \<longleftrightarrow> holds_except ix hole k v"
    and "used_at ix' = used_at ix"
proof -
  note g = gap_invD [OF gap]
  let ?n = "ix_len ix" and ?h = "home ix (id_at ix j)"
  have h: "?h < ?n" by (rule home_less [OF g(1)])
  have at: "used_at ix' p = used_at ix p" "id_at ix' p = (if p = hole then id_at ix j else id_at ix p)"
    "ent_value (table ix' ! p) = (if p = hole then ent_value (table ix ! j) else ent_value (table ix ! p))" for p
    using at_upd [OF g(5), of "table ix ! j"] g(2,5) j by (auto simp: ix'_def id_at_def used_at_def)
  have path: "on_path ix' = on_path ix" "ix_shape ix' = ix_shape ix" "ix_len ix' = ?n"
    by (simp_all add: ix'_def)
  show "used_at ix' = used_at ix" using at(1) by auto
  have n2: "2 \<le> ?n" by (rule ix_len_ge_2 [OF g(1)])
  show "gap_inv ix' j (cnext ?n j)"
  proof (rule gap_invI, unfold at(1) path)
    show "ix_shape ix" "used_at ix j" by (fact g j)+
    show "cnext ?n j < ?n" "j \<noteq> cnext ?n j" using cnext_less [OF g(3)] n2 by (auto simp: cyc_simps)
    show "used_at ix c" if "c < ?n" "cdist ?n j c < cdist ?n j (cnext ?n j)" for c
    proof -
      have "c = j" using that g(3) n2 by (auto simp: cyc_simps split: if_splits)
      then show ?thesis using j by simp
    qed
    show "used_at ix c" if p: "used_at ix p" "p \<noteq> j" "on_path ix (id_at ix' p) c p" for p c
    proof (cases "p = hole")
      case True
      then have "on_path ix (id_at ix j) c j" using p(3) moves by (auto simp: at(2) on_path_def)
      then show ?thesis using g(7) j g(4) by blast
    next
      case False
      then show ?thesis using p g(7) by (auto simp: at(2))
    qed
    show "cdist ?n j (cnext ?n j) \<le> cdist ?n j p" if "used_at ix p" "p \<noteq> j" for p
      using that g(3) n2 by (auto simp: cyc_simps used_at_def split: if_splits)
    show "p = q" if pq: "used_at ix p" "used_at ix q" "p \<noteq> j" "q \<noteq> j" "id_at ix' p = id_at ix' q" for p q
    proof -
      let ?f = "\<lambda>r. if r = hole then j else r"
      have "?f p = ?f q"
        by (rule g(9)) (use pq j g(4) in \<open>simp_all add: at(2) split: if_splits\<close>)
      then show ?thesis using pq by (simp split: if_splits)
    qed
  qed
  show "holds_except ix' j k v \<longleftrightarrow> holds_except ix hole k v" for k v
    using j g(2,4) by (auto simp: holds_except_def at split: if_splits)
qed

lemma close_gap_spec:
  assumes "gap_inv ix hole j" and e: "e < ix_len ix" "\<not> used_at ix e"
  shows "\<exists>ix'. close_gap ix hole j = Some ix' \<and> tab_inv ix' \<and>
    (\<forall>k v. ix_map ix' k = Some v \<longleftrightarrow> holds_except ix hole k v) \<and>
    ix_len ix' = ix_len ix \<and> ix_count ix' = ix_count ix \<and>
    Suc (card {p. used_at ix' p}) = card {p. used_at ix p}"
  using assms
proof (induction "cdist (ix_len ix) j e" arbitrary: ix hole j rule: less_induct)
  case less
  note gap = less.prems(1) and e = less.prems(2,3)
  note g = gap_invD [OF gap]
  let ?n = "ix_len ix" and ?h = "home ix (id_at ix j)"
  let ?moved = "ix\<lparr>table := (table ix)[hole := table ix ! j]\<rparr>"
  show ?case
  proof (cases "used_at ix j")
    case False
    let ?r = "ix\<lparr>table := (table ix)[hole := (table ix ! hole)\<lparr>ent_used := False\<rparr>]\<rparr>"
    have "close_gap ix hole j = Some ?r"
      using False g(3) by (simp add: close_gap.simps [of ix hole j] used_at_def)
    moreover have "Suc (card ({p. used_at ix p} - {hole})) = card {p. used_at ix p}"
      using g(2) by (intro card_Suc_Diff1) auto
    ultimately show ?thesis
      using gap_done [OF gap False] by (intro exI [of _ ?r]) simp
  next
    case True
    have "j \<noteq> e" using True e(2) by auto
    then have dec: "cdist ?n (cnext ?n j) e < cdist ?n j e" using g(3) e(1) by (intro cdist_step_left)
    have step: "close_gap ix hole j =
        (if cdist ?n ?h hole < cdist ?n ?h j then close_gap ?moved j (cnext ?n j)
         else close_gap ix hole (cnext ?n j))"
      using True step_mask [OF g(1,3)] stays_iff [OF g(5,3) home_less [OF g(1)] g(4)]
      by (simp add: close_gap.simps [of ix hole j] used_at_def id_at_def Let_def)
    show ?thesis
    proof (cases "cdist ?n ?h hole < cdist ?n ?h j")
      case move: True
      note m = gap_moves [OF gap True e move]
      show ?thesis using less.hyps [of ?moved "cnext ?n j" j] m dec e step move by simp
    next
      case False
      note st = gap_stays [OF gap True e False]
      show ?thesis using less.hyps [of ix "cnext ?n j" hole] st dec e step False by simp
    qed
  qed
qed

lemma ix_take_spec:
  assumes "ix_inv ix"
  shows "\<exists>ix'. ix_take ix k = Some (ix_map ix k, ix') \<and> ix_inv ix' \<and> ix_map ix' = (ix_map ix)(k := None) \<and>
    ix_count ix' = (if ix_map ix k = None then ix_count ix else ix_count ix - 1)"
proof -
  have inv: "tab_inv ix" using assms by (simp add: ix_inv_def)
  obtain e where e: "e < ix_len ix" "\<not> used_at ix e" using ix_inv_has_hole [OF assms] by blast
  obtain r where r: "probe ix k (home ix k) = Some r"
      "case r of None \<Rightarrow> \<forall>p. used_at ix p \<longrightarrow> id_at ix p \<noteq> k | Some p \<Rightarrow> used_at ix p \<and> id_at ix p = k"
    using probe_spec [OF inv e] by blast
  show ?thesis
  proof (cases r)
    case None
    then have "ix_map ix k = None" using r ix_map_None_iff [OF inv] by auto
    then show ?thesis using r None assms by (auto simp: ix_take_def)
  next
    case (Some i)
    then have i: "used_at ix i" "id_at ix i = k" using r by auto
    have in_map: "ix_map ix k = Some (ent_value (table ix ! i))" using ix_map_used [OF inv i(1)] i(2) by simp
    obtain ix' where ix': "close_gap ix i (cnext (ix_len ix) i) = Some ix'" "tab_inv ix'"
        "\<forall>k v. ix_map ix' k = Some v \<longleftrightarrow> holds_except ix i k v" "ix_len ix' = ix_len ix"
        "ix_count ix' = ix_count ix" "Suc (card {p. used_at ix' p}) = card {p. used_at ix p}"
      using close_gap_spec [OF gap_inv_start [OF inv i(1)] e] by blast
    have "ix_map ix' q = ((ix_map ix)(k := None)) q" for q
    proof -
      have "holds_except ix i q v \<longleftrightarrow> q \<noteq> k \<and> ix_map ix q = Some v" for v
      proof
        assume "holds_except ix i q v"
        then obtain p where p: "p \<noteq> i" "used_at ix p" "id_at ix p = q" "ent_value (table ix ! p) = v"
          by (auto simp: holds_except_def)
        then show "q \<noteq> k \<and> ix_map ix q = Some v"
          using tab_invD(3) [OF inv p(2) i(1)] i(2) ix_map_used [OF inv p(2)] by auto
      next
        assume q: "q \<noteq> k \<and> ix_map ix q = Some v"
        then obtain p where "used_at ix p" "id_at ix p = q" "ent_value (table ix ! p) = v"
          using ix_map_Some_used [of ix q v] by blast
        then show "holds_except ix i q v" using q i(2) by (auto simp: holds_except_def)
      qed
      then show ?thesis using ix'(3) by (intro option_eqI) auto
    qed
    moreover have "ix_take ix k = Some (ix_map ix k, ix'\<lparr>ix_count := ix_count ix' - 1\<rparr>)"
      using r(1) Some ix'(1) in_map step_mask [OF tab_invD(1) [OF inv], of i] i(1)
      by (simp add: ix_take_def used_at_def)
    ultimately show ?thesis
      using ix' assms in_map by (auto simp: ix_inv_def fun_eq_iff)
  qed
qed

subsection \<open>Construction\<close>

lemma double_power: "k < 63 \<Longrightarrow> (2::64 word) ^ k * 2 = 2 ^ Suc k"
  by simp

lemma half_power:
  assumes "k < 63"
  shows "(2::64 word) ^ Suc k div 2 = 2 ^ k"
proof -
  have "unat ((2::64 word) ^ Suc k div 2) = 2 ^ k"
    using assms unat_pow2 [of "Suc k"] by (simp add: unat_div del: power_Suc) simp
  then show ?thesis using assms by (simp add: word_unat_eq_iff unat_pow2)
qed

lemma cap_loop_returns:
  assumes "expected \<le> 2 ^ 62" and "k < 63"
  shows "\<exists>j. k \<le> j \<and> j < 63 \<and> cap_loop expected (2 ^ Suc k) = Some (2 ^ Suc j) \<and> expected \<le> 2 ^ j \<and>
    (j = k \<or> 2 ^ (j - 1) < expected)"
  using assms(2)
proof (induction "62 - k" arbitrary: k)
  case 0
  then have "k = 62" by simp
  then show ?case
    using assms(1) half_power [of 62]
    by (intro exI [of _ 62]) (auto simp: cap_loop.simps [of expected "2 ^ 63", simplified])
next
  case (Suc m)
  then have k: "Suc k < 63" "m = 62 - Suc k" by simp_all
  have step: "cap_loop expected (2 ^ Suc k) =
      (if 2 ^ k < expected then cap_loop expected (2 ^ Suc (Suc k)) else Some (2 ^ Suc k))"
    using half_power [of k] double_power [of "Suc k"] k(1)
    by (simp only: cap_loop.simps [of expected "2 ^ Suc k"])
  show ?case
  proof (cases "2 ^ k < expected")
    case True
    obtain j where "Suc k \<le> j" "j < 63" "cap_loop expected (2 ^ Suc (Suc k)) = Some (2 ^ Suc j)"
        "expected \<le> 2 ^ j" "j = Suc k \<or> 2 ^ (j - 1) < expected"
      using Suc.hyps(1) [OF k(2,1)] by blast
    then show ?thesis using step True by (intro exI [of _ j]) auto
  next
    case False
    then show ?thesis using step k by (intro exI [of _ k]) auto
  qed
qed

lemma cap_loop_diverges:
  assumes "cap_loop expected cap = Some r" and "2 ^ 62 < expected"
    and "cap \<noteq> 0 \<longrightarrow> (\<exists>k<63. cap = 2 ^ Suc k)"
  shows False
proof (rule cap_loop.raw_induct
    [where P = "\<lambda>n p r. 2 ^ 62 < n \<longrightarrow> (p \<noteq> 0 \<longrightarrow> (\<exists>k<63. p = 2 ^ Suc k)) \<longrightarrow> False",
      OF _ assms(1), THEN mp, OF _ assms(2), THEN mp, OF _ assms(3)])
  fix f and n p r :: "64 word"
  assume IH: "\<And>n p r. f n p = Some r \<Longrightarrow>
      2 ^ 62 < n \<longrightarrow> (p \<noteq> 0 \<longrightarrow> (\<exists>k<63. p = 2 ^ Suc k)) \<longrightarrow> False"
    and eq: "(if p div 2 < n then f n (p * 2) else Some p) = Some r"
  show "2 ^ 62 < n \<longrightarrow> (p \<noteq> 0 \<longrightarrow> (\<exists>k<63. p = 2 ^ Suc k)) \<longrightarrow> False"
  proof (intro impI)
    assume n: "(2::64 word) ^ 62 < n" and p: "p \<noteq> 0 \<longrightarrow> (\<exists>k<63. p = 2 ^ Suc k)"
    have small: "p div 2 \<le> 2 ^ 62 \<and> (p * 2 \<noteq> 0 \<longrightarrow> (\<exists>k<63. p * 2 = 2 ^ Suc k))"
    proof (cases "p = 0")
      case False
      then obtain k where k: "k < 63" "p = 2 ^ Suc k" using p by auto
      have "p div 2 = 2 ^ k" using half_power [OF k(1)] by (simp only: k(2))
      moreover have "(2::64 word) ^ k \<le> 2 ^ 62"
        using k(1) by (simp add: word_le_nat_alt unat_pow2 power_increasing del: power_numeral)
      moreover have "p * 2 \<noteq> 0 \<longrightarrow> (\<exists>k<63. p * 2 = 2 ^ Suc k)"
      proof (cases "k = 62")
        case True
        then show ?thesis by (simp add: k(2))
      next
        case False
        then show ?thesis using k by (intro impI exI [of _ "Suc k"]) auto
      qed
      ultimately show ?thesis by simp
    qed simp
    then have "p div 2 < n" using n by (meson le_less_trans)
    then have "f n (p * 2) = Some r" using eq by simp
    then show False using IH n small by blast
  qed
qed

lemma ix_new_spec:
  assumes "expected \<le> 2 ^ 57"
  shows "\<exists>ix. ix_new expected = Some (Inr ix) \<and> ix_inv ix \<and> ix_map ix = Map.empty \<and> ix_count ix = 0 \<and>
    16 \<le> ix_len ix \<and> 2 * unat expected \<le> ix_len ix"
proof -
  have "expected \<le> 2 ^ 62" using assms by (rule order_trans) simp
  then obtain j where j: "3 \<le> j" "j < 63" "cap_loop expected (2 ^ Suc 3) = Some (2 ^ Suc j)" "expected \<le> 2 ^ j"
      "j = 3 \<or> 2 ^ (j - 1) < expected"
    using cap_loop_returns [of expected 3] by auto
  have "j \<le> 57"
  proof (rule ccontr)
    assume big: "\<not> j \<le> 57"
    then have "2 ^ (j - 1) < unat expected" using j(2,5) by (auto simp: word_less_nat_alt unat_pow2)
    moreover have "(2::nat) ^ 57 \<le> 2 ^ (j - 1)" using big by (intro power_increasing) auto
    ultimately show False using assms by (simp add: word_le_nat_alt)
  qed
  then have "(2::nat) ^ Suc j \<le> 2 ^ 58" by (intro power_increasing) auto
  then have fits: "\<not> vector_max kEntryBytes < 2 ^ Suc j" by (simp add: vector_max_def kEntryBytes_def)
  let ?e = "\<lparr>table = [], ix_mask = 0, ix_bits = 0, ix_count = 0, ix_growths = 0\<rparr>"
  let ?ix = "resize_table (2 ^ Suc j) ?e"
  have "ix_new expected = Some (Inr ?ix)"
    using j fits unat_pow2 [of "Suc j"] by (simp add: ix_new_def del: power_Suc)
  moreover have "ix_inv ?ix" "ix_map ?ix = Map.empty"
    using resize_table_inv [of "Suc j" ?e] j by (auto simp: ix_inv_def resize_table_def)
  moreover have "2 * unat expected \<le> 2 ^ Suc j"
    using j by (simp add: word_le_nat_alt unat_pow2)
  moreover have "(16::nat) \<le> 2 ^ Suc j" using power_increasing [of 4 "Suc j" "2::nat"] j(1) by simp
  ultimately show ?thesis by (intro exI [of _ ?ix]) (auto simp: resize_table_def)
qed

subsection \<open>The self-check of the index\<close>

lemma path_used_True:
  assumes "ix_shape ix" and "i < ix_len ix" and "p < ix_len ix"
    and "\<And>c. c < ix_len ix \<Longrightarrow> cdist (ix_len ix) i c < cdist (ix_len ix) i p \<Longrightarrow> used_at ix c"
  shows "path_used ix i p = Some True"
  using assms(2,4)
proof (induction "cdist (ix_len ix) i p" arbitrary: i rule: less_induct)
  case less
  let ?n = "ix_len ix"
  show ?case
  proof (cases "i = p")
    case True
    then show ?thesis by (simp add: path_used.simps [of ix p])
  next
    case False
    then have "used_at ix i" using less.prems assms(3) by (auto simp: cyc_simps)
    then have "path_used ix i p = path_used ix (cnext ?n i) p"
      using False step_mask [OF assms(1) less.prems(1)]
      by (simp add: path_used.simps [of ix i] used_at_def)
    moreover have "path_used ix (cnext ?n i) p = Some True"
    proof (rule less.hyps)
      show "cdist ?n (cnext ?n i) p < cdist ?n i p"
        using False less.prems(1) assms(3) by (intro cdist_step_left)
      show "cnext ?n i < ?n" using less.prems(1) by (rule cnext_less)
      fix c
      assume c: "c < ?n" "cdist ?n (cnext ?n i) c < cdist ?n (cnext ?n i) p"
      then have "cdist ?n i c < cdist ?n i p"
        using False less.prems(1) assms(3) by (auto simp: cyc_simps split: if_splits)
      then show "used_at ix c" using less.prems(2) c(1) by blast
    qed
    ultimately show ?thesis by simp
  qed
qed

lemma ix_consistent_from_spec:
  assumes "tab_inv ix" and "\<forall>p\<in>set ps. p < ix_len ix"
  shows "ix_consistent_from ix ps seen = Some (seen + length (filter (used_at ix) ps) = ix_count ix)"
  using assms(2)
proof (induction ps arbitrary: seen)
  case Nil
  then show ?case by simp
next
  case (Cons p ps)
  note inv = tab_invD [OF assms(1)]
  show ?case
  proof (cases "used_at ix p")
    case True
    have "path_used ix (home ix (id_at ix p)) p = Some True"
      using Cons.prems True home_less [OF inv(1)] inv(1,2)
      by (intro path_used_True) (auto simp: on_path_def)
    then show ?thesis using Cons True by (simp add: id_at_def used_at_def)
  next
    case False
    then show ?thesis using Cons by (simp add: used_at_def)
  qed
qed

lemma ix_inv_consistent:
  assumes "ix_inv ix"
  shows "ix_consistent ix = Some True"
proof -
  have "length (filter (used_at ix) [0..<ix_len ix]) = card {p. used_at ix p}"
    by (simp add: length_filter_conv_card) (auto simp: used_at_def intro!: arg_cong [of _ _ card])
  moreover have "ix_consistent ix =
      Some (0 + length (filter (used_at ix) [0..<ix_len ix]) = ix_count ix)"
    unfolding ix_consistent_def using assms by (intro ix_consistent_from_spec) (auto simp: ix_inv_def)
  ultimately show ?thesis using assms by (simp add: ix_inv_def)
qed

subsection \<open>The interface: a finite map behind three operations\<close>

text \<open>
  A client's sequence of operations (\<open>Put\<close> inserts only an absent id, as the order book
  does), run against a store and against a map. A put answers the value already there, if any.
\<close>

datatype 'v store_op = Put "64 word" 'v | Take "64 word" | Get "64 word"

fun store_run :: "('s \<Rightarrow> 64 word \<Rightarrow> 'v option option) \<Rightarrow> ('s \<Rightarrow> 64 word \<Rightarrow> 'v \<Rightarrow> (unit, 's) run) \<Rightarrow>
    ('s \<Rightarrow> 64 word \<Rightarrow> ('v option \<times> 's) option) \<Rightarrow> 'v store_op list \<Rightarrow> 's \<Rightarrow> ('v option list, 's) run" where
  "store_run fnd ins tk [] s = ret [] s"
| "store_run fnd ins tk (Get k # ops) s =
     Option.bind (fnd s k) (\<lambda>r. bind_run (store_run fnd ins tk ops s) (\<lambda>rs s2. ret (r # rs) s2) (\<lambda>s. s))"
| "store_run fnd ins tk (Take k # ops) s =
     Option.bind (tk s k) (\<lambda>(r, s1). bind_run (store_run fnd ins tk ops s1) (\<lambda>rs s2. ret (r # rs) s2) (\<lambda>s. s))"
| "store_run fnd ins tk (Put k v # ops) s =
     Option.bind (fnd s k) (\<lambda>r.
       bind_run (if r = None then ins s k v else ret () s)
         (\<lambda>_ s1. bind_run (store_run fnd ins tk ops s1) (\<lambda>rs s2. ret (r # rs) s2) (\<lambda>s. s)) (\<lambda>s. s))"

fun map_run :: "'v store_op list \<Rightarrow> (64 word \<rightharpoonup> 'v) \<Rightarrow> 'v option list \<times> (64 word \<rightharpoonup> 'v)" where
  "map_run [] m = ([], m)"
| "map_run (Get k # ops) m = (let (rs, m') = map_run ops m in (m k # rs, m'))"
| "map_run (Take k # ops) m = (let (rs, m') = map_run ops (m(k := None)) in (m k # rs, m'))"
| "map_run (Put k v # ops) m =
     (let (rs, m') = map_run ops (if m k = None then m(k \<mapsto> v) else m) in (m k # rs, m'))"

locale id_store =
  fixes fnd :: "'s \<Rightarrow> 64 word \<Rightarrow> 'v option option"
    and ins :: "'s \<Rightarrow> 64 word \<Rightarrow> 'v \<Rightarrow> (unit, 's) run"
    and tk :: "'s \<Rightarrow> 64 word \<Rightarrow> ('v option \<times> 's) option"
    and lookup :: "'s \<Rightarrow> 64 word \<rightharpoonup> 'v"
    and inv :: "'s \<Rightarrow> bool"
    and limit :: nat
  assumes fnd_ok: "inv s \<Longrightarrow> fnd s k = Some (lookup s k)"
    and ins_ok: "inv s \<Longrightarrow> lookup s k = None \<Longrightarrow> card (dom (lookup s)) < limit \<Longrightarrow>
      \<exists>s'. ins s k v = ret () s' \<and> inv s' \<and> lookup s' = (lookup s)(k \<mapsto> v)"
    and tk_ok: "inv s \<Longrightarrow> \<exists>s'. tk s k = Some (lookup s k, s') \<and> inv s' \<and> lookup s' = (lookup s)(k := None)"
begin

lemma store_run_map_run:
  assumes "inv s" and "card (dom (lookup s)) + length ops \<le> limit"
  shows "\<exists>s'. store_run fnd ins tk ops s = ret (fst (map_run ops (lookup s))) s' \<and> inv s' \<and>
    lookup s' = snd (map_run ops (lookup s))"
  using assms
proof (induction ops arbitrary: s)
  case Nil
  then show ?case by simp
next
  case (Cons oper ops)
  have fin: "finite (dom (lookup s))" by simp
  show ?case
  proof (cases oper)
    case (Get k)
    then show ?thesis
      using Cons.IH [OF Cons.prems(1)] Cons.prems fnd_ok [OF Cons.prems(1), of k]
      by (auto split: prod.splits)
  next
    case (Take k)
    obtain s1 where s1: "tk s k = Some (lookup s k, s1)" "inv s1" "lookup s1 = (lookup s)(k := None)"
      using tk_ok [OF Cons.prems(1)] by blast
    have "card (dom (lookup s) - {k}) \<le> card (dom (lookup s))" using fin by (intro card_mono) auto
    then have "card (dom (lookup s1)) + length ops \<le> limit" using Cons.prems(2) s1(3) by simp
    from Cons.IH [OF s1(2) this, unfolded s1(3)] Take s1(1) show ?thesis
      by (auto simp: case_prod_beta simp del: fun_upd_apply)
  next
    case (Put k v)
    show ?thesis
    proof (cases "lookup s k")
      case None
      then obtain s1 where s1: "ins s k v = ret () s1" "inv s1" "lookup s1 = (lookup s)(k \<mapsto> v)"
        using ins_ok [OF Cons.prems(1) None, of v] Cons.prems(2) by auto
      have "card (insert k (dom (lookup s))) \<le> Suc (card (dom (lookup s)))"
        by (rule card_insert_le_m1) auto
      then have "card (dom (lookup s1)) + length ops \<le> limit" using Cons.prems(2) s1(3) by simp
      from Cons.IH [OF s1(2) this, unfolded s1(3)] Put None s1(1) fnd_ok [OF Cons.prems(1), of k]
      show ?thesis by (auto simp: case_prod_beta simp del: fun_upd_apply)
    next
      case (Some w)
      then show ?thesis
        using Cons.IH [OF Cons.prems(1)] Cons.prems fnd_ok [OF Cons.prems(1), of k] Put
        by (auto split: prod.splits)
    qed
  qed
qed

end

interpretation index: id_store ix_find ix_insert ix_take ix_map ix_inv "2 ^ 56"
proof unfold_locales
  fix s :: "'v::zero id_index" and k v
  assume inv: "ix_inv s"
  show "ix_find s k = Some (ix_map s k)" by (rule ix_find_spec [OF inv])
  show "\<exists>s'. ix_take s k = Some (ix_map s k, s') \<and> ix_inv s' \<and> ix_map s' = (ix_map s)(k := None)"
    using ix_take_spec [OF inv] by blast
  assume "ix_map s k = None" "card (dom (ix_map s)) < 2 ^ 56"
  then show "\<exists>s'. ix_insert s k v = ret () s' \<and> ix_inv s' \<and> ix_map s' = (ix_map s)(k \<mapsto> v)"
    using ix_insert_spec [OF inv] ix_size_card [OF inv] by (auto simp: ix_size_def)
qed

subsection \<open>Properties\<close>

text \<open>
  Removing an id by backward shift: the removed value is returned, the id is gone, every
  other id is still found with its value (no probe run was cut), the count drops by one, and the
  \<open>consistent()\<close> check still accepts the table; removing an absent id changes nothing that can be observed.
\<close>

lemma id_index_take:
  assumes "ix_inv ix"
  shows "\<exists>ix'. ix_take ix k = Some (ix_map ix k, ix') \<and> ix_consistent ix' = Some True \<and>
     (\<forall>q. ix_find ix' q = (if q = k then Some None else ix_find ix q)) \<and>
     ix_size ix' = ix_size ix - (if ix_contains ix k = Some True then 1 else 0)"
proof -
  obtain ix' where ix': "ix_take ix k = Some (ix_map ix k, ix')" "ix_inv ix'"
      "ix_map ix' = (ix_map ix)(k := None)"
      "ix_count ix' = (if ix_map ix k = None then ix_count ix else ix_count ix - 1)"
    using ix_take_spec [OF assms] by blast
  then show ?thesis
    using ix_find_spec [OF assms] ix_find_spec [OF ix'(2)] ix_inv_consistent [OF ix'(2)]
    by (auto simp: ix_size_def ix_contains_def)
qed

lemma empty_index_inv:
  "ix_inv (resize_table 16 \<lparr>table = [], ix_mask = 0, ix_bits = 0, ix_count = 0, ix_growths = 0\<rparr>)"
  using resize_table_inv [of 4 "\<lparr>table = [], ix_mask = 0, ix_bits = 0, ix_count = 0, ix_growths = 0\<rparr>"]
  by (auto simp: ix_inv_def resize_table_def)

lemma ix_new_loops:
  assumes big: "2 ^ 62 < expected"
  shows "(ix_new expected :: (fault + 'v::zero id_index) option) = None"
proof -
  have "\<exists>k<63. (16::64 word) = 2 ^ Suc k" by (intro exI [of _ 3]) simp
  then have "cap_loop expected 16 \<noteq> Some r" for r
    using cap_loop_diverges [of expected 16 r] big by blast
  then have "cap_loop expected 16 = None" by (cases "cap_loop expected 16") auto
  then show ?thesis by (simp add: ix_new_def)
qed

lemma ix_new_throws:
  assumes "2 ^ 57 < expected" and "expected \<le> 2 ^ 62"
  shows "(ix_new expected :: (fault + 'v::zero id_index) option) = Some (Inl Length_error)"
proof -
  obtain j where j: "j < 63" "cap_loop expected (2 ^ Suc 3) = Some (2 ^ Suc j)" "expected \<le> 2 ^ j"
    using cap_loop_returns [OF assms(2), of 3] by auto
  have "57 < j"
  proof (rule ccontr)
    assume "\<not> 57 < j"
    then have "(2::nat) ^ j \<le> 2 ^ 57" by (intro power_increasing) auto
    then show False using j assms(1) by (simp add: word_le_nat_alt word_less_nat_alt unat_pow2)
  qed
  then have "(2::nat) ^ 59 \<le> 2 ^ Suc j" by (intro power_increasing) auto
  then have "vector_max kEntryBytes < 2 ^ Suc j" by (simp add: vector_max_def kEntryBytes_def)
  then show ?thesis using j unat_pow2 [of "Suc j"] by (simp add: ix_new_def del: power_Suc)
qed

text \<open>
  The constructor provides room for \<open>expected\<close> ids without growing (a table of at
  least 16 entries, at least twice as many as ids expected, empty and well-formed) whenever
  \<open>expected\<close> is at most \<open>2 ^ 57\<close>; beyond that the table has more entries than a vector may hold and the constructor throws;
  beyond \<open>2 ^ 62\<close> the doubling of the 64-bit capacity overflows to 0 before the table is asked for, and it does not return.
\<close>

lemma ix_new_outcome:
  "if expected \<le> 2 ^ 57
   then \<exists>ix. (ix_new expected :: (fault + 'v::zero id_index) option) = Some (Inr ix) \<and> ix_inv ix \<and> ix_map ix = Map.empty \<and>
     16 \<le> length (table ix) \<and> 2 * unat expected \<le> length (table ix)
   else (ix_new expected :: (fault + 'v id_index) option) = (if expected \<le> 2 ^ 62 then Some (Inl Length_error) else None)"
  using ix_new_spec [of expected, where 'a = 'v] ix_new_throws [of expected, where 'v = 'v]
    ix_new_loops [of expected, where 'v = 'v]
  by (cases "expected \<le> 2 ^ 57"; cases "expected \<le> 2 ^ 62") auto

text \<open>
  (C25) The open-addressed table is a finite map. For every sequence of lookups, guarded inserts
  and removals on a freshly constructed index, every probe loop terminates, nothing is thrown, each
  operation answers what it answers on a map, the table ends up holding exactly the map's
  bindings at a load of at most one half, and the table's own \<open>consistent()\<close> check accepts it. This covers
  colliding and wrapped probe runs, backward-shift deletion and growth. An index is constructed for up to \<open>2 ^ 57\<close> expected ids;
  for more the vector of the table throws \<^verbatim>\<open>length_error\<close>, and for more than \<open>2 ^ 62\<close> the doubling of the capacity never ends.
\<close>

theorem id_index_refines_map:
  fixes ops :: "'v::zero store_op list"
  assumes "length ops \<le> 2 ^ 56"
  shows "if expected \<le> 2 ^ 57
    then \<exists>ix0 ix'. ix_new expected = Some (Inr ix0) \<and>
      store_run ix_find ix_insert ix_take ops ix0 = ret (fst (map_run ops Map.empty)) ix' \<and>
      ix_map ix' = snd (map_run ops Map.empty) \<and> ix_consistent ix' = Some True \<and>
      ix_size ix' = card (dom (ix_map ix')) \<and> 2 * ix_size ix' \<le> length (table ix')
    else (ix_new expected :: (fault + 'v id_index) option) = (if expected \<le> 2 ^ 62 then Some (Inl Length_error) else None)"
proof (cases "expected \<le> 2 ^ 57")
  case True
  obtain ix0 :: "'v id_index" where ix0: "ix_new expected = Some (Inr ix0)" "ix_inv ix0" "ix_map ix0 = Map.empty"
    using ix_new_spec [OF True] by blast
  then obtain ix' where "store_run ix_find ix_insert ix_take ops ix0 = ret (fst (map_run ops Map.empty)) ix'"
      "ix_inv ix'" "ix_map ix' = snd (map_run ops Map.empty)"
    using index.store_run_map_run [of ix0 ops] assms by auto
  then show ?thesis
    using True ix0(1) ix_inv_consistent [of ix'] ix_size_card [of ix'] by (auto simp: ix_inv_def ix_size_def)
next
  case False
  then show ?thesis using ix_new_outcome [of expected, where 'v = 'v] by simp
qed

theorem id_index_refines_map_witness:
  "\<exists>ix0 ix'. ix_new 8 = Some (Inr ix0) \<and>
     store_run ix_find ix_insert ix_take [Put 1 (10::nat), Put 18 20, Take 1, Get 18, Take 5] ix0
       = ret [None, None, Some 10, Some 20, None] ix' \<and> ix_consistent ix' = Some True"
  using id_index_refines_map [of "[Put 1 (10::nat), Put 18 20, Take 1, Get 18, Take 5]" 8]
  by (auto simp: word_le_nat_alt)

end
