(* ===== verification/Trade_Ring.thy ===== *)
theory Trade_Ring
  imports Lob_Prelude
begin

section \<open>The trade ring (\<^verbatim>\<open>lob::TradeRing\<close>)\<close>

text \<open>
  The fixed-capacity ring that carries trades out of the book: its constructor with the
  rounding of the capacity to a power of two, \<open>push\<close>, \<open>pop\<close>, the size queries, and the
  draining loop of \<^verbatim>\<open>OrderBook::drain_trades\<close>. The two cursors are free-running 64-bit words.
  The interface \<open>bounded_fifo\<close> states what a client may rely on, and the ring is shown to
  provide it also when a cursor wraps around.
\<close>

subsection \<open>Model\<close>

datatype side = Buy | Sell

record trade =
  tr_seq :: sequence_no
  tr_maker_id :: order_id
  tr_taker_id :: order_id
  tr_price :: price
  tr_qty :: quantity
  tr_taker_side :: side

definition zero_trade :: trade where
  "zero_trade = \<lparr>tr_seq = 0, tr_maker_id = 0, tr_taker_id = 0, tr_price = 0, tr_qty = 0,
     tr_taker_side = Buy\<rparr>"

record trade_ring =
  buffer :: "trade list"
  ring_mask :: "64 word"
  ring_head :: "64 word"
  ring_tail :: "64 word"
  drop_count :: "64 word"

text \<open>\<^verbatim>\<open>while (p < n) p <<= 1;\<close> on a 64-bit \<open>p\<close>: the shift drops the top bit.\<close>

partial_function (option) round_up_loop :: "64 word \<Rightarrow> 64 word \<Rightarrow> 64 word option" where
  "round_up_loop n p = (if p < n then round_up_loop n (push_bit 1 p) else Some p)"

definition round_up_pow2 :: "64 word \<Rightarrow> 64 word option" where
  "round_up_pow2 n = round_up_loop n 1"

text \<open>A \<^verbatim>\<open>Trade\<close> has 40 bytes.\<close>

definition kTradeBytes :: nat where
  "kTradeBytes = 40"

definition trade_ring_new :: "64 word \<Rightarrow> (fault + trade_ring) option" where
  "trade_ring_new cap =
     map_option
       (\<lambda>p. if unat p > vector_max kTradeBytes then Inl Length_error
         else Inr \<lparr>buffer = replicate (unat p) zero_trade, ring_mask = p - 1, ring_head = 0,
            ring_tail = 0, drop_count = 0\<rparr>)
       (round_up_pow2 (if cap = 0 then 1 else cap))"

definition ring_size :: "trade_ring \<Rightarrow> 64 word" where
  "ring_size r = ring_head r - ring_tail r"

definition ring_capacity :: "trade_ring \<Rightarrow> nat" where
  "ring_capacity r = length (buffer r)"

definition ring_empty :: "trade_ring \<Rightarrow> bool" where
  "ring_empty r \<longleftrightarrow> ring_head r = ring_tail r"

definition ring_full :: "trade_ring \<Rightarrow> bool" where
  "ring_full r \<longleftrightarrow> unat (ring_size r) = length (buffer r)"

definition ring_push :: "trade \<Rightarrow> trade_ring \<Rightarrow> bool \<times> trade_ring" where
  "ring_push t r =
     (if ring_full r then (False, r\<lparr>drop_count := drop_count r + 1\<rparr>)
      else (True, r\<lparr>buffer := (buffer r)[unat (ring_head r AND ring_mask r) := t],
                    ring_head := ring_head r + 1\<rparr>))"

definition ring_pop :: "trade_ring \<Rightarrow> trade option \<times> trade_ring" where
  "ring_pop r =
     (if ring_empty r then (None, r)
      else (Some (buffer r ! unat (ring_tail r AND ring_mask r)),
            r\<lparr>ring_tail := ring_tail r + 1\<rparr>))"

text \<open>
  \<^verbatim>\<open>while (trade_out.pop(t)) {on_trade(t); ++n;}\<close>: the trades handed to the callback, in order,
  and the ring afterwards. Their number is the value the C++ loop returns.
\<close>

partial_function (option) drain_trades :: "trade_ring \<Rightarrow> (trade list \<times> trade_ring) option" where
  "drain_trades r =
     (case ring_pop r of
        (None, r') \<Rightarrow> Some ([], r')
      | (Some t, r') \<Rightarrow>
          Option.bind (drain_trades r') (\<lambda>(ts, r''). Some (t # ts, r'')))"

subsection \<open>Representation invariant and contents\<close>

definition ring_inv :: "trade_ring \<Rightarrow> bool" where
  "ring_inv r \<longleftrightarrow>
     (\<exists>k<64. length (buffer r) = 2 ^ k \<and> ring_mask r = 2 ^ k - 1) \<and>
     unat (ring_size r) \<le> length (buffer r)"

definition ring_list :: "trade_ring \<Rightarrow> trade list" where
  "ring_list r =
     map (\<lambda>j. buffer r ! unat ((ring_tail r + of_nat j) AND ring_mask r))
       [0..<unat (ring_size r)]"

subsection \<open>The interface: a bounded first-in first-out queue that counts what it drops\<close>

locale bounded_fifo =
  fixes push :: "'a \<Rightarrow> 'q \<Rightarrow> bool \<times> 'q"
    and pop :: "'q \<Rightarrow> 'a option \<times> 'q"
    and contents :: "'q \<Rightarrow> 'a list"
    and cap :: "'q \<Rightarrow> nat"
    and dropped :: "'q \<Rightarrow> 64 word"
    and inv :: "'q \<Rightarrow> bool"
  assumes bounded: "inv q \<Longrightarrow> length (contents q) \<le> cap q"
    and push_room: "inv q \<Longrightarrow> length (contents q) < cap q \<Longrightarrow>
      fst (push x q) \<and> contents (snd (push x q)) = contents q @ [x] \<and>
      dropped (snd (push x q)) = dropped q"
    and push_full: "inv q \<Longrightarrow> length (contents q) = cap q \<Longrightarrow>
      \<not> fst (push x q) \<and> contents (snd (push x q)) = contents q \<and>
      dropped (snd (push x q)) = dropped q + 1"
    and push_inv: "inv q \<Longrightarrow> inv (snd (push x q)) \<and> cap (snd (push x q)) = cap q"
    and pop_empty: "inv q \<Longrightarrow> contents q = [] \<Longrightarrow> pop q = (None, q)"
    and pop_some: "inv q \<Longrightarrow> contents q = x # xs \<Longrightarrow>
      fst (pop q) = Some x \<and> contents (snd (pop q)) = xs \<and>
      dropped (snd (pop q)) = dropped q"
    and pop_inv: "inv q \<Longrightarrow> inv (snd (pop q)) \<and> cap (snd (pop q)) = cap q"
begin

text \<open>A burst of pushes keeps a prefix of the stream and counts exactly the rest.\<close>

lemma push_many:
  assumes "inv q"
  shows "inv (fold (\<lambda>x s. snd (push x s)) xs q) \<and>
     cap (fold (\<lambda>x s. snd (push x s)) xs q) = cap q \<and>
     contents (fold (\<lambda>x s. snd (push x s)) xs q) = take (cap q) (contents q @ xs) \<and>
     dropped (fold (\<lambda>x s. snd (push x s)) xs q)
       = dropped q + of_nat (length (contents q) + length xs - cap q)"
  using assms
proof (induction xs arbitrary: q)
  case Nil
  then show ?case using bounded [of q] by simp
next
  case (Cons x xs)
  define q' where "q' = snd (push x q)"
  have q': "inv q'" "cap q' = cap q" using push_inv [OF Cons.prems, of x] by (auto simp: q'_def)
  show ?case
  proof (cases "length (contents q) < cap q")
    case True
    then have "contents q' = contents q @ [x]" "dropped q' = dropped q"
      using push_room [OF Cons.prems True, of x] by (auto simp: q'_def)
    then show ?thesis using Cons.IH [OF q'(1)] q' by (simp add: q'_def [symmetric])
  next
    case False
    then have full: "length (contents q) = cap q" using bounded [OF Cons.prems] by simp
    then have "contents q' = contents q" "dropped q' = dropped q + 1"
      using push_full [OF Cons.prems full, of x] by (auto simp: q'_def)
    then show ?thesis using Cons.IH [OF q'(1)] q' full by (simp add: q'_def [symmetric])
  qed
qed

end

subsection \<open>Cursor arithmetic\<close>

text \<open>The slot of the \<open>j\<close>-th element, also when the cursor passes \<open>2 ^ 64\<close>.\<close>

lemma cursor_slot:
  fixes x :: "64 word"
  assumes "k < 64"
  shows "unat ((x + of_nat j) AND (2 ^ k - 1)) = (unat x + j) mod 2 ^ k"
proof -
  have "unat (x + of_nat j) = (unat x + j) mod 2 ^ 64"
    by (simp add: unat_word_ariths unat_of_nat mod_simps)
  then show ?thesis
    by (simp only: unat_and_mask [OF assms] mod_mod_cancel [OF pow_dvd_64 [OF assms]])
qed

lemma ring_index_less:
  assumes "ring_inv r"
  shows "unat (x AND ring_mask r) < length (buffer r)"
  using assms by (auto simp: ring_inv_def unat_and_mask)

lemma unat_plus_one:
  fixes x :: "64 word"
  assumes "unat x < 2 ^ 64 - 1"
  shows "unat (x + 1) = Suc (unat x)"
  using assms by (simp add: unat_word_ariths)

text \<open>Two of the slots in use coincide only for the same position in the queue.\<close>

lemma ring_slot_neq:
  fixes x :: "64 word"
  assumes "k < 64" and "i < j" and "j < i + 2 ^ k"
  shows "unat ((x + of_nat i) AND (2 ^ k - 1)) \<noteq> unat ((x + of_nat j) AND (2 ^ k - 1))"
proof
  assume "unat ((x + of_nat i) AND (2 ^ k - 1)) = unat ((x + of_nat j) AND (2 ^ k - 1))"
  then have "(unat x + i) mod 2 ^ k = (unat x + j) mod 2 ^ k"
    by (simp add: cursor_slot [OF assms(1)])
  then have "2 ^ k dvd j - i"
    using assms(2) mod_eq_dvd_iff_nat [of "unat x + i" "unat x + j" "2 ^ k"] by simp
  then show False using assms(2,3) by (auto dest: dvd_imp_le)
qed

subsection \<open>The ring provides the interface\<close>

lemma ring_list_length: "length (ring_list r) = unat (ring_size r)"
  by (simp add: ring_list_def)

lemma ring_empty_iff: "ring_empty r \<longleftrightarrow> ring_list r = []"
  by (auto simp: ring_empty_def ring_list_def ring_size_def unat_eq_0)

lemma ring_size_less_max:
  assumes "ring_inv r"
  shows "unat (ring_size r) < 2 ^ 64 - 1"
proof -
  obtain k where k: "k < 64" "length (buffer r) = 2 ^ k" using assms by (auto simp: ring_inv_def)
  have "(2::nat) ^ k \<le> 2 ^ 63" using k(1) by (intro power_increasing) auto
  then show ?thesis using assms k by (auto simp: ring_inv_def)
qed

lemma ring_push_list:
  assumes inv: "ring_inv r" and room: "\<not> ring_full r"
  shows "ring_list (snd (ring_push t r)) = ring_list r @ [t]"
proof -
  obtain k where k: "k < 64" "length (buffer r) = 2 ^ k" "ring_mask r = 2 ^ k - 1"
    using inv by (auto simp: ring_inv_def)
  define n where "n = unat (ring_size r)"
  have n: "n < 2 ^ k" using inv room k by (auto simp: ring_inv_def ring_full_def n_def)
  have hd: "ring_head r = ring_tail r + of_nat n"
    by (simp add: n_def ring_size_def)
  let ?i = "\<lambda>j. unat ((ring_tail r + of_nat j) AND ring_mask r)"
  have "ring_size (snd (ring_push t r)) = ring_size r + 1"
    using room by (simp add: ring_push_def ring_size_def)
  then have sz: "unat (ring_size (snd (ring_push t r))) = Suc n"
    using unat_plus_one [OF ring_size_less_max [OF inv]] by (simp add: n_def)
  have neq: "?i n \<noteq> ?i j" if "j < n" for j
    using ring_slot_neq [OF k(1), of j n "ring_tail r"] that n by (auto simp: k(3))
  have "?i n < length (buffer r)" using inv by (rule ring_index_less)
  then show ?thesis
    using room neq sz by (auto simp: ring_list_def ring_push_def hd n_def [symmetric] intro!: nth_equalityI)
qed

lemma ring_push_inv:
  assumes "ring_inv r"
  shows "ring_inv (snd (ring_push t r)) \<and> ring_capacity (snd (ring_push t r)) = ring_capacity r"
proof (cases "ring_full r")
  case True
  then show ?thesis using assms by (simp add: ring_push_def ring_inv_def ring_size_def ring_capacity_def)
next
  case False
  then have "length (ring_list r) < length (buffer r)"
    using assms by (auto simp: ring_list_length ring_inv_def ring_full_def)
  then have "unat (ring_size (snd (ring_push t r))) \<le> length (buffer r)"
    using ring_push_list [OF assms False, of t] by (simp add: ring_list_length [symmetric])
  then show ?thesis using assms False by (simp add: ring_push_def ring_inv_def ring_capacity_def)
qed

lemma ring_pop_nonempty:
  assumes inv: "ring_inv r" and ne: "ring_list r \<noteq> []"
  shows "fst (ring_pop r) = Some (hd (ring_list r)) \<and> ring_list (snd (ring_pop r)) = tl (ring_list r)"
proof -
  have nz: "\<not> ring_empty r" using ne by (simp add: ring_empty_iff)
  obtain n where n: "unat (ring_size r) = Suc n"
    using ne by (cases "unat (ring_size r)") (auto simp: ring_list_def)
  have "ring_size (snd (ring_pop r)) = ring_size r - 1"
    using nz by (simp add: ring_pop_def ring_size_def)
  then have sz: "unat (ring_size (snd (ring_pop r))) = n"
    using n by (metis unat_minus_one nat.simps(3) unat_0 diff_Suc_1)
  have "ring_list r = hd (ring_list r) # map (\<lambda>j. buffer r ! unat ((ring_tail r + of_nat (Suc j)) AND ring_mask r)) [0..<n]"
    by (simp add: ring_list_def n upt_conv_Cons map_Suc_upt [symmetric] del: upt_Suc)
  moreover have "hd (ring_list r) = buffer r ! unat (ring_tail r AND ring_mask r)"
    by (simp add: ring_list_def n upt_conv_Cons del: upt_Suc)
  moreover have "ring_list (snd (ring_pop r)) =
      map (\<lambda>j. buffer r ! unat ((ring_tail r + of_nat (Suc j)) AND ring_mask r)) [0..<n]"
    using nz sz by (simp add: ring_list_def ring_pop_def add.assoc)
  ultimately show ?thesis using nz by (metis (no_types, lifting) fst_conv list.sel(3) ring_pop_def)
qed

lemma ring_pop_inv:
  assumes "ring_inv r"
  shows "ring_inv (snd (ring_pop r)) \<and> ring_capacity (snd (ring_pop r)) = ring_capacity r"
proof (cases "ring_list r = []")
  case True
  then show ?thesis using assms by (simp add: ring_pop_def ring_empty_iff)
next
  case False
  then have "length (ring_list (snd (ring_pop r))) \<le> length (buffer r)"
    using ring_pop_nonempty [OF assms False] assms by (auto simp: ring_list_length ring_inv_def)
  then show ?thesis
    using assms False
    by (simp add: ring_pop_def ring_empty_iff ring_inv_def ring_capacity_def ring_list_length)
qed

interpretation ring: bounded_fifo ring_push ring_pop ring_list ring_capacity drop_count ring_inv
proof unfold_locales
  fix q :: trade_ring and x :: trade
  assume inv: "ring_inv q"
  show "length (ring_list q) \<le> ring_capacity q"
    using inv by (simp add: ring_list_length ring_inv_def ring_capacity_def)
  show "ring_inv (snd (ring_push x q)) \<and> ring_capacity (snd (ring_push x q)) = ring_capacity q"
    by (rule ring_push_inv [OF inv])
  show "ring_inv (snd (ring_pop q)) \<and> ring_capacity (snd (ring_pop q)) = ring_capacity q"
    by (rule ring_pop_inv [OF inv])
  show "ring_list q = [] \<Longrightarrow> ring_pop q = (None, q)"
    by (simp add: ring_pop_def ring_empty_iff)
  assume "length (ring_list q) < ring_capacity q"
  then have "\<not> ring_full q" by (simp add: ring_list_length ring_full_def ring_capacity_def)
  then show "fst (ring_push x q) \<and> ring_list (snd (ring_push x q)) = ring_list q @ [x] \<and>
      drop_count (snd (ring_push x q)) = drop_count q"
    using ring_push_list [OF inv, of x] by (simp add: ring_push_def)
next
  fix q :: trade_ring and x :: trade
  assume inv: "ring_inv q" and "length (ring_list q) = ring_capacity q"
  then have "ring_full q" by (simp add: ring_list_length ring_full_def ring_capacity_def)
  then show "\<not> fst (ring_push x q) \<and> ring_list (snd (ring_push x q)) = ring_list q \<and>
      drop_count (snd (ring_push x q)) = drop_count q + 1"
    by (simp add: ring_push_def ring_list_def ring_size_def)
next
  fix q :: trade_ring and x :: trade and xs
  assume inv: "ring_inv q" and "ring_list q = x # xs"
  then show "fst (ring_pop q) = Some x \<and> ring_list (snd (ring_pop q)) = xs \<and>
      drop_count (snd (ring_pop q)) = drop_count q"
    using ring_pop_nonempty [OF inv] by (simp add: ring_pop_def)
qed

subsection \<open>The constructor\<close>

lemma push_bit_one_power: "k < 63 \<Longrightarrow> push_bit 1 ((2::64 word) ^ k) = 2 ^ Suc k"
  by (simp add: push_bit_eq_mult)

lemma round_up_loop_returns:
  assumes "n \<le> 2 ^ 63" and "k \<le> 63"
  shows "\<exists>j. k \<le> j \<and> j \<le> 63 \<and> round_up_loop n (2 ^ k) = Some (2 ^ j) \<and> n \<le> 2 ^ j \<and>
    (j = k \<or> 2 ^ (j - 1) < n)"
  using assms(2)
proof (induction "63 - k" arbitrary: k)
  case 0
  then have "k = 63" by simp
  then show ?case
    using assms(1) by (intro exI [of _ 63]) (auto simp: round_up_loop.simps [of n "2 ^ 63", simplified])
next
  case (Suc m)
  then have k: "k < 63" by simp
  show ?case
  proof (cases "2 ^ k < n")
    case True
    have "m = 63 - Suc k" "Suc k \<le> 63" using Suc.hyps(2) k by auto
    then obtain j where j: "Suc k \<le> j" "j \<le> 63" "round_up_loop n (2 ^ Suc k) = Some (2 ^ j)"
      "n \<le> 2 ^ j" "j = Suc k \<or> 2 ^ (j - 1) < n"
      using Suc.hyps(1) [of "Suc k"] by auto
    have "round_up_loop n (2 ^ k) = Some (2 ^ j)"
      using True j(3) k by (simp only: round_up_loop.simps [of n "2 ^ k"] push_bit_one_power if_True)
    then show ?thesis using j True by (intro exI [of _ j]) auto
  next
    case False
    then show ?thesis
      using k by (intro exI [of _ k]) (simp add: round_up_loop.simps [of n "2 ^ k"])
  qed
qed

lemma round_up_loop_diverges:
  assumes "round_up_loop n p = Some r"
    and "2 ^ 63 < n" and "p \<noteq> 0 \<longrightarrow> (\<exists>k\<le>63. p = 2 ^ k)"
  shows False
proof (rule round_up_loop.raw_induct
    [where P = "\<lambda>n p r. 2 ^ 63 < n \<longrightarrow> (p \<noteq> 0 \<longrightarrow> (\<exists>k\<le>63. p = 2 ^ k)) \<longrightarrow> False",
      OF _ assms(1), THEN mp, OF _ assms(2), THEN mp, OF _ assms(3)])
  fix f and n p r :: "64 word"
  assume IH: "\<And>n p r. f n p = Some r \<Longrightarrow>
      2 ^ 63 < n \<longrightarrow> (p \<noteq> 0 \<longrightarrow> (\<exists>k\<le>63. p = 2 ^ k)) \<longrightarrow> False"
    and eq: "(if p < n then f n (push_bit 1 p) else Some p) = Some r"
  show "2 ^ 63 < n \<longrightarrow> (p \<noteq> 0 \<longrightarrow> (\<exists>k\<le>63. p = 2 ^ k)) \<longrightarrow> False"
  proof (intro impI)
    assume n: "(2::64 word) ^ 63 < n" and p: "p \<noteq> 0 \<longrightarrow> (\<exists>k\<le>63. p = 2 ^ k)"
    have small: "p \<le> 2 ^ 63 \<and> (push_bit 1 p \<noteq> 0 \<longrightarrow> (\<exists>k\<le>63. push_bit 1 p = 2 ^ k))"
    proof (cases "p = 0")
      case False
      then obtain k where k: "k \<le> 63" "p = 2 ^ k" using p by auto
      have "(2::64 word) ^ k \<le> 2 ^ 63" using k(1) by (simp add: word_le_nat_alt unat_pow2 power_increasing del: power_numeral)
      moreover have "push_bit 1 p \<noteq> 0 \<longrightarrow> (\<exists>k\<le>63. push_bit 1 p = 2 ^ k)"
      proof (cases "k = 63")
        case True
        then show ?thesis by (simp add: k(2) push_bit_eq_mult)
      next
        case False
        then show ?thesis using k push_bit_one_power [of k] by (intro impI exI [of _ "Suc k"]) auto
      qed
      ultimately show ?thesis by (simp add: k(2))
    qed simp
    then have "p < n" using n by (meson le_less_trans)
    then have "f n (push_bit 1 p) = Some r" using eq by simp
    then show False using IH n small by blast
  qed
qed

lemma ring_inv_replicate:
  assumes "k < 64"
  shows "ring_inv \<lparr>buffer = replicate (2 ^ k) t, ring_mask = 2 ^ k - 1, ring_head = h,
     ring_tail = h, drop_count = d\<rparr>"
  using assms by (auto simp: ring_inv_def ring_size_def)

subsection \<open>Draining\<close>

lemma drain_trades_returns:
  assumes "ring_inv r"
  shows "\<exists>r'. drain_trades r = Some (ring_list r, r') \<and> ring_inv r' \<and> ring_list r' = [] \<and>
     ring_capacity r' = ring_capacity r \<and> drop_count r' = drop_count r"
  using assms
proof (induction "ring_list r" arbitrary: r)
  case Nil
  then have "ring_pop r = (None, r)" using ring.pop_empty by simp
  then show ?case using Nil by (simp add: drain_trades.simps [of r])
next
  case (Cons t ts)
  obtain r1 where r1: "ring_pop r = (Some t, r1)" "ring_list r1 = ts" "drop_count r1 = drop_count r"
    "ring_inv r1" "ring_capacity r1 = ring_capacity r"
    using ring.pop_some [OF Cons.prems Cons.hyps(2) [symmetric]] ring.pop_inv [OF Cons.prems]
    by (cases "ring_pop r") auto
  with Cons.hyps(1) [of r1] show ?case
    by (auto simp: drain_trades.simps [of r] Cons.hyps(2) [symmetric])
qed

subsection \<open>Properties\<close>

text \<open>
  (C24) The trade ring is a lossless first-in first-out channel up to its capacity, whatever
  the position of its cursors (they may wrap past \<open>2 ^ 64\<close>): after any burst of pushes, draining
  the ring returns exactly the trades already queued followed by the pushed ones, in order and cut at
  the capacity, leaves the ring empty, and the drop counter has grown by exactly the number of
  trades cut off.
\<close>

theorem ring_burst_then_drain:
  assumes "ring_inv r"
  shows "\<exists>r'. drain_trades (fold (\<lambda>t s. snd (ring_push t s)) ts r)
       = Some (take (ring_capacity r) (ring_list r @ ts), r') \<and>
     ring_inv r' \<and> ring_empty r' \<and>
     drop_count r' = drop_count r + of_nat (length (ring_list r) + length ts - ring_capacity r)"
proof -
  let ?r = "fold (\<lambda>t s. snd (ring_push t s)) ts r"
  note burst = ring.push_many [OF assms, of ts]
  then obtain r' where "drain_trades ?r = Some (ring_list ?r, r')" "ring_inv r'" "ring_list r' = []"
      "drop_count r' = drop_count ?r"
    using drain_trades_returns [of ?r] by blast
  then show ?thesis using burst by (auto simp: ring_empty_iff)
qed

text \<open>A ring of two whose cursors stand one step before the wrap-around, and three pushes.\<close>

theorem ring_burst_then_drain_witness:
  "\<exists>r'. drain_trades (fold (\<lambda>t s. snd (ring_push t s))
         [zero_trade, zero_trade\<lparr>tr_seq := 1\<rparr>, zero_trade\<lparr>tr_seq := 2\<rparr>]
         \<lparr>buffer = replicate 2 zero_trade, ring_mask = 1, ring_head = 18446744073709551615,
          ring_tail = 18446744073709551615, drop_count = 0\<rparr>)
       = Some ([zero_trade, zero_trade\<lparr>tr_seq := 1\<rparr>], r') \<and>
     ring_inv r' \<and> ring_empty r' \<and> drop_count r' = 1"
proof -
  let ?r = "\<lparr>buffer = replicate 2 zero_trade, ring_mask = 1, ring_head = 18446744073709551615,
     ring_tail = 18446744073709551615, drop_count = 0\<rparr> :: trade_ring"
  have "ring_inv ?r" using ring_inv_replicate [of 1] by simp
  from ring_burst_then_drain [OF this, of "[zero_trade, zero_trade\<lparr>tr_seq := 1\<rparr>, zero_trade\<lparr>tr_seq := 2\<rparr>]"]
  show ?thesis by (simp add: ring_list_def ring_size_def ring_capacity_def)
qed

lemma trade_ring_new_returns:
  assumes "cap \<le> 2 ^ 57"
  shows "\<exists>r j. trade_ring_new cap = Some (Inr r) \<and> ring_inv r \<and> ring_list r = [] \<and> drop_count r = 0 \<and>
    ring_capacity r = 2 ^ j \<and> unat cap \<le> 2 ^ j \<and> (j = 0 \<or> 2 ^ (j - 1) < unat cap)"
proof -
  define n where "n = (if cap = 0 then 1 else cap)"
  have small: "n \<le> 2 ^ 57" using assms by (auto simp: n_def)
  then have "n \<le> 2 ^ 63" by (rule order_trans) simp
  then obtain j where j: "j \<le> 63" "round_up_loop n (2 ^ 0) = Some (2 ^ j)" "n \<le> 2 ^ j"
      "j = 0 \<or> 2 ^ (j - 1) < n"
    using round_up_loop_returns [of n 0] by auto
  have "unat n \<le> 2 ^ j" and least: "j = 0 \<or> 2 ^ (j - 1) < unat n"
    using j by (auto simp: word_le_nat_alt word_less_nat_alt unat_pow2)
  moreover have "unat cap \<le> unat n" "j \<noteq> 0 \<Longrightarrow> cap = n"
    using least by (auto simp: n_def split: if_splits)
  moreover have "j \<le> 57"
  proof (rule ccontr)
    assume big: "\<not> j \<le> 57"
    then have "(2::nat) ^ 57 \<le> 2 ^ (j - 1)" by (intro power_increasing) auto
    then show False using least big small by (simp add: word_le_nat_alt)
  qed
  then have "(2::nat) ^ j \<le> 2 ^ 57" by (intro power_increasing) auto
  then have "\<not> vector_max kTradeBytes < 2 ^ j" by (simp add: vector_max_def kTradeBytes_def)
  then have "trade_ring_new cap = Some (Inr \<lparr>buffer = replicate (2 ^ j) zero_trade, ring_mask = 2 ^ j - 1,
      ring_head = 0, ring_tail = 0, drop_count = 0\<rparr>)"
    using j(1,2) by (simp add: trade_ring_new_def round_up_pow2_def n_def unat_pow2)
  ultimately show ?thesis
    using j(1) ring_inv_replicate [of j]
    by (auto simp: ring_list_def ring_size_def ring_capacity_def)
qed

lemma trade_ring_new_loops:
  assumes big: "2 ^ 63 < cap"
  shows "trade_ring_new cap = None"
proof -
  have "cap \<noteq> 0" using big by auto
  moreover have "\<exists>k\<le>63. (1::64 word) = 2 ^ k" by (intro exI [of _ 0]) simp
  then have "round_up_loop cap 1 \<noteq> Some r" for r
    using round_up_loop_diverges [of cap 1 r] big by blast
  then have "round_up_pow2 cap = None" by (cases "round_up_loop cap 1") (auto simp: round_up_pow2_def)
  ultimately show ?thesis by (simp add: trade_ring_new_def)
qed

lemma trade_ring_new_throws:
  assumes "2 ^ 57 < cap" and "cap \<le> 2 ^ 63"
  shows "trade_ring_new cap = Some (Inl Length_error)"
proof -
  have "cap \<noteq> 0" using assms(1) by auto
  obtain j where j: "j \<le> 63" "round_up_loop cap (2 ^ 0) = Some (2 ^ j)" "cap \<le> 2 ^ j"
    using round_up_loop_returns [OF assms(2), of 0] by auto
  have "57 < j"
  proof (rule ccontr)
    assume "\<not> 57 < j"
    then have "(2::nat) ^ j \<le> 2 ^ 57" by (intro power_increasing) auto
    then show False using j assms(1) by (simp add: word_le_nat_alt word_less_nat_alt unat_pow2)
  qed
  then have "(2::nat) ^ 58 \<le> 2 ^ j" by (intro power_increasing) auto
  then have "vector_max kTradeBytes < 2 ^ j" by (simp add: vector_max_def kTradeBytes_def)
  then show ?thesis using j \<open>cap \<noteq> 0\<close> by (simp add: trade_ring_new_def round_up_pow2_def unat_pow2)
qed

text \<open>
  The constructor of the ring: for every requested capacity up to \<open>2 ^ 57\<close> it yields an empty ring that satisfies the
  invariant, whose capacity is the least power of two not below the request; up to \<open>2 ^ 63\<close> the rounding ends, but at more
  trades than a vector may hold; for a larger request the 64-bit shift loses the top bit, the loop variable becomes 0 and the
  constructor does not return.
\<close>

lemma trade_ring_new_outcome:
  "if cap \<le> 2 ^ 57
   then \<exists>r j. trade_ring_new cap = Some (Inr r) \<and> ring_inv r \<and> ring_list r = [] \<and> drop_count r = 0 \<and>
     ring_capacity r = 2 ^ j \<and> unat cap \<le> 2 ^ j \<and> (j = 0 \<or> 2 ^ (j - 1) < unat cap)
   else trade_ring_new cap = (if cap \<le> 2 ^ 63 then Some (Inl Length_error) else None)"
  using trade_ring_new_returns [of cap] trade_ring_new_throws [of cap] trade_ring_new_loops [of cap]
  by (cases "cap \<le> 2 ^ 57"; cases "cap \<le> 2 ^ 63") auto

end
