(* ===== verification/Order_Book.thy ===== *)
theory Order_Book
  imports Order_Queue Id_Index Trade_Ring
begin

section \<open>The matching engine (\<^verbatim>\<open>lob::OrderBook\<close>)\<close>

text \<open>
  The book as a record of its members and every operation of the class, with the state passed
  explicitly. A template parameter \<^verbatim>\<open>BookSide\<close> is the side it is instantiated for. A call that can
  throw or dereference a missing level returns a \<open>run\<close>; the loops of the matching path, which the
  code does not bound, are partial functions, so that returning at all is a theorem. The release
  build is modelled: \<^verbatim>\<open>check_invariants()\<close> does nothing inside the operations, and is modelled on its
  own as the function that says whether all of its assertions hold. A pool index is always the index of
  a live slot (\<^verbatim>\<open>book_wf\<close>), so that the unchecked reads of the pool are reads inside the vector.
\<close>

subsection \<open>Data\<close>

definition kAnonymous :: participant_id where
  "kAnonymous = 0"

datatype self_trade_policy = Allow | CancelResting | CancelIncoming

record order =
  ord_id :: order_id
  ord_owner :: participant_id
  ord_price :: price
  ord_qty :: quantity
  ord_side :: side

record exec_report =
  first_seq :: sequence_no
  trade_count :: "32 word"
  filled :: quantity
  remaining :: quantity
  stp_cancelled :: volume
  rested :: bool
  accepted :: bool
  stp_halted :: bool

definition new_report :: exec_report where
  "new_report = \<lparr>first_seq = 0, trade_count = 0, filled = 0, remaining = 0, stp_cancelled = 0,
     rested = False, accepted = True, stp_halted = False\<rparr>"

record config =
  self_trade :: self_trade_policy
  trade_capacity :: "64 word"
  pool_nodes :: bool
  expected_orders :: "64 word"
  price_levels :: "64 word"
  price_base :: "price option"

definition default_config :: config where
  "default_config = \<lparr>self_trade = CancelResting, trade_capacity = 4096, pool_nodes = True, expected_orders = 0,
     price_levels = 1024, price_base = None\<rparr>"

record book =
  pool :: order_slots
  bids :: price_ladder
  asks :: price_ladder
  order_index :: "32 word id_index"
  trade_out :: trade_ring
  policy :: self_trade_policy
  next_seq :: sequence_no

definition index_value :: "slot_index \<Rightarrow> side \<Rightarrow> 32 word" where
  "index_value slot sd = push_bit 1 slot OR (if sd = Sell then 1 else 0)"

definition slot_of :: "32 word \<Rightarrow> slot_index" where
  "slot_of v = drop_bit 1 v"

definition side_of :: "32 word \<Rightarrow> side" where
  "side_of v = (if v AND 1 \<noteq> 0 then Sell else Buy)"

text \<open>The ladder a \<^verbatim>\<open>BookSide&\<close> refers to, and the side a taker trades against.\<close>

definition is_bid :: "side \<Rightarrow> bool" where
  "is_bid sd \<longleftrightarrow> sd = Buy"

fun opposite :: "side \<Rightarrow> side" where
  "opposite Buy = Sell"
| "opposite Sell = Buy"

definition ladder_of :: "side \<Rightarrow> book \<Rightarrow> price_ladder" where
  "ladder_of sd b = (if sd = Buy then bids b else asks b)"

definition set_ladder :: "side \<Rightarrow> price_ladder \<Rightarrow> book \<Rightarrow> book" where
  "set_ladder sd L b = (if sd = Buy then b\<lparr>bids := L\<rparr> else b\<lparr>asks := L\<rparr>)"

subsection \<open>Construction\<close>

definition kDefaultPoolSlots :: "64 word" where
  "kDefaultPoolSlots = 1024"

text \<open>
  The bytes that the arena behind the fallback map, the first member, reserves: \<^verbatim>\<open>kBytesPerOrder\<close> is 64, and the product and the
  sum are 64-bit ones. (The arena itself is \<open>make_arena\<close> of \<open>Map_Allocator\<close>.)
\<close>

definition arena_request :: "config \<Rightarrow> nat" where
  "arena_request cfg =
     (let reserve = expected_orders cfg * 64 in
      if pool_nodes cfg \<and> reserve > 0 then max (unat (reserve + 16)) (64 * 1024) else 0)"

text \<open>A slot of the order pool has 32 bytes and a price level 16.\<close>

definition kSlotBytes :: nat where
  "kSlotBytes = 32"

definition kLevelBytes :: nat where
  "kLevelBytes = 16"

text \<open>The members of a new book, and the body of the constructor.\<close>

definition book_of_parts :: "config \<Rightarrow> order_slots \<Rightarrow> price_ladder \<Rightarrow> 32 word id_index \<Rightarrow> trade_ring \<Rightarrow> book" where
  "book_of_parts cfg P L ix ring =
     (let b = \<lparr>pool = P, bids = L, asks = L, order_index = ix, trade_out = ring, policy = self_trade cfg, next_seq = 1\<rparr>
      in case price_base cfg of
           None \<Rightarrow> b
         | Some base \<Rightarrow> b\<lparr>bids := ladder_place base (bids b), asks := ladder_place base (asks b)\<rparr>)"

text \<open>
  The constructor, on a system that grants the blocks of memory of \<open>grants\<close>. The members are constructed in the order of their
  declaration: the arena, the pool, the two ladders, the index and the ring.
\<close>

definition book_init :: "(nat \<Rightarrow> bool) \<Rightarrow> config \<Rightarrow> (fault + book) option" where
  "book_init grants cfg =
     (let expected = (if expected_orders cfg > 0 then expected_orders cfg else kDefaultPoolSlots);
          levels = unat (price_levels cfg) in
      construct (take_block grants (arena_request cfg)) (\<lambda>_.
      construct (take_vector grants kSlotBytes (unat expected)) (\<lambda>_.
      construct (take_vector grants kLevelBytes levels) (\<lambda>_.
      construct (take_vector grants kLevelBytes levels) (\<lambda>_.
      construct (ix_new expected) (\<lambda>ix.
      construct (take_block grants (kEntryBytes * length (table ix))) (\<lambda>_.
      construct (trade_ring_new (trade_capacity cfg)) (\<lambda>ring.
      construct (take_block grants (kTradeBytes * length (buffer ring))) (\<lambda>_.
        Some (Inr (book_of_parts cfg (pool_new zero_resting (unat expected)) (ladder_new levels) ix ring)))))))))))"

text \<open>
  The book that the constructor gives where the system has memory for it; \<open>None\<close> when the constructor throws or does not
  return. That is what the programs that use the book are modelled with.
\<close>

definition book_new :: "config \<Rightarrow> book option" where
  "book_new cfg = (case book_init (\<lambda>_. True) cfg of Some (Inr b) \<Rightarrow> Some b | _ \<Rightarrow> None)"

text \<open>The configurations whose vectors stay below \<^verbatim>\<open>max_size()\<close> (\<open>book_new_outcome\<close> shows that these are exactly the bounds).\<close>

definition allocatable :: "config \<Rightarrow> bool" where
  "allocatable cfg \<longleftrightarrow> expected_orders cfg \<le> 2 ^ 57 \<and> price_levels cfg < 2 ^ 59 \<and> trade_capacity cfg \<le> 2 ^ 57"

definition place_windows :: "price \<Rightarrow> book \<Rightarrow> book" where
  "place_windows p b =
     (let base = centred_base p (length (window (bids b))) in
      b\<lparr>bids := ladder_place base (bids b), asks := ladder_place base (asks b)\<rparr>)"

subsection \<open>Matching\<close>

definition crosses :: "side \<Rightarrow> price option \<Rightarrow> price \<Rightarrow> bool" where
  "crosses sd lim level_price =
     (case lim of None \<Rightarrow> True | Some l \<Rightarrow> if sd = Buy then level_price \<le> l else level_price \<ge> l)"

definition stp_possible :: "self_trade_policy \<Rightarrow> participant_id \<Rightarrow> bool" where
  "stp_possible pol owner \<longleftrightarrow> pol \<noteq> Allow \<and> owner \<noteq> kAnonymous"

text \<open>\<^verbatim>\<open>order_index.erase(id); detach(level, slot);\<close>\<close>

definition drop_order :: "order_id \<Rightarrow> price_level \<Rightarrow> slot_index \<Rightarrow> book \<Rightarrow> (price_level \<times> book) option" where
  "drop_order k level slot b =
     Option.bind (ix_erase (order_index b) k)
       (\<lambda>(_, ix). case detach level slot (pool b) of
          (level', P) \<Rightarrow> Some (level', b\<lparr>order_index := ix, pool := P\<rparr>))"

text \<open>The bookkeeping of one fill of \<open>traded\<close> at the head of the level.\<close>

definition record_fill :: "sequence_no \<Rightarrow> quantity \<Rightarrow> exec_report \<Rightarrow> exec_report" where
  "record_fill seq traded rep =
     (let rep1 = (if trade_count rep = 0 then rep\<lparr>first_seq := seq\<rparr> else rep) in
      rep1\<lparr>trade_count := trade_count rep1 + 1, filled := filled rep1 + traded\<rparr>)"

text \<open>
  The inner loop on the orders of one level. The reference to the level is the value \<open>level\<close>, which
  nothing else reads or writes while the loop runs; the outer loop stores it back.
\<close>

partial_function (option) match_level ::
  "bool \<Rightarrow> price \<Rightarrow> book \<Rightarrow> price_level \<Rightarrow> order \<Rightarrow> exec_report \<Rightarrow>
     (book \<times> price_level \<times> order \<times> exec_report) option" where
  "match_level stp level_price b level incoming rep =
     (if ord_qty incoming > 0 \<and> \<not> level_empty level then
        (let slot = lv_head level; resting = slot_value (slot_at (pool b) slot) in
         if stp \<and> ord_owner incoming = res_owner resting then
           (if policy b = CancelIncoming then Some (b, level, incoming, rep\<lparr>stp_halted := True\<rparr>)
            else Option.bind (drop_order (res_id resting) level slot b)
              (\<lambda>(level', b'). match_level stp level_price b' level' incoming
                 (rep\<lparr>stp_cancelled := stp_cancelled rep + ucast (res_qty resting)\<rparr>)))
         else
           (let traded = min (ord_qty incoming) (res_qty resting);
                incoming' = incoming\<lparr>ord_qty := ord_qty incoming - traded\<rparr>;
                resting' = resting\<lparr>res_qty := res_qty resting - traded\<rparr>;
                level' = level\<lparr>total_qty := total_qty level - ucast traded\<rparr>;
                t = \<lparr>tr_seq = next_seq b, tr_maker_id = res_id resting, tr_taker_id = ord_id incoming,
                     tr_price = level_price, tr_qty = traded, tr_taker_side = ord_side incoming\<rparr>;
                rep' = record_fill (next_seq b) traded rep;
                b' = b\<lparr>pool := upd_slot slot (\<lambda>s. s\<lparr>slot_value := resting'\<rparr>) (pool b),
                       next_seq := next_seq b + 1, trade_out := snd (ring_push t (trade_out b))\<rparr>
            in if res_qty resting' = 0
               then Option.bind (drop_order (res_id resting') level' slot b')
                 (\<lambda>(level'', b''). match_level stp level_price b'' level'' incoming' rep')
               else match_level stp level_price b' level' incoming' rep'))
      else Some (b, level, incoming, rep))"

text \<open>The outer loop on the levels of the side \<open>opp\<close>, best price first.\<close>

partial_function (option) match_side ::
  "bool \<Rightarrow> side \<Rightarrow> price option \<Rightarrow> order \<Rightarrow> exec_report \<Rightarrow> book \<Rightarrow> (order \<times> exec_report, book) run" where
  "match_side stp opp lim incoming rep b =
     (if ord_qty incoming > 0 then
        (case ladder_best (is_bid opp) (ladder_of opp b) of
           None \<Rightarrow> ret (incoming, rep) b
         | Some (level_price, level) \<Rightarrow>
             if \<not> crosses (ord_side incoming) lim level_price then ret (incoming, rep) b
             else Option.bind (match_level stp level_price b level incoming rep)
               (\<lambda>(b1, level1, incoming1, rep1).
                  let L = set_level level_price level1 (ladder_of opp b1) in
                  bind_run (if level_empty level1 then ladder_closed (is_bid opp) level_price L else ret () L)
                    (\<lambda>_ L1. let b2 = set_ladder opp L1 b1 in
                       if stp_halted rep1 then ret (incoming1, rep1) b2
                       else match_side stp opp lim incoming1 rep1 b2)
                    (\<lambda>L1. set_ladder opp L1 b1)))
      else ret (incoming, rep) b)"

definition match_order :: "side \<Rightarrow> order \<Rightarrow> price option \<Rightarrow> exec_report \<Rightarrow> book \<Rightarrow> (order \<times> exec_report, book) run" where
  "match_order opp incoming lim rep b =
     match_side (stp_possible (policy b) (ord_owner incoming)) opp lim incoming rep b"

subsection \<open>Inserting and removing\<close>

definition insert_order :: "side \<Rightarrow> order \<Rightarrow> book \<Rightarrow> (unit, book) run" where
  "insert_order sd ord b =
     (let b0 = (if \<not> is_placed (ladder_of sd b) then place_windows (ord_price ord) b else b);
          b1 = set_ladder sd (ladder_open (is_bid sd) (ord_price ord) (ladder_of sd b0)) b0
      in bind_run (acquire zero_resting (pool b1))
        (\<lambda>slot P.
           if slot \<ge> 2 ^ 31 then throw Length_error (b1\<lparr>pool := P\<rparr>)
           else
             (let r = \<lparr>res_id = ord_id ord, res_price = ord_price ord, res_qty = ord_qty ord,
                       res_owner = ord_owner ord\<rparr>;
                  P1 = upd_slot slot (\<lambda>s. s\<lparr>slot_value := r\<rparr>) P;
                  L = ladder_of sd b1
              in case append_slot (level_ref L (ord_price ord)) slot P1 of
                 (level, P2) \<Rightarrow>
                   let b2 = set_ladder sd (set_level (ord_price ord) level L) (b1\<lparr>pool := P2\<rparr>)
                   in bind_run (ix_insert (order_index b2) (ord_id ord) (index_value slot (ord_side ord)))
                     (\<lambda>_ ix. ret () (b2\<lparr>order_index := ix\<rparr>))
                     (\<lambda>ix. b2\<lparr>order_index := ix\<rparr>)))
        (\<lambda>P. b1\<lparr>pool := P\<rparr>))"

definition remove_order :: "side \<Rightarrow> slot_index \<Rightarrow> book \<Rightarrow> (unit, book) run" where
  "remove_order sd slot b =
     (let p = res_price (slot_value (slot_at (pool b) slot)); L = ladder_of sd b in
      case ladder_find L p of
        None \<Rightarrow> throw Undefined_behaviour b
      | Some level \<Rightarrow>
          (case detach level slot (pool b) of
             (level', P) \<Rightarrow>
               let L1 = set_level p level' L in
               bind_run (if level_empty level' then ladder_closed (is_bid sd) p L1 else ret () L1)
                 (\<lambda>_ L2. ret () (set_ladder sd L2 (b\<lparr>pool := P\<rparr>)))
                 (\<lambda>L2. set_ladder sd L2 (b\<lparr>pool := P\<rparr>))))"

subsection \<open>The public operations\<close>

definition submit :: "order_id \<Rightarrow> participant_id \<Rightarrow> side \<Rightarrow> price option \<Rightarrow> quantity \<Rightarrow> bool \<Rightarrow> book \<Rightarrow>
    (exec_report, book) run" where
  "submit k owner sd lim qty rest_leftover b =
     Option.bind (if qty = 0 then Some True else ix_contains (order_index b) k)
       (\<lambda>reject.
          if reject then ret (new_report\<lparr>accepted := False, remaining := qty\<rparr>) b
          else
            (let incoming = \<lparr>ord_id = k, ord_owner = owner,
                   ord_price = (case lim of None \<Rightarrow> 0 | Some p \<Rightarrow> p), ord_qty = qty, ord_side = sd\<rparr>
             in bind_run (match_order (opposite sd) incoming lim new_report b)
               (\<lambda>(incoming1, rep) b1.
                  let rep1 = rep\<lparr>remaining := ord_qty incoming1\<rparr> in
                  if rest_leftover \<and> ord_qty incoming1 > 0 \<and> \<not> stp_halted rep1
                  then bind_run (insert_order sd incoming1 b1)
                    (\<lambda>_ b2. ret (rep1\<lparr>rested := True\<rparr>) b2) (\<lambda>s. s)
                  else ret rep1 b1)
               (\<lambda>s. s)))"

definition add_limit :: "order_id \<Rightarrow> participant_id \<Rightarrow> side \<Rightarrow> price \<Rightarrow> quantity \<Rightarrow> book \<Rightarrow> (exec_report, book) run" where
  "add_limit k owner sd p qty b = submit k owner sd (Some p) qty True b"

definition add_limit_anonymous :: "order_id \<Rightarrow> side \<Rightarrow> price \<Rightarrow> quantity \<Rightarrow> book \<Rightarrow> (exec_report, book) run" where
  "add_limit_anonymous k sd p qty b = submit k kAnonymous sd (Some p) qty True b"

definition add_market :: "order_id \<Rightarrow> participant_id \<Rightarrow> side \<Rightarrow> quantity \<Rightarrow> book \<Rightarrow> (exec_report, book) run" where
  "add_market k owner sd qty b = submit k owner sd None qty False b"

definition add_market_anonymous :: "order_id \<Rightarrow> side \<Rightarrow> quantity \<Rightarrow> book \<Rightarrow> (exec_report, book) run" where
  "add_market_anonymous k sd qty b = submit k kAnonymous sd None qty False b"

definition cancel :: "order_id \<Rightarrow> book \<Rightarrow> (bool, book) run" where
  "cancel k b =
     Option.bind (ix_take (order_index b) k)
       (\<lambda>(r, ix). case r of
          None \<Rightarrow> ret False b
        | Some entry \<Rightarrow>
            bind_run (remove_order (side_of entry) (slot_of entry) (b\<lparr>order_index := ix\<rparr>))
              (\<lambda>_ b1. ret True b1) (\<lambda>s. s))"

definition modify :: "order_id \<Rightarrow> price \<Rightarrow> quantity \<Rightarrow> book \<Rightarrow> (exec_report, book) run" where
  "modify k new_price new_qty b =
     Option.bind (ix_find (order_index b) k)
       (\<lambda>r. case r of
          None \<Rightarrow> ret (new_report\<lparr>accepted := False, remaining := new_qty\<rparr>) b
        | Some entry \<Rightarrow>
            (let sd = side_of entry; owner = res_owner (slot_value (slot_at (pool b) (slot_of entry))) in
             bind_run (cancel k b)
               (\<lambda>_ b1. if new_qty = 0 then ret new_report b1
                       else add_limit k owner sd new_price new_qty b1)
               (\<lambda>s. s)))"

subsection \<open>Queries\<close>

definition best_bid :: "book \<Rightarrow> price option" where
  "best_bid b = best_price True (bids b)"

definition best_ask :: "book \<Rightarrow> price option" where
  "best_ask b = best_price False (asks b)"

definition qty_at :: "side \<Rightarrow> price \<Rightarrow> book \<Rightarrow> volume" where
  "qty_at sd p b = (case ladder_find (ladder_of sd b) p of None \<Rightarrow> 0 | Some l \<Rightarrow> total_qty l)"

text \<open>\<^verbatim>\<open>for (i = level.head; i != kNoSlot; i = pool[i].next)\<close>, collecting the slots it visits.\<close>

partial_function (option) queue_loop :: "order_slots \<Rightarrow> slot_index \<Rightarrow> slot_index list option" where
  "queue_loop P i =
     (if i = kNoSlot then Some []
      else Option.bind (queue_loop P (slot_next (slot_at P i))) (\<lambda>xs. Some (i # xs)))"

definition order_count_at :: "side \<Rightarrow> price \<Rightarrow> book \<Rightarrow> nat option" where
  "order_count_at sd p b =
     (case ladder_find (ladder_of sd b) p of
        None \<Rightarrow> Some 0
      | Some l \<Rightarrow> map_option length (queue_loop (pool b) (lv_head l)))"

definition api_order :: "side \<Rightarrow> resting_order \<Rightarrow> order" where
  "api_order sd r = \<lparr>ord_id = res_id r, ord_owner = res_owner r, ord_price = res_price r,
     ord_qty = res_qty r, ord_side = sd\<rparr>"

definition find_order :: "order_id \<Rightarrow> book \<Rightarrow> order option option" where
  "find_order k b =
     map_option (map_option (\<lambda>entry.
         api_order (side_of entry) (slot_value (slot_at (pool b) (slot_of entry)))))
       (ix_find (order_index b) k)"

definition book_size :: "book \<Rightarrow> nat" where
  "book_size b = ix_size (order_index b)"

definition book_empty :: "book \<Rightarrow> bool" where
  "book_empty b \<longleftrightarrow> ix_size (order_index b) = 0"

fun visit_levels :: "order_slots \<Rightarrow> side \<Rightarrow> (price \<times> price_level) list \<Rightarrow> order list option" where
  "visit_levels P sd [] = Some []"
| "visit_levels P sd ((p, l) # ls) =
     Option.bind (queue_loop P (lv_head l))
       (\<lambda>xs. Option.bind (visit_levels P sd ls)
          (\<lambda>os. Some (map (\<lambda>i. api_order sd (slot_value (slot_at P i))) xs @ os)))"

text \<open>\<^verbatim>\<open>for_each_resting\<close>: the orders in the order in which the callback sees them.\<close>

definition for_each_resting :: "book \<Rightarrow> order list option" where
  "for_each_resting b =
     Option.bind (visit_levels (pool b) Buy (for_each_level True (bids b)))
       (\<lambda>xs. Option.bind (visit_levels (pool b) Sell (for_each_level False (asks b)))
          (\<lambda>ys. Some (xs @ ys)))"

definition price_window_base :: "book \<Rightarrow> price option" where
  "price_window_base b = (if is_placed (bids b) then Some (lo (bids b)) else None)"

definition price_window_levels :: "book \<Rightarrow> nat" where
  "price_window_levels b = limit (bids b)"

definition levels_opened_outside_window :: "book \<Rightarrow> 64 word" where
  "levels_opened_outside_window b = outside_opens (bids b) + outside_opens (asks b)"

subsection \<open>The debug build's invariant check\<close>

text \<open>
  The walk along one queue: \<open>Some None\<close> when an assertion fails, otherwise the last slot, the sum and
  the number of orders.
\<close>

partial_function (option) check_queue ::
  "book \<Rightarrow> side \<Rightarrow> price \<Rightarrow> slot_index \<Rightarrow> slot_index \<Rightarrow> volume \<Rightarrow> nat \<Rightarrow>
     (slot_index \<times> volume \<times> nat) option option" where
  "check_queue b sd p i prev acc n =
     (if i = kNoSlot then Some (Some (prev, acc, n))
      else
        (let s = slot_at (pool b) i; o' = slot_value s in
         if \<not> (slot_prev s = prev \<and> res_price o' = p \<and> res_qty o' > 0) then Some None
         else Option.bind (ix_find (order_index b) (res_id o'))
           (\<lambda>indexed. case indexed of
              None \<Rightarrow> Some None
            | Some entry \<Rightarrow>
                if slot_of entry = i \<and> side_of entry = sd
                then check_queue b sd p (slot_next s) i (acc + ucast (res_qty o')) (n + 1)
                else Some None)))"

fun check_levels :: "book \<Rightarrow> side \<Rightarrow> (price \<times> price_level) list \<Rightarrow> nat \<Rightarrow> nat option option" where
  "check_levels b sd [] counted = Some (Some counted)"
| "check_levels b sd ((p, l) # ls) counted =
     (if level_empty l then Some None
      else Option.bind (check_queue b sd p (lv_head l) kNoSlot 0 0)
        (\<lambda>r. case r of
           None \<Rightarrow> Some None
         | Some (prev, acc, n) \<Rightarrow>
             if prev = lv_tail l \<and> acc = total_qty l \<and> total_qty l > 0
             then check_levels b sd ls (counted + n)
             else Some None))"

definition check_side :: "book \<Rightarrow> side \<Rightarrow> nat \<Rightarrow> nat option option" where
  "check_side b sd counted =
     (if ladder_check (is_bid sd) (ladder_of sd b)
      then check_levels b sd (for_each_level (is_bid sd) (ladder_of sd b)) counted
      else Some None)"

definition check_invariants :: "book \<Rightarrow> bool option" where
  "check_invariants b =
     Option.bind (check_side b Buy 0)
       (\<lambda>r. case r of None \<Rightarrow> Some False | Some c1 \<Rightarrow>
          Option.bind (check_side b Sell c1)
            (\<lambda>r. case r of None \<Rightarrow> Some False | Some counted \<Rightarrow>
               Option.bind (ix_consistent (order_index b))
                 (\<lambda>ok. Some (counted = ix_size (order_index b) \<and> pool_size (pool b) = counted \<and>
                    pool_consistent (pool b) \<and> ok \<and>
                    (case (best_bid b, best_ask b) of (Some bid, Some ask) \<Rightarrow> bid < ask | _ \<Rightarrow> True)))))"

end
