(* ===== verification/Book_Invariant.thy ===== *)
theory Book_Invariant
  imports Order_Book
begin

section \<open>The invariant of the order book\<close>

text \<open>
  What ties the members of the book together: every level's queue is a list of live slots, every live
  slot is in exactly one queue, and the id index holds exactly the queued orders, each with its slot
  and side. The part about the pool, the index and the queues (\<open>core_wf\<close>) is stated for any lookup
  \<open>F\<close> of levels, because the matching loop works on one level while the ladder still holds its old
  value; \<open>book_wf\<close> states it for the ladders of a book. \<open>Q sd p\<close> is the list of slots resting at price
  \<open>p\<close>, oldest first. The lemmas show what detaching, filling and inserting an order do to it.
\<close>

subsection \<open>The value of an index entry\<close>

lemma index_value_roundtrip:
  assumes "unat x < 2 ^ 31"
  shows "slot_of (index_value x sd) = x" "side_of (index_value x sd) = sd"
proof -
  have "unat (take_bit 31 x) = unat x"
    using assms by (simp add: unsigned_take_bit_eq take_bit_nat_eq_self_iff)
  then have "take_bit 31 x = x" by (simp add: word_unat_eq_iff)
  then have top: "\<not> bit x 31" by (metis bit_take_bit_iff less_irrefl)
  have "bit (drop_bit 1 (push_bit 1 x OR (if sd = Sell then 1 else 0))) n = bit x n" if "n < 32" for n
    unfolding bit_drop_bit_eq comp_def bit_or_iff bit_push_bit_iff
    using that top by (cases "n = 31") (auto simp: bit_1_iff)
  then show "slot_of (index_value x sd) = x"
    unfolding slot_of_def index_value_def by (intro bit_word_eqI) simp
  show "side_of (index_value x sd) = sd"
  proof (cases sd)
    case Buy
    have "(push_bit 1 x OR 0) AND 1 = (0 :: 32 word)"
      by (rule bit_word_eqI) (unfold bit_and_iff bit_or_iff bit_push_bit_iff, auto simp: bit_1_iff)
    then show ?thesis using Buy by (simp add: side_of_def index_value_def)
  next
    case Sell
    have "(push_bit 1 x OR 1) AND 1 = (1 :: 32 word)"
      by (rule bit_word_eqI) (unfold bit_and_iff bit_or_iff bit_push_bit_iff, auto simp: bit_1_iff)
    then show ?thesis using Sell by (simp add: side_of_def index_value_def)
  qed
qed

subsection \<open>Definitions\<close>

type_synonym queues = "side \<Rightarrow> price \<Rightarrow> slot_index list"
type_synonym level_lookup = "side \<Rightarrow> price \<Rightarrow> price_level option"

definition all_slots :: "queues \<Rightarrow> slot_index set" where
  "all_slots Q = {x. \<exists>sd p. x \<in> set (Q sd p)}"

definition level_ok :: "order_slots \<Rightarrow> price_level option \<Rightarrow> slot_index list \<Rightarrow> bool" where
  "level_ok P f xs \<longleftrightarrow> (case f of None \<Rightarrow> xs = [] | Some l \<Rightarrow> xs \<noteq> [] \<and> is_queue P l xs)"

definition core_wf :: "order_slots \<Rightarrow> 32 word id_index \<Rightarrow> level_lookup \<Rightarrow> queues \<Rightarrow> bool" where
  "core_wf P ix F Q \<longleftrightarrow> pool_inv P \<and> pool_used P \<le> 2 ^ 31 \<and> ix_inv ix \<and>
     (\<forall>sd p. level_ok P (F sd p) (Q sd p)) \<and> live_slots P = all_slots Q \<and>
     (\<forall>sd p. \<forall>x\<in>set (Q sd p). res_price (value_at P x) = p \<and>
        ix_map ix (res_id (value_at P x)) = Some (index_value x sd)) \<and>
     (\<forall>k v. ix_map ix k = Some v \<longrightarrow>
        (\<exists>sd p x. x \<in> set (Q sd p) \<and> v = index_value x sd \<and> res_id (value_at P x) = k))"

definition qtys_pos :: "order_slots \<Rightarrow> queues \<Rightarrow> bool" where
  "qtys_pos P Q \<longleftrightarrow> (\<forall>x\<in>all_slots Q. res_qty (value_at P x) > 0)"

abbreviation upd2 :: "('a \<Rightarrow> 'b \<Rightarrow> 'c) \<Rightarrow> 'a \<Rightarrow> 'b \<Rightarrow> 'c \<Rightarrow> 'a \<Rightarrow> 'b \<Rightarrow> 'c" where
  "upd2 f s p v \<equiv> f(s := (f s)(p := v))"

abbreviation find_of :: "book \<Rightarrow> level_lookup" where
  "find_of b \<equiv> \<lambda>sd. ladder_find (ladder_of sd b)"

definition uncrossed :: "queues \<Rightarrow> bool" where
  "uncrossed Q \<longleftrightarrow> (\<forall>p q. Q Buy p \<noteq> [] \<longrightarrow> Q Sell q \<noteq> [] \<longrightarrow> p < q)"

definition ladders_wf :: "book \<Rightarrow> bool" where
  "ladders_wf b \<longleftrightarrow> (\<forall>sd. ladder_inv (is_bid sd) (ladder_of sd b)) \<and> is_placed (bids b) = is_placed (asks b)"

definition book_wf :: "book \<Rightarrow> queues \<Rightarrow> bool" where
  "book_wf b Q \<longleftrightarrow> core_wf (pool b) (order_index b) (find_of b) Q \<and> qtys_pos (pool b) Q \<and>
     ring_inv (trade_out b) \<and> ladders_wf b \<and> uncrossed Q"

subsection \<open>Consequences\<close>

lemma core_wfD:
  assumes "core_wf P ix F Q"
  shows "pool_inv P" "pool_used P \<le> 2 ^ 31" "ix_inv ix" "level_ok P (F sd p) (Q sd p)"
    "live_slots P = all_slots Q"
    "x \<in> set (Q sd p) \<Longrightarrow> res_price (value_at P x) = p"
    "x \<in> set (Q sd p) \<Longrightarrow> ix_map ix (res_id (value_at P x)) = Some (index_value x sd)"
    "ix_map ix k = Some v \<Longrightarrow> \<exists>sd p x. x \<in> set (Q sd p) \<and> v = index_value x sd \<and> res_id (value_at P x) = k"
  using assms unfolding core_wf_def by blast+

lemma core_wfI:
  assumes "pool_inv P" "pool_used P \<le> 2 ^ 31" "ix_inv ix" "\<And>sd p. level_ok P (F sd p) (Q sd p)"
    "live_slots P = all_slots Q"
    "\<And>x sd p. x \<in> set (Q sd p) \<Longrightarrow> res_price (value_at P x) = p"
    "\<And>x sd p. x \<in> set (Q sd p) \<Longrightarrow> ix_map ix (res_id (value_at P x)) = Some (index_value x sd)"
    "\<And>k v. ix_map ix k = Some v \<Longrightarrow> \<exists>sd p x. x \<in> set (Q sd p) \<and> v = index_value x sd \<and> res_id (value_at P x) = k"
  shows "core_wf P ix F Q"
  using assms unfolding core_wf_def by blast

lemma queued_slot:
  assumes wf: "core_wf P ix F Q" and x: "x \<in> set (Q sd p)"
  shows "x \<in> live_slots P" "x \<noteq> kNoSlot" "unat x < 2 ^ 31" "slot_of (index_value x sd) = x"
    "side_of (index_value x sd) = sd" "unat x < length (slots P)"
proof -
  note d = core_wfD [OF wf]
  show l: "x \<in> live_slots P" using x d(5) by (auto simp: all_slots_def)
  note lb = live_slot_bounds [OF d(1) l]
  show "x \<noteq> kNoSlot" "unat x < length (slots P)" "unat x < 2 ^ 31" using lb(1,2,3) d(2) by auto
  then show "slot_of (index_value x sd) = x" "side_of (index_value x sd) = sd"
    using index_value_roundtrip by auto
qed

text \<open>A slot is in one queue only, and an id belongs to one slot only.\<close>

lemma queued_once:
  assumes wf: "core_wf P ix F Q" and x: "x \<in> set (Q sd p)" "x \<in> set (Q sd' p')"
  shows "sd = sd'" "p = p'"
proof -
  note d = core_wfD [OF wf]
  show "p = p'" using d(6) [OF x(1)] d(6) [OF x(2)] by simp
  have "index_value x sd = index_value x sd'" using d(7) [OF x(1)] d(7) [OF x(2)] by simp
  then show "sd = sd'" using queued_slot(5) [OF wf x(1)] queued_slot(5) [OF wf x(2)] by metis
qed

lemma queued_id_inj:
  assumes wf: "core_wf P ix F Q" and x: "x \<in> set (Q sd p)" "y \<in> set (Q sd' p')"
    and "res_id (value_at P x) = res_id (value_at P y)"
  shows "x = y"
proof -
  note d = core_wfD [OF wf]
  have "index_value x sd = index_value y sd'" using d(7) [OF x(1)] d(7) [OF x(2)] assms(4) by simp
  then show "x = y" using queued_slot(4) [OF wf x(1)] queued_slot(4) [OF wf x(2)] by metis
qed

lemma queue_facts:
  assumes wf: "core_wf P ix F Q"
  shows "distinct (Q sd p)" "F sd p = None \<longleftrightarrow> Q sd p = []"
    "F sd p = Some l \<Longrightarrow> is_queue P l (Q sd p) \<and> Q sd p \<noteq> [] \<and> \<not> level_empty l"
    "set (Q sd p) \<subseteq> live_slots P"
proof -
  note d = core_wfD [OF wf]
  note lo = d(4) [of sd p, unfolded level_ok_def]
  show "F sd p = None \<longleftrightarrow> Q sd p = []" using lo by (cases "F sd p") auto
  show "distinct (Q sd p)" using lo by (cases "F sd p") (auto simp: is_queue_def)
  show sub: "set (Q sd p) \<subseteq> live_slots P" using queued_slot(1) [OF wf] by blast
  have "kNoSlot \<notin> set (Q sd p)" using queued_slot(2) [OF wf] by blast
  then show "is_queue P l (Q sd p) \<and> Q sd p \<noteq> [] \<and> \<not> level_empty l" if "F sd p = Some l"
    using lo that is_queue_empty_iff [of P l "Q sd p"] by simp
qed

text \<open>The index, the pool and the queues count the same orders.\<close>

lemma core_counts:
  assumes wf: "core_wf P ix F Q"
  shows "ix_size ix = card (all_slots Q)" "pool_size P = card (all_slots Q)"
proof -
  note d = core_wfD [OF wf]
  show "pool_size P = card (all_slots Q)"
    using card_live_slots [OF d(1)] d(5) by (simp add: pool_size_def)
  have "inj_on (\<lambda>x. res_id (value_at P x)) (all_slots Q)"
    using queued_id_inj [OF wf] by (auto simp: inj_on_def all_slots_def)
  moreover have "(\<lambda>x. res_id (value_at P x)) ` all_slots Q = dom (ix_map ix)"
    using d(7,8) by (fastforce simp: all_slots_def)
  ultimately show "ix_size ix = card (all_slots Q)"
    using ix_size_card [OF d(3)] card_image by metis
qed

subsection \<open>Detaching, filling, inserting\<close>

lemma level_ok_cong:
  "level_ok P f xs \<Longrightarrow> (\<And>x. x \<in> set xs \<Longrightarrow> slot_at P' x = slot_at P x) \<Longrightarrow> level_ok P' f xs"
  by (auto simp: level_ok_def intro: is_queue_cong split: option.splits)

text \<open>Taking an order out of the book: its entry leaves the index and its slot the queue and the pool.\<close>

lemma core_detach:
  assumes wf: "core_wf P ix F Q" and f: "F sd p = Some l" and q: "Q sd p = xs @ x # ys"
    and ix: "ix_inv ix'" "ix_map ix' = (ix_map ix)(res_id (value_at P x) := None)"
  obtains l' P' where "detach l x P = (l', P')"
    "core_wf P' ix' (upd2 F sd p (if xs @ ys = [] then None else Some l')) (upd2 Q sd p (xs @ ys))"
    "level_empty l' \<longleftrightarrow> xs @ ys = []" "xs @ ys = [] \<Longrightarrow> l' = empty_level"
    "\<And>y. y \<noteq> x \<Longrightarrow> value_at P' y = value_at P y"
proof -
  note d = core_wfD [OF wf] and qf = queue_facts [OF wf]
  obtain l' P' where det: "detach l x P = (l', P')" "is_queue P' l' (xs @ ys)" "pool_inv P'"
      "live_slots P' = live_slots P - {x}" "pool_used P' = pool_used P"
    and val: "\<And>y. y \<noteq> x \<Longrightarrow> value_at P' y = value_at P y"
    and at: "\<And>y. y \<notin> set (xs @ x # ys) \<Longrightarrow> slot_at P' y = slot_at P y"
    using detach_spec [OF d(1), of l xs x ys] qf(3) [OF f] qf(4) [of sd p] q by auto
  let ?Q = "upd2 Q sd p (xs @ ys)"
  have x: "x \<in> set (Q sd p)" using q by simp
  have in_Q: "y \<in> set (Q s r) \<and> y \<noteq> x" if "y \<in> set (?Q s r)" for y s r
    using that qf(1) [of sd p] q queued_once [OF wf x, of s r] by (auto split: if_splits)
  have out_Q: "y \<in> set (?Q s r)" if "y \<in> set (Q s r)" "y \<noteq> x" for y s r
    using that q by auto
  have ne: "kNoSlot \<notin> set (xs @ ys)" using queued_slot(2) [OF wf] q by (metis in_Q fun_upd_same)
  have emp: "level_empty l' \<longleftrightarrow> xs @ ys = []" using is_queue_empty_iff [OF det(2) ne] .
  have "core_wf P' ix' (upd2 F sd p (if xs @ ys = [] then None else Some l')) ?Q"
  proof (rule core_wfI)
    fix s r
    show "level_ok P' (upd2 F sd p (if xs @ ys = [] then None else Some l') s r) (?Q s r)"
    proof (cases "s = sd \<and> r = p")
      case True
      then show ?thesis using det(2) by (auto simp: level_ok_def)
    next
      case False
      have "slot_at P' y = slot_at P y" if "y \<in> set (Q s r)" for y
        using at [of y] queued_once [OF wf that, of sd p] q False by auto
      then show ?thesis using level_ok_cong [OF d(4) [of s r]] False by auto
    qed
  next
    show "live_slots P' = all_slots ?Q"
    proof (intro equalityI subsetI)
      fix y
      assume "y \<in> live_slots P'"
      then obtain s r where "y \<in> set (Q s r)" "y \<noteq> x" using det(4) d(5) by (auto simp: all_slots_def)
      then show "y \<in> all_slots ?Q" using out_Q unfolding all_slots_def by blast
    next
      fix y
      assume "y \<in> all_slots ?Q"
      then obtain s r where "y \<in> set (?Q s r)" unfolding all_slots_def by blast
      from in_Q [OF this] show "y \<in> live_slots P'" using det(4) d(5) by (auto simp: all_slots_def)
    qed
  next
    fix y s r
    assume y: "y \<in> set (?Q s r)"
    note yq = in_Q [OF y]
    show "res_price (value_at P' y) = r" using val [of y] d(6) [of y s r] yq by simp
    have "res_id (value_at P x) \<noteq> res_id (value_at P y)"
      using queued_id_inj [OF wf x, of y s r] yq by blast
    then show "ix_map ix' (res_id (value_at P' y)) = Some (index_value y s)"
      using d(7) [of y s r] yq by (simp add: val ix(2))
  next
    fix k v
    assume "ix_map ix' k = Some v"
    then have k: "k \<noteq> res_id (value_at P x)" "ix_map ix k = Some v" using ix(2) by (auto split: if_splits)
    obtain s r y where y: "y \<in> set (Q s r)" "v = index_value y s" "res_id (value_at P y) = k"
      using d(8) [OF k(2)] by blast
    then have "y \<noteq> x" using k(1) by auto
    then show "\<exists>s r y. y \<in> set (?Q s r) \<and> v = index_value y s \<and> res_id (value_at P' y) = k"
      using y out_Q [OF y(1)] val by metis
  qed (use det d ix in auto)
  moreover have "l' = empty_level" if "xs @ ys = []" using det(2) that is_queue_Nil by auto
  ultimately show thesis using that [OF det(1) _ emp] val by blast
qed

text \<open>Reducing the quantity of the order at the head of a level.\<close>

lemma core_fill:
  assumes wf: "core_wf P ix F Q" and f: "F sd p = Some l" and q: "Q sd p = x # ys"
    and t: "t \<le> res_qty (value_at P x)"
    and r: "r = (value_at P x)\<lparr>res_qty := res_qty (value_at P x) - t\<rparr>"
  shows "core_wf (upd_slot x (\<lambda>s. s\<lparr>slot_value := r\<rparr>) P) ix
      (upd2 F sd p (Some (l\<lparr>total_qty := total_qty l - ucast t\<rparr>))) Q"
    "value_at (upd_slot x (\<lambda>s. s\<lparr>slot_value := r\<rparr>) P) y = (if y = x then r else value_at P y)"
proof -
  note d = core_wfD [OF wf] and qf = queue_facts [OF wf]
  have x: "x \<in> set (Q sd p)" using q by simp
  define P' where "P' = upd_slot x (\<lambda>s. s\<lparr>slot_value := r\<rparr>) P"
  note u = upd_live_inv [OF d(1) queued_slot(1) [OF wf x], of "\<lambda>s. s\<lparr>slot_value := r\<rparr>", folded P'_def]
  have val: "value_at P' y = (if y = x then r else value_at P y)" for y using u(3) by simp
  then show "value_at (upd_slot x (\<lambda>s. s\<lparr>slot_value := r\<rparr>) P) y = (if y = x then r else value_at P y)"
    unfolding P'_def .
  let ?l = "l\<lparr>total_qty := total_qty l - ucast t\<rparr>"
  have iq: "is_queue P l (x # ys)" using qf(3) [OF f] q by simp
  have same: "seg P' p0 zs n = seg P p0 zs n" for p0 zs n by (rule seg_cong) (simp add: u(3))
  have "queue_total P' ys = queue_total P ys"
    by (rule queue_total_cong) (use iq val in \<open>auto simp: is_queue_def\<close>)
  then have "is_queue P' ?l (x # ys)"
    using iq same ucast_diff [OF t] by (simp add: is_queue_def u(3) r)
  moreover have "slot_at P' y = slot_at P y" if "y \<in> set (Q s rr)" "(s, rr) \<noteq> (sd, p)" for y s rr
    using u(3) queued_once [OF wf x, of s rr] that by auto
  ultimately have lv: "level_ok P' (upd2 F sd p (Some ?l) s rr) (Q s rr)" for s rr
    using level_ok_cong [OF d(4) [of s rr], of P'] q by (auto simp: level_ok_def)
  have fields: "res_price (value_at P' y) = res_price (value_at P y)" "res_id (value_at P' y) = res_id (value_at P y)" for y
    using val r by auto
  have "core_wf P' ix (upd2 F sd p (Some ?l)) Q"
    by (rule core_wfI) (use d u lv fields in \<open>auto simp: P'_def\<close>)
  then show "core_wf (upd_slot x (\<lambda>s. s\<lparr>slot_value := r\<rparr>) P) ix (upd2 F sd p (Some ?l)) Q"
    unfolding P'_def .
qed

text \<open>A new order at the back of its level's queue, the level fresh or not.\<close>

lemma core_insert:
  assumes wf: "core_wf P ix F Q" and room: "pool_live P < 2 ^ 31" and new: "ix_map ix (res_id r) = None"
    and p: "res_price r = p"
  obtains x P1 l' P2 ix' where "acquire zero_resting P = ret x P1" "unat x < 2 ^ 31" "x \<notin> all_slots Q"
    "append_slot (case F sd p of None \<Rightarrow> empty_level | Some l \<Rightarrow> l) x
       (upd_slot x (\<lambda>s. s\<lparr>slot_value := r\<rparr>) P1) = (l', P2)"
    "\<not> level_empty l'" "ix_insert ix (res_id r) (index_value x sd) = ret () ix'"
    "core_wf P2 ix' (upd2 F sd p (Some l')) (upd2 Q sd p (Q sd p @ [x]))"
    "value_at P2 x = r" "\<And>y. y \<in> all_slots Q \<Longrightarrow> value_at P2 y = value_at P y"
proof -
  note d = core_wfD [OF wf] and qf = queue_facts [OF wf]
  obtain x P1 where acq: "acquire zero_resting P = ret x P1" "x \<notin> live_slots P"
      "live_slots P1 = insert x (live_slots P)" "pool_inv P1" "\<forall>j\<in>live_slots P. slot_at P1 j = slot_at P j"
      "pool_used P1 = max (pool_used P) (pool_live P + 1)" "unat x < pool_used P1"
    using acquire_spec [OF d(1), of zero_resting] room by auto
  have used: "pool_used P1 \<le> 2 ^ 31" using acq(6) d(2) room by simp
  have xl: "x \<in> live_slots P1" using acq(3) by simp
  define P1' where "P1' = upd_slot x (\<lambda>s. s\<lparr>slot_value := r\<rparr>) P1"
  note u = upd_live_inv [OF acq(4) xl, of "\<lambda>s. s\<lparr>slot_value := r\<rparr>", folded P1'_def]
  have keep: "slot_at P1' y = slot_at P y" if "y \<in> live_slots P" for y
    using u(3) acq(2,5) that by auto
  define l where "l = (case F sd p of None \<Rightarrow> empty_level | Some l \<Rightarrow> l)"
  have "is_queue P l (Q sd p)"
    using qf(2,3) [of sd p] is_queue_Nil by (cases "F sd p") (auto simp: l_def)
  then have iq: "is_queue P1' l (Q sd p)" by (rule is_queue_cong) (use keep qf(4) in auto)
  have xq: "x \<notin> set (Q s rr)" for s rr using qf(4) acq(2) by auto
  have xl': "x \<in> live_slots P1'" using u(2) xl by simp
  have sub: "set (Q sd p) \<subseteq> live_slots P1'" using qf(4) u(2) acq(3) by auto
  obtain l' P2 where app: "append_slot l x P1' = (l', P2)" "is_queue P2 l' (Q sd p @ [x])"
      "pool_inv P2" "live_slots P2 = live_slots P1'" "pool_used P2 = pool_used P1'"
    and v2: "\<And>y. value_at P2 y = value_at P1' y"
    and at2: "\<And>y. y \<notin> set (Q sd p @ [x]) \<Longrightarrow> slot_at P2 y = slot_at P1' y"
    using append_slot_spec [OF u(1) iq xl' xq sub] by blast
  have "ix_count ix < 2 ^ 56"
    using core_counts [OF wf] room by (simp add: ix_size_def pool_size_def)
  then obtain ix' where ix': "ix_insert ix (res_id r) (index_value x sd) = ret () ix'" "ix_inv ix'"
      "ix_map ix' = (ix_map ix)(res_id r \<mapsto> index_value x sd)"
    using ix_insert_spec [OF d(3) new] by blast
  let ?Q = "upd2 Q sd p (Q sd p @ [x])"
  have in_Q: "y = x \<and> s = sd \<and> rr = p \<or> y \<in> set (Q s rr)" if "y \<in> set (?Q s rr)" for y s rr
    using that by (auto split: if_splits)
  have val: "value_at P2 y = value_at P y" if "y \<in> set (Q s rr)" for y s rr
    using v2 keep [of y] qf(4) [of s rr] that by auto
  have valx: "value_at P2 x = r" using v2 u(3) by simp
  have ne: "kNoSlot \<notin> set (Q sd p @ [x])"
    using live_slot_bounds(3) [OF acq(4) xl] queued_slot(2) [OF wf] by auto
  have "core_wf P2 ix' (upd2 F sd p (Some l')) ?Q"
  proof (rule core_wfI)
    fix s rr
    show "level_ok P2 (upd2 F sd p (Some l') s rr) (?Q s rr)"
    proof (cases "s = sd \<and> rr = p")
      case True
      then show ?thesis using app(2) by (simp add: level_ok_def)
    next
      case False
      have "slot_at P2 y = slot_at P y" if "y \<in> set (Q s rr)" for y
      proof -
        have "y \<notin> set (Q sd p @ [x])" using queued_once [OF wf that, of sd p] that False xq by auto
        moreover have "y \<in> live_slots P" using qf(4) that by blast
        ultimately show ?thesis using at2 keep by simp
      qed
      then show ?thesis using level_ok_cong [OF d(4) [of s rr]] False by auto
    qed
  next
    show "live_slots P2 = all_slots ?Q"
      using app(4) u(2) acq(3) d(5) by (auto simp: all_slots_def)
  next
    fix y s rr
    assume "y \<in> set (?Q s rr)"
    note yq = in_Q [OF this]
    then show "res_price (value_at P2 y) = rr" using valx p val d(6) by auto
    show "ix_map ix' (res_id (value_at P2 y)) = Some (index_value y s)"
    proof (cases "y = x \<and> s = sd \<and> rr = p")
      case True
      then show ?thesis using valx ix'(3) by simp
    next
      case False
      then have y: "y \<in> set (Q s rr)" using yq by blast
      have "res_id (value_at P y) \<noteq> res_id r" using d(7) [OF y] new by auto
      then show ?thesis using d(7) [OF y] by (simp add: ix'(3) val [OF y])
    qed
  next
    fix k v
    assume k: "ix_map ix' k = Some v"
    show "\<exists>s rr y. y \<in> set (?Q s rr) \<and> v = index_value y s \<and> res_id (value_at P2 y) = k"
    proof (cases "k = res_id r")
      case True
      then have "v = index_value x sd" using k ix'(3) by simp
      then show ?thesis using valx True by (intro exI [of _ sd] exI [of _ p] exI [of _ x]) simp
    next
      case False
      then obtain s rr y where y: "y \<in> set (Q s rr)" "v = index_value y s" "res_id (value_at P y) = k"
        using d(8) [of k v] k ix'(3) by auto
      then show ?thesis using val [OF y(1)] by (intro exI [of _ s] exI [of _ rr] exI [of _ y]) auto
    qed
  qed (use app used ix' u in \<open>auto simp: P1'_def\<close>)
  moreover have "\<not> level_empty l'" using is_queue_empty_iff [OF app(2) ne] by simp
  moreover have "value_at P2 y = value_at P y" if "y \<in> all_slots Q" for y
    using val that by (auto simp: all_slots_def)
  moreover have "unat x < 2 ^ 31" using acq(7) used by simp
  ultimately show thesis
    using that [OF acq(1) _ _ app(1) [unfolded P1'_def l_def] _ ix'(1)] valx acq(2) d(5) by blast
qed

text \<open>
  The packed index entry: below \<open>2 ^ 31\<close>, slot and side are both recovered; at \<open>2 ^ 31\<close> and above, the
  limit that \<^verbatim>\<open>insert\<close> tests, the slot is not.
\<close>

lemma index_entry_roundtrip:
  "(unat x < 2 ^ 31 \<longrightarrow> slot_of (index_value x sd) = x \<and> side_of (index_value x sd) = sd) \<and>
   index_value (x + 2 ^ 31) sd = index_value x sd"
proof -
  have "(2::32 word) ^ 31 * 2 = 0" by simp
  then have "push_bit 1 (x + 2 ^ 31) = (push_bit 1 x :: 32 word)"
    by (simp only: push_bit_eq_mult distrib_right power_one_right add_0_right)
  then have "index_value (x + 2 ^ 31) sd = index_value x sd" unfolding index_value_def by (rule arg_cong)
  then show ?thesis using index_value_roundtrip by blast
qed

end
