(* ===== verification/Price_Time.thy ===== *)
theory Price_Time
  imports Order_Book
begin

section \<open>Specification: a book in price-time priority\<close>

text \<open>
  What the engine promises, without its data structures: each side is one list of resting orders, best
  price first and oldest first within a price. An incoming order sweeps the opposite list from the
  front; a leftover is inserted behind everything at least as good. Nothing here mentions levels,
  slots, an index or a ring. The engine and the naive book of the differential tests are both proved
  to implement it.
\<close>

subsection \<open>The specification\<close>

record spec_book =
  spec_orders :: "side \<Rightarrow> resting_order list"
  spec_policy :: self_trade_policy
  spec_seq :: sequence_no

fun sweep :: "self_trade_policy \<Rightarrow> price option \<Rightarrow> resting_order list \<Rightarrow> order \<Rightarrow> exec_report \<Rightarrow>
    sequence_no \<Rightarrow> resting_order list \<times> order \<times> exec_report \<times> trade list" where
  "sweep pol lim [] incoming rep seq = ([], incoming, rep, [])"
| "sweep pol lim (m # ms) incoming rep seq =
     (if ord_qty incoming = 0 \<or> \<not> crosses (ord_side incoming) lim (res_price m)
      then (m # ms, incoming, rep, [])
      else if stp_possible pol (ord_owner incoming) \<and> ord_owner incoming = res_owner m
      then (if pol = CancelIncoming then (m # ms, incoming, rep\<lparr>stp_halted := True\<rparr>, [])
            else sweep pol lim ms incoming
              (rep\<lparr>stp_cancelled := stp_cancelled rep + ucast (res_qty m)\<rparr>) seq)
      else
        (let traded = min (ord_qty incoming) (res_qty m);
             incoming' = incoming\<lparr>ord_qty := ord_qty incoming - traded\<rparr>;
             t = \<lparr>tr_seq = seq, tr_maker_id = res_id m, tr_taker_id = ord_id incoming,
                  tr_price = res_price m, tr_qty = traded, tr_taker_side = ord_side incoming\<rparr>;
             rep' = record_fill seq traded rep
         in if traded = res_qty m
            then (case sweep pol lim ms incoming' rep' (seq + 1) of (os, i, r, ts) \<Rightarrow> (os, i, r, t # ts))
            else (m\<lparr>res_qty := res_qty m - traded\<rparr> # ms, incoming', rep', [t])))"

text \<open>Behind every order whose price is at least as good.\<close>

definition rank_insert :: "bool \<Rightarrow> resting_order \<Rightarrow> resting_order list \<Rightarrow> resting_order list" where
  "rank_insert bid r os =
     takeWhile (\<lambda>x. \<not> better bid (res_price r) (res_price x)) os @ r #
     dropWhile (\<lambda>x. \<not> better bid (res_price r) (res_price x)) os"

definition spec_find :: "order_id \<Rightarrow> spec_book \<Rightarrow> order option" where
  "spec_find k A =
     find (\<lambda>x. ord_id x = k) (map (api_order Buy) (spec_orders A Buy) @ map (api_order Sell) (spec_orders A Sell))"

definition spec_submit :: "order_id \<Rightarrow> participant_id \<Rightarrow> side \<Rightarrow> price option \<Rightarrow> quantity \<Rightarrow> bool \<Rightarrow> spec_book \<Rightarrow>
    exec_report \<times> trade list \<times> spec_book" where
  "spec_submit k owner sd lim qty rest_leftover A =
     (if qty = 0 \<or> spec_find k A \<noteq> None
      then (new_report\<lparr>accepted := False, remaining := qty\<rparr>, [], A)
      else
        (let opp = opposite sd;
             incoming = \<lparr>ord_id = k, ord_owner = owner,
                ord_price = (case lim of None \<Rightarrow> 0 | Some p \<Rightarrow> p), ord_qty = qty, ord_side = sd\<rparr>
         in case sweep (spec_policy A) lim (spec_orders A opp) incoming new_report (spec_seq A) of
              (os, i, r, ts) \<Rightarrow>
                let A1 = A\<lparr>spec_orders := (spec_orders A)(opp := os), spec_seq := spec_seq A + of_nat (length ts)\<rparr>;
                    r1 = r\<lparr>remaining := ord_qty i\<rparr>
                in if rest_leftover \<and> ord_qty i > 0 \<and> \<not> stp_halted r1
                   then (r1\<lparr>rested := True\<rparr>, ts,
                     A1\<lparr>spec_orders := (spec_orders A1)(sd :=
                       rank_insert (is_bid sd)
                         \<lparr>res_id = k, res_price = ord_price i, res_qty = ord_qty i, res_owner = owner\<rparr>
                         (spec_orders A1 sd))\<rparr>)
                   else (r1, ts, A1)))"

definition spec_cancel :: "order_id \<Rightarrow> spec_book \<Rightarrow> bool \<times> spec_book" where
  "spec_cancel k A =
     (spec_find k A \<noteq> None, A\<lparr>spec_orders := \<lambda>sd. filter (\<lambda>r. res_id r \<noteq> k) (spec_orders A sd)\<rparr>)"

definition spec_modify :: "order_id \<Rightarrow> price \<Rightarrow> quantity \<Rightarrow> spec_book \<Rightarrow> exec_report \<times> trade list \<times> spec_book" where
  "spec_modify k p qty A =
     (case spec_find k A of
        None \<Rightarrow> (new_report\<lparr>accepted := False, remaining := qty\<rparr>, [], A)
      | Some x \<Rightarrow>
          if qty = 0 then (new_report, [], snd (spec_cancel k A))
          else spec_submit k (ord_owner x) (ord_side x) (Some p) qty True (snd (spec_cancel k A)))"

subsection \<open>From queues per price to one ranked list\<close>

text \<open>
  \<open>ranks bid D os\<close>: the list \<open>os\<close> is in price priority, and its orders at any price \<open>p\<close>, in their
  order, are the queue \<open>D p\<close>.
\<close>

definition ranks :: "bool \<Rightarrow> (price \<Rightarrow> resting_order list) \<Rightarrow> resting_order list \<Rightarrow> bool" where
  "ranks bid D os \<longleftrightarrow>
     sorted_wrt (\<lambda>x y. \<not> better bid (res_price y) (res_price x)) os \<and>
     (\<forall>p. filter (\<lambda>r. res_price r = p) os = D p)"

lemma ranksI:
  "sorted_wrt (\<lambda>x y. \<not> better bid (res_price y) (res_price x)) os \<Longrightarrow>
   (\<And>p. filter (\<lambda>r. res_price r = p) os = D p) \<Longrightarrow> ranks bid D os"
  by (simp add: ranks_def)

lemma ranksD:
  assumes "ranks bid D os"
  shows "sorted_wrt (\<lambda>x y. \<not> better bid (res_price y) (res_price x)) os"
    "filter (\<lambda>r. res_price r = p) os = D p" "r \<in> set os \<longleftrightarrow> r \<in> set (D (res_price r))"
    "r \<in> set (D p) \<Longrightarrow> res_price r = p"
proof -
  show "sorted_wrt (\<lambda>x y. \<not> better bid (res_price y) (res_price x)) os"
    "filter (\<lambda>r. res_price r = p) os = D p" for p
    using assms by (auto simp: ranks_def)
  note f = this(2)
  show "r \<in> set os \<longleftrightarrow> r \<in> set (D (res_price r))" by (simp flip: f)
  show "r \<in> set (D p) \<Longrightarrow> res_price r = p" by (simp flip: f)
qed

lemma ranks_unique: "ranks bid D xs \<Longrightarrow> ranks bid D ys \<Longrightarrow> xs = ys"
proof (induction xs arbitrary: D ys)
  case Nil
  have "ys = []"
  proof (rule ccontr)
    assume "ys \<noteq> []"
    then obtain y where "y \<in> set ys" by (cases ys) auto
    then show False using ranksD(3) [OF Nil(1), of y] ranksD(3) [OF Nil(2), of y] by simp
  qed
  then show ?case by simp
next
  case (Cons x xs)
  note dx = ranksD [OF Cons.prems(1)] and dy = ranksD [OF Cons.prems(2)]
  have "x \<in> set ys" using dx(3) [of x] dy(3) [of x] by simp
  then obtain y zs where ys: "ys = y # zs" by (cases ys) auto
  have "y \<in> set (x # xs)" using dx(3) [of y] dy(3) [of y] by (simp add: ys)
  then have "\<not> better bid (res_price y) (res_price x)" using dx(1) by auto
  moreover have "\<not> better bid (res_price x) (res_price y)"
    using dy(1) \<open>x \<in> set ys\<close> unfolding ys by auto
  ultimately have p: "res_price x = res_price y" using better_total [of "res_price x" "res_price y" bid] by blast
  have "x # filter (\<lambda>r. res_price r = res_price x) xs = y # filter (\<lambda>r. res_price r = res_price x) zs"
    using dx(2) [of "res_price x"] dy(2) [of "res_price x"] p by (simp add: ys)
  then have xy: "x = y" by simp
  let ?D = "D(res_price x := tl (D (res_price x)))"
  have f: "filter (\<lambda>r. res_price r = p) xs = ?D p" for p
    using dx(2) [of p, symmetric] by (auto split: if_splits)
  have g: "filter (\<lambda>r. res_price r = p) zs = ?D p" for p
    using dy(2) [of p, symmetric] xy by (auto simp: ys split: if_splits)
  have "ranks bid ?D xs" by (rule ranksI) (use dx(1) f in auto)
  moreover have "ranks bid ?D zs" by (rule ranksI) (use dy(1) g in \<open>auto simp: ys\<close>)
  ultimately show ?case using Cons.IH xy ys by blast
qed

text \<open>The empty list, and the first order of a non-empty one.\<close>

lemma ranks_Nil_iff: "ranks bid D [] \<longleftrightarrow> (\<forall>p. D p = [])"
  by (auto simp: ranks_def)

lemma ranks_Cons:
  assumes r: "ranks bid D os" and p: "D p = m # ms" and best: "\<And>q. D q \<noteq> [] \<Longrightarrow> \<not> better bid q p"
  obtains os' where "os = m # os'" "ranks bid (D(p := ms)) os'"
proof -
  note d = ranksD [OF r]
  have mp: "res_price m = p" using d(4) [of m p] p by simp
  have "m \<in> set os" using d(3) [of m] p mp by simp
  then obtain x xs where os: "os = x # xs" by (cases os) auto
  have "\<not> better bid p (res_price x)" using d(1) \<open>m \<in> set os\<close> mp unfolding os by auto
  moreover have "D (res_price x) \<noteq> []" using d(2) [of "res_price x"] unfolding os by auto
  then have "\<not> better bid (res_price x) p" by (rule best)
  ultimately have xp: "res_price x = p" using better_total [of "res_price x" p bid] by blast
  have xm: "x = m" "filter (\<lambda>r. res_price r = p) xs = ms" using d(2) [of p] p xp unfolding os by auto
  have "filter (\<lambda>r. res_price r = q) xs = (D(p := ms)) q" for q
    using d(2) [of q] xm xp unfolding os by (auto split: if_splits)
  then have "ranks bid (D(p := ms)) xs" using d(1) unfolding os by (intro ranksI) auto
  then show thesis using that os xm(1) by blast
qed

lemma ranks_push_front:
  assumes r: "ranks bid D os" and p: "res_price m = p" and best: "\<And>q. D q \<noteq> [] \<Longrightarrow> \<not> better bid q p"
  shows "ranks bid (D(p := m # D p)) (m # os)"
proof (rule ranksI)
  note d = ranksD [OF r]
  have "\<not> better bid (res_price x) p" if "x \<in> set os" for x
    using best [of "res_price x"] d(3) [of x] that by (cases "D (res_price x)") auto
  then show "sorted_wrt (\<lambda>x y. \<not> better bid (res_price y) (res_price x)) (m # os)" using d(1) p by simp
  show "filter (\<lambda>r. res_price r = q) (m # os) = (D(p := m # D p)) q" for q using d(2) [of q] p by auto
qed

text \<open>Removing orders by a predicate, and inserting one.\<close>

lemma ranks_filter: "ranks bid D os \<Longrightarrow> ranks bid (\<lambda>p. filter P (D p)) (filter P os)"
proof (rule ranksI)
  assume r: "ranks bid D os"
  note d = ranksD [OF r]
  show "sorted_wrt (\<lambda>x y. \<not> better bid (res_price y) (res_price x)) (filter P os)"
    using d(1) by (rule sorted_wrt_filter)
  show "filter (\<lambda>r. res_price r = p) (filter P os) = filter P (D p)" for p
    by (simp add: d(2) [symmetric] conj_commute)
qed

lemma ranks_insert:
  assumes r: "ranks bid D os"
  shows "ranks bid (D(res_price x := D (res_price x) @ [x])) (rank_insert bid x os)"
proof (rule ranksI)
  note d = ranksD [OF r]
  define N where "N = (\<lambda>y :: resting_order. \<not> better bid (res_price x) (res_price y))"
  have "N a" if "\<not> better bid (res_price b) (res_price a)" "N b" for a b
    using that better_trans [of bid "res_price x" "res_price a" "res_price b"]
      better_total [of "res_price a" "res_price b" bid] unfolding N_def by metis
  then have tw: "takeWhile N os = filter N os" "dropWhile N os = filter (\<lambda>y. \<not> N y) os"
    using sorted_takeWhile_filter [OF d(1), of N] by blast+
  have ri: "rank_insert bid x os = filter N os @ x # filter (\<lambda>y. \<not> N y) os"
    using tw by (simp add: rank_insert_def N_def)
  have a: "\<not> better bid (res_price x) (res_price y)" if "N y" for y using that by (simp add: N_def)
  have b: "\<not> better bid (res_price y) (res_price x)" if "\<not> N y" for y
    using that better_asym by (auto simp: N_def)
  have c: "\<not> better bid (res_price z) (res_price y)" if "N y" "\<not> N z" for y z
  proof
    assume "better bid (res_price z) (res_price y)"
    moreover have "better bid (res_price x) (res_price z)" using that by (simp add: N_def)
    ultimately show False using that(1) better_trans by (auto simp: N_def)
  qed
  show "sorted_wrt (\<lambda>x y. \<not> better bid (res_price y) (res_price x)) (rank_insert bid x os)"
    unfolding ri sorted_wrt_append using d(1) a b c by (auto simp: sorted_wrt_filter)
  have own: "filter (\<lambda>y. N y \<and> res_price y = res_price x) os = D (res_price x)"
    "filter (\<lambda>y. \<not> N y \<and> res_price y = res_price x) os = []"
    by (auto simp: N_def d(2) [symmetric] filter_empty_conv intro!: filter_cong)
  have "filter (\<lambda>y. N y \<and> res_price y = q) os @ filter (\<lambda>y. \<not> N y \<and> res_price y = q) os = D q"
    if "q \<noteq> res_price x" for q
  proof (cases "better bid (res_price x) q")
    case True
    then have e: "N y \<longleftrightarrow> False" if "res_price y = q" for y using that by (simp add: N_def)
    then have "filter (\<lambda>y. N y \<and> res_price y = q) os = []" "filter (\<lambda>y. \<not> N y \<and> res_price y = q) os = D q"
      by (auto simp: d(2) [symmetric] filter_empty_conv intro!: filter_cong)
    then show ?thesis by simp
  next
    case False
    then have e: "N y" if "res_price y = q" for y using that by (simp add: N_def)
    then have "filter (\<lambda>y. N y \<and> res_price y = q) os = D q" "filter (\<lambda>y. \<not> N y \<and> res_price y = q) os = []"
      by (auto simp: d(2) [symmetric] filter_empty_conv intro!: filter_cong)
    then show ?thesis by simp
  qed
  then show "filter (\<lambda>r. res_price r = q) (rank_insert bid x os) = (D(res_price x := D (res_price x) @ [x])) q" for q
    using own by (auto simp: ri conj_commute)
qed

subsection \<open>Induction on a sweep\<close>

abbreviation own_order :: "self_trade_policy \<Rightarrow> order \<Rightarrow> resting_order \<Rightarrow> bool" where
  "own_order pol i m \<equiv> stp_possible pol (ord_owner i) \<and> ord_owner i = res_owner m"

text \<open>The taker after trading with the front order, the trade, and the report.\<close>

definition fill_qty :: "order \<Rightarrow> resting_order \<Rightarrow> quantity" where
  "fill_qty i m = min (ord_qty i) (res_qty m)"

definition fill_taker :: "order \<Rightarrow> resting_order \<Rightarrow> order" where
  "fill_taker i m = i\<lparr>ord_qty := ord_qty i - fill_qty i m\<rparr>"

definition fill_trade :: "sequence_no \<Rightarrow> order \<Rightarrow> resting_order \<Rightarrow> trade" where
  "fill_trade seq i m = \<lparr>tr_seq = seq, tr_maker_id = res_id m, tr_taker_id = ord_id i,
     tr_price = res_price m, tr_qty = fill_qty i m, tr_taker_side = ord_side i\<rparr>"

lemma fill_simps [simp]:
  "ord_id (fill_taker i m) = ord_id i" "ord_owner (fill_taker i m) = ord_owner i"
  "ord_price (fill_taker i m) = ord_price i" "ord_side (fill_taker i m) = ord_side i"
  "ord_qty (fill_taker i m) = ord_qty i - fill_qty i m"
  "tr_seq (fill_trade seq i m) = seq" "tr_maker_id (fill_trade seq i m) = res_id m"
  "tr_taker_id (fill_trade seq i m) = ord_id i" "tr_price (fill_trade seq i m) = res_price m"
  "tr_qty (fill_trade seq i m) = fill_qty i m" "tr_taker_side (fill_trade seq i m) = ord_side i"
  by (simp_all add: fill_taker_def fill_trade_def)

lemma record_fill_simps [simp]:
  "filled (record_fill seq q rep) = filled rep + q" "trade_count (record_fill seq q rep) = trade_count rep + 1"
  "stp_cancelled (record_fill seq q rep) = stp_cancelled rep" "stp_halted (record_fill seq q rep) = stp_halted rep"
  "first_seq (record_fill seq q rep) = (if trade_count rep = 0 then seq else first_seq rep)"
  by (simp_all add: record_fill_def Let_def)

lemma fill_qty_le: "fill_qty i m \<le> ord_qty i" "fill_qty i m \<le> res_qty m"
  by (simp_all add: fill_qty_def)

text \<open>The rule of the sweep: it stops, cancels the front order, consumes it, or fills it in part.\<close>

lemma sweep_induct [consumes 1, case_names stop halt cancel consume part]:
  assumes run: "sweep pol lim os i rep seq = (os', i', rep', ts)"
    and stop: "\<And>os i rep seq. os = [] \<or> ord_qty i = 0 \<or> \<not> crosses (ord_side i) lim (res_price (hd os)) \<Longrightarrow>
        P os i rep seq os i rep []"
    and halt: "\<And>m ms i rep seq. ord_qty i \<noteq> 0 \<Longrightarrow> crosses (ord_side i) lim (res_price m) \<Longrightarrow> own_order pol i m \<Longrightarrow>
        pol = CancelIncoming \<Longrightarrow> P (m # ms) i rep seq (m # ms) i (rep\<lparr>stp_halted := True\<rparr>) []"
    and cancel: "\<And>m ms i rep seq os' i' rep' ts. ord_qty i \<noteq> 0 \<Longrightarrow> crosses (ord_side i) lim (res_price m) \<Longrightarrow>
        own_order pol i m \<Longrightarrow> pol \<noteq> CancelIncoming \<Longrightarrow>
        P ms i (rep\<lparr>stp_cancelled := stp_cancelled rep + ucast (res_qty m)\<rparr>) seq os' i' rep' ts \<Longrightarrow>
        P (m # ms) i rep seq os' i' rep' ts"
    and consume: "\<And>m ms i rep seq os' i' rep' ts. ord_qty i \<noteq> 0 \<Longrightarrow> crosses (ord_side i) lim (res_price m) \<Longrightarrow>
        \<not> own_order pol i m \<Longrightarrow> fill_qty i m = res_qty m \<Longrightarrow>
        P ms (fill_taker i m) (record_fill seq (fill_qty i m) rep) (seq + 1) os' i' rep' ts \<Longrightarrow>
        P (m # ms) i rep seq os' i' rep' (fill_trade seq i m # ts)"
    and part: "\<And>m ms i rep seq. ord_qty i \<noteq> 0 \<Longrightarrow> crosses (ord_side i) lim (res_price m) \<Longrightarrow>
        \<not> own_order pol i m \<Longrightarrow> fill_qty i m \<noteq> res_qty m \<Longrightarrow> fill_qty i m = ord_qty i \<Longrightarrow>
        P (m # ms) i rep seq (m\<lparr>res_qty := res_qty m - fill_qty i m\<rparr> # ms) (fill_taker i m)
          (record_fill seq (fill_qty i m) rep) [fill_trade seq i m]"
  shows "P os i rep seq os' i' rep' ts"
  using run
proof (induction os arbitrary: i rep seq os' i' rep' ts)
  case Nil
  then show ?case using stop [of "[]"] by simp
next
  case (Cons m ms)
  show ?case
  proof (cases "ord_qty i = 0 \<or> \<not> crosses (ord_side i) lim (res_price m)")
    case True
    then have "os' = m # ms \<and> i' = i \<and> rep' = rep \<and> ts = []" using Cons.prems by auto
    then show ?thesis using stop [of "m # ms" i rep seq] True by auto
  next
    case go: False
    show ?thesis
    proof (cases "own_order pol i m")
      case own: True
      show ?thesis
      proof (cases "pol = CancelIncoming")
        case True
        then have "os' = m # ms \<and> i' = i \<and> rep' = rep\<lparr>stp_halted := True\<rparr> \<and> ts = []"
          using Cons.prems own go by auto
        then show ?thesis using halt [of i m ms rep seq] True own go by blast
      next
        case False
        then show ?thesis using cancel Cons own go by (auto split: if_splits)
      qed
    next
      case other: False
      have sw: "sweep pol lim (m # ms) i rep seq =
          (if fill_qty i m = res_qty m
           then (case sweep pol lim ms (fill_taker i m) (record_fill seq (fill_qty i m) rep) (seq + 1) of
               (os, i', r, us) \<Rightarrow> (os, i', r, fill_trade seq i m # us))
           else (m\<lparr>res_qty := res_qty m - fill_qty i m\<rparr> # ms, fill_taker i m,
               record_fill seq (fill_qty i m) rep, [fill_trade seq i m]))"
        unfolding sweep.simps if_not_P [OF go] if_not_P [OF other] Let_def fill_taker_def fill_trade_def fill_qty_def ..
      show ?thesis
      proof (cases "fill_qty i m = res_qty m")
        case True
        then obtain us where "sweep pol lim ms (fill_taker i m) (record_fill seq (fill_qty i m) rep) (seq + 1) = (os', i', rep', us)"
            "ts = fill_trade seq i m # us"
          using Cons.prems sw by (auto split: prod.splits)
        then show ?thesis using consume Cons.IH True go other by blast
      next
        case False
        then have "fill_qty i m = ord_qty i" by (auto simp: fill_qty_def min_def split: if_splits)
        then show ?thesis using part Cons.prems sw False go other by auto
      qed
    qed
  qed
qed

subsection \<open>Where a sweep stops\<close>

lemma crosses_mono:
  assumes "crosses sd lim p" and "\<not> better (is_bid (opposite sd)) p q"
  shows "crosses sd lim q"
  using assms by (cases sd) (auto simp: crosses_def better_def is_bid_def split: option.splits)

text \<open>With quantity left and no halt, nothing that remains crosses the limit.\<close>

lemma sweep_stops:
  assumes "sweep pol lim os i rep seq = (os', i', rep', ts)"
    and "sorted_wrt (\<lambda>x y. \<not> better (is_bid (opposite (ord_side i))) (res_price y) (res_price x)) os"
    and "ord_qty i' > 0" and "\<not> stp_halted rep'" and "x \<in> set os'"
  shows "\<not> crosses (ord_side i) lim (res_price x)"
  using assms
proof (induction rule: sweep_induct)
  case (stop os i rep seq)
  then obtain m ms where os: "os = m # ms" by (cases os) auto
  then have "\<not> crosses (ord_side i) lim (res_price m)" using stop by auto
  then show ?case
    using crosses_mono [of "ord_side i" lim "res_price x" "res_price m"] stop.prems os by auto
qed auto

lemma sweep_length: "sweep pol lim os i rep seq = (os', i', rep', ts) \<Longrightarrow> length os' \<le> length os"
  by (induction rule: sweep_induct) auto

lemma sweep_ids: "sweep pol lim os i rep seq = (os', i', rep', ts) \<Longrightarrow> res_id ` set os' \<subseteq> res_id ` set os"
  by (induction rule: sweep_induct) auto

text \<open>A taker keeps its price through a sweep.\<close>

lemma sweep_price: "sweep pol lim os i rep seq = (os', i', rep', ts) \<Longrightarrow> ord_price i' = ord_price i"
  by (induction rule: sweep_induct) auto

subsection \<open>Sequences of operations\<close>

text \<open>The operations of the differential harness (\<^verbatim>\<open>difftest::Op\<close>), and what the specification does with them.\<close>

datatype op_kind = AddLimit | AddMarket | Cancel | Modify

record op =
  op_what :: op_kind
  op_id :: order_id
  op_owner :: participant_id
  op_side :: side
  op_price :: price
  op_qty :: quantity

definition spec_step :: "op \<Rightarrow> spec_book \<Rightarrow> exec_report \<times> trade list \<times> spec_book" where
  "spec_step x A =
     (case op_what x of
        AddLimit \<Rightarrow> spec_submit (op_id x) (op_owner x) (op_side x) (Some (op_price x)) (op_qty x) True A
      | AddMarket \<Rightarrow> spec_submit (op_id x) (op_owner x) (op_side x) None (op_qty x) False A
      | Cancel \<Rightarrow> (case spec_cancel (op_id x) A of (ok, A') \<Rightarrow> (new_report\<lparr>accepted := ok\<rparr>, [], A'))
      | Modify \<Rightarrow> spec_modify (op_id x) (op_price x) (op_qty x) A)"

fun spec_run :: "op list \<Rightarrow> spec_book \<Rightarrow> exec_report list \<times> trade list \<times> spec_book" where
  "spec_run [] A = ([], [], A)"
| "spec_run (x # xs) A =
     (case spec_step x A of (rep, ts, A1) \<Rightarrow>
        case spec_run xs A1 of (reps, us, A2) \<Rightarrow> (rep # reps, ts @ us, A2))"

text \<open>The book in book order: bids best-first, then asks best-first, oldest first within a price.\<close>

definition spec_snapshot :: "spec_book \<Rightarrow> order list" where
  "spec_snapshot A = map (api_order Buy) (spec_orders A Buy) @ map (api_order Sell) (spec_orders A Sell)"

definition spec_new :: "self_trade_policy \<Rightarrow> spec_book" where
  "spec_new pol = \<lparr>spec_orders = \<lambda>_. [], spec_policy = pol, spec_seq = 1\<rparr>"

definition spec_ids :: "spec_book \<Rightarrow> order_id list" where
  "spec_ids A = map res_id (spec_orders A Buy @ spec_orders A Sell)"

text \<open>An implementation run on a list of operations, the reports in order.\<close>

fun run_ops :: "(op \<Rightarrow> 's \<Rightarrow> (exec_report \<times> 's) option) \<Rightarrow> op list \<Rightarrow> 's \<Rightarrow> (exec_report list \<times> 's) option" where
  "run_ops step [] s = Some ([], s)"
| "run_ops step (x # xs) s =
     Option.bind (step x s) (\<lambda>(rep, s1). Option.bind (run_ops step xs s1) (\<lambda>(reps, s2). Some (rep # reps, s2)))"

text \<open>An operation makes the book at most one order longer.\<close>

lemma rank_insert_length: "length (rank_insert bid r os) = Suc (length os)"
proof -
  have "length (takeWhile P xs) + length (dropWhile P xs) = length xs" for P :: "resting_order \<Rightarrow> bool" and xs
    by (induction xs) auto
  then show ?thesis by (simp add: rank_insert_def)
qed

text \<open>What an accepted order does, by the outcome of its sweep.\<close>

lemma spec_submit_accepted:
  assumes acc: "qty \<noteq> 0" "spec_find k A = None"
    and i: "i = \<lparr>ord_id = k, ord_owner = owner, ord_price = (case lim of None \<Rightarrow> 0 | Some p \<Rightarrow> p),
      ord_qty = qty, ord_side = sd\<rparr>"
    and sw: "sweep (spec_policy A) lim (spec_orders A (opposite sd)) i new_report (spec_seq A) = (os, i1, r, ts)"
    and A1: "A1 = A\<lparr>spec_orders := (spec_orders A)(opposite sd := os), spec_seq := spec_seq A + of_nat (length ts)\<rparr>"
    and r1: "r1 = r\<lparr>remaining := ord_qty i1\<rparr>"
  shows "spec_submit k owner sd lim qty rest A =
    (if rest \<and> ord_qty i1 > 0 \<and> \<not> stp_halted r1
     then (r1\<lparr>rested := True\<rparr>, ts, A1\<lparr>spec_orders := (spec_orders A1)(sd := rank_insert (is_bid sd)
       \<lparr>res_id = k, res_price = ord_price i1, res_qty = ord_qty i1, res_owner = owner\<rparr> (spec_orders A1 sd))\<rparr>)
     else (r1, ts, A1))"
proof -
  have nr: "(qty = 0 \<or> spec_find k A \<noteq> None) = False" using acc by simp
  show ?thesis
    unfolding spec_submit_def nr if_False Let_def i [symmetric] sw prod.case A1 [symmetric] r1 [symmetric] ..
qed

lemma spec_submit_rejected:
  "qty = 0 \<or> spec_find k A \<noteq> None \<Longrightarrow>
   spec_submit k owner sd lim qty rest A = (new_report\<lparr>accepted := False, remaining := qty\<rparr>, [], A)"
  by (auto simp: spec_submit_def)

lemma opposite_neq [simp]: "opposite sd \<noteq> sd" "sd \<noteq> opposite sd"
  by (cases sd; simp)+

lemma spec_ids_length: "length (spec_ids A) = length (spec_orders A sd) + length (spec_orders A (opposite sd))"
  by (cases sd) (simp_all add: spec_ids_def)

lemma spec_submit_length:
  assumes "spec_submit k owner sd lim qty rest A = (rep, ts, A')"
  shows "length (spec_ids A') \<le> Suc (length (spec_ids A))"
proof (cases "qty = 0 \<or> spec_find k A \<noteq> None")
  case True
  then show ?thesis using assms spec_submit_rejected [OF True] by simp
next
  case False
  define i where "i = \<lparr>ord_id = k, ord_owner = owner, ord_price = (case lim of None \<Rightarrow> 0 | Some p \<Rightarrow> p),
    ord_qty = qty, ord_side = sd\<rparr>"
  obtain os i1 r us where sw: "sweep (spec_policy A) lim (spec_orders A (opposite sd)) i new_report (spec_seq A) = (os, i1, r, us)"
    by (cases "sweep (spec_policy A) lim (spec_orders A (opposite sd)) i new_report (spec_seq A)") auto
  have "(rep, ts, A') = spec_submit k owner sd lim qty rest A" using assms by simp
  then show ?thesis
    using spec_submit_accepted [OF _ _ i_def sw refl refl, of rest] False sweep_length [OF sw]
    by (auto simp: spec_ids_length [of _ sd] rank_insert_length split: if_splits)
qed

lemma spec_cancel_length: "length (spec_ids (snd (spec_cancel k A))) \<le> length (spec_ids A)"
  by (simp add: spec_cancel_def spec_ids_def add_mono)

lemma spec_step_length:
  assumes "spec_step x A = (rep, ts, A')"
  shows "length (spec_ids A') \<le> Suc (length (spec_ids A))"
proof (cases "op_what x")
  case Modify
  show ?thesis
  proof (cases "spec_find (op_id x) A")
    case None
    then show ?thesis using assms Modify by (auto simp: spec_step_def spec_modify_def)
  next
    case (Some y)
    then show ?thesis
      using assms Modify spec_cancel_length [of "op_id x" A]
        spec_submit_length [of "op_id x" "ord_owner y" "ord_side y" "Some (op_price x)" "op_qty x" True "snd (spec_cancel (op_id x) A)" rep ts A']
      by (auto simp: spec_step_def spec_modify_def split: if_splits)
  qed
qed (use assms spec_submit_length spec_cancel_length [of "op_id x" A] in
    \<open>auto simp: spec_step_def intro: le_SucI split: prod.splits\<close>)

subsection \<open>The interface of a price-time book\<close>

text \<open>
  \<open>rep n s A log\<close>: the state \<open>s\<close> represents the specification's book \<open>A\<close>, it has printed the trades
  \<open>log\<close>, and it has room for \<open>n\<close> more operations.
\<close>

locale price_time_book =
  fixes step :: "op \<Rightarrow> 's \<Rightarrow> (exec_report \<times> 's) option"
    and represents :: "nat \<Rightarrow> 's \<Rightarrow> spec_book \<Rightarrow> trade list \<Rightarrow> bool"
    and snapshot :: "'s \<Rightarrow> order list option"
  assumes step_law: "represents (Suc n) s A log \<Longrightarrow> spec_step x A = (rep, ts, A') \<Longrightarrow>
      \<exists>s'. step x s = Some (rep, s') \<and> represents n s' A' (log @ ts)"
    and snapshot_law: "represents n s A log \<Longrightarrow> snapshot s = Some (spec_snapshot A)"
begin

lemma run_law:
  assumes "represents (length xs + n) s A log" and "spec_run xs A = (reps, ts, A')"
  shows "\<exists>s'. run_ops step xs s = Some (reps, s') \<and> represents n s' A' (log @ ts)"
  using assms
proof (induction xs arbitrary: s A log reps ts)
  case Nil
  then show ?case by simp
next
  case (Cons x xs)
  obtain rep us A1 where st: "spec_step x A = (rep, us, A1)" by (cases "spec_step x A") auto
  obtain reps1 vs A2 where rn: "spec_run xs A1 = (reps1, vs, A2)" by (cases "spec_run xs A1") auto
  have res: "reps = rep # reps1" "ts = us @ vs" "A' = A2" using Cons.prems(2) st rn by auto
  have "represents (Suc (length xs + n)) s A log" using Cons.prems(1) by simp
  from step_law [OF this st] obtain s1 where s1: "step x s = Some (rep, s1)" "represents (length xs + n) s1 A1 (log @ us)"
    by blast
  from Cons.IH [OF s1(2), of reps1 vs] obtain s2 where "run_ops step xs s1 = Some (reps1, s2)" "represents n s2 A2 ((log @ us) @ vs)"
    using rn res(3) by auto
  then show ?case using s1(1) res by auto
qed

text \<open>What a client observes of a run: the reports, and the final book in queue order.\<close>

lemma observed:
  assumes "represents (length xs) s A log" and "spec_run xs A = (reps, ts, A')"
  shows "\<exists>s'. run_ops step xs s = Some (reps, s') \<and> snapshot s' = Some (spec_snapshot A')"
  using run_law [of xs 0 s A log reps ts A'] snapshot_law assms by fastforce

end

text \<open>Two books that implement the interface cannot be told apart by any sequence of operations.\<close>

locale two_books =
  a: price_time_book step_a represents_a snapshot_a + b: price_time_book step_b represents_b snapshot_b
  for step_a :: "op \<Rightarrow> 's \<Rightarrow> (exec_report \<times> 's) option" and represents_a and snapshot_a
    and step_b :: "op \<Rightarrow> 't \<Rightarrow> (exec_report \<times> 't) option" and represents_b and snapshot_b
begin

lemma agree:
  assumes "represents_a (length xs + n) s A log" and "represents_b (length xs + n) t A log"
  shows "\<exists>reps s' t' A' ts. run_ops step_a xs s = Some (reps, s') \<and> run_ops step_b xs t = Some (reps, t') \<and>
    represents_a n s' A' (log @ ts) \<and> represents_b n t' A' (log @ ts) \<and> snapshot_a s' = snapshot_b t'"
proof -
  obtain reps ts A' where sp: "spec_run xs A = (reps, ts, A')" by (cases "spec_run xs A") auto
  obtain s' where s': "run_ops step_a xs s = Some (reps, s')" "represents_a n s' A' (log @ ts)"
    using a.run_law [OF assms(1) sp] by blast
  obtain t' where t': "run_ops step_b xs t = Some (reps, t')" "represents_b n t' A' (log @ ts)"
    using b.run_law [OF assms(2) sp] by blast
  have "snapshot_a s' = snapshot_b t'" using a.snapshot_law [OF s'(2)] b.snapshot_law [OF t'(2)] by simp
  then show ?thesis using s' t' by blast
qed

end

end
