(* ===== verification/Matching.thy ===== *)
theory Matching
  imports Book_Invariant Price_Time
begin

section \<open>The matching loops implement the sweep\<close>

text \<open>
  The inner loop of \<^verbatim>\<open>match\<close> consumes a prefix of one level's queue, the outer loop level after
  level; together they compute \<open>sweep\<close> on the ranked list of the opposite side. Both loops are proved
  to return, and to leave every part of the invariant intact.
\<close>

subsection \<open>The loop invariant\<close>

definition side_rel :: "order_slots \<Rightarrow> queues \<Rightarrow> side \<Rightarrow> resting_order list \<Rightarrow> bool" where
  "side_rel P Q sd os \<longleftrightarrow> ranks (is_bid sd) (\<lambda>p. map (value_at P) (Q sd p)) os"

lemma side_rel_cong:
  assumes "\<And>r. map (value_at P') (Q' sd r) = map (value_at P) (Q sd r)"
  shows "side_rel P' Q' sd os = side_rel P Q sd os"
  unfolding side_rel_def assms ..

definition keeps :: "slot_index set \<Rightarrow> order_slots \<Rightarrow> order_slots \<Rightarrow> bool" where
  "keeps S P P' \<longleftrightarrow> (\<forall>y\<in>S. value_at P' y = value_at P y)"

lemma keeps_refl [simp]: "keeps S P P"
  by (simp add: keeps_def)

lemma keeps_trans: "keeps S P P' \<Longrightarrow> keeps S' P' P'' \<Longrightarrow> S \<subseteq> S' \<Longrightarrow> keeps S P P''"
  by (auto simp: keeps_def)

text \<open>\<open>lvl_inv\<close>: the state of the inner loop on the level \<open>l\<close> of price \<open>p\<close>, the best of side \<open>opp\<close>.\<close>

definition lvl_inv :: "book \<Rightarrow> level_lookup \<Rightarrow> queues \<Rightarrow> side \<Rightarrow> price \<Rightarrow> price_level \<Rightarrow> resting_order list \<Rightarrow> bool" where
  "lvl_inv b F Q opp p l os \<longleftrightarrow> core_wf (pool b) (order_index b) F Q \<and> ring_inv (trade_out b) \<and>
     F opp p = (if Q opp p = [] then None else Some l) \<and> (Q opp p = [] \<longrightarrow> l = empty_level) \<and>
     side_rel (pool b) Q opp os \<and> (\<forall>q. Q opp q \<noteq> [] \<longrightarrow> \<not> better (is_bid opp) q p)"

definition same_frame :: "book \<Rightarrow> book \<Rightarrow> bool" where
  "same_frame b b' \<longleftrightarrow> bids b' = bids b \<and> asks b' = asks b \<and> policy b' = policy b"

lemma same_frame_refl [simp]: "same_frame b b"
  by (simp add: same_frame_def)

lemma same_frame_trans: "same_frame a b \<Longrightarrow> same_frame b c \<Longrightarrow> same_frame a c"
  by (simp add: same_frame_def)

lemma lvl_invD:
  assumes "lvl_inv b F Q opp p l os"
  shows "core_wf (pool b) (order_index b) F Q" "ring_inv (trade_out b)"
    "F opp p = (if Q opp p = [] then None else Some l)" "Q opp p = [] \<Longrightarrow> l = empty_level"
    "side_rel (pool b) Q opp os" "Q opp q \<noteq> [] \<Longrightarrow> \<not> better (is_bid opp) q p"
  using assms by (auto simp: lvl_inv_def)

lemma lvl_empty_iff:
  assumes "lvl_inv b F Q opp p l os"
  shows "level_empty l \<longleftrightarrow> Q opp p = []"
proof (cases "Q opp p = []")
  case True
  then show ?thesis using lvl_invD(4) [OF assms] by (simp add: level_empty_def empty_level_def)
next
  case False
  then have "F opp p = Some l" using lvl_invD(3) [OF assms] by simp
  then show ?thesis using queue_facts(3) [OF lvl_invD(1) [OF assms]] False by blast
qed

lemma lvl_head:
  assumes "lvl_inv b F Q opp p l os" and "Q opp p = x # xs"
  shows "lv_head l = x" "is_queue (pool b) l (x # xs)" "F opp p = Some l" "x \<in> live_slots (pool b)"
proof -
  note d = lvl_invD [OF assms(1)]
  show f: "F opp p = Some l" using d(3) assms(2) by simp
  show q: "is_queue (pool b) l (x # xs)" using queue_facts(3) [OF d(1) f] assms(2) by simp
  then show "lv_head l = x" by (simp add: is_queue_def)
  show "x \<in> live_slots (pool b)" using queue_facts(4) [OF d(1), of opp p] assms(2) by auto
qed

text \<open>The first order of the ranked list is the oldest order of the best level.\<close>

lemma lvl_first:
  assumes inv: "lvl_inv b F Q opp p l os" and q: "Q opp p = x # xs"
  obtains os' where "os = value_at (pool b) x # os'" "side_rel (pool b) (upd2 Q opp p xs) opp os'"
proof -
  note d = lvl_invD [OF inv]
  let ?D = "\<lambda>r. map (value_at (pool b)) (Q opp r)"
  have D: "?D p = value_at (pool b) x # map (value_at (pool b)) xs" using q by simp
  have best: "\<not> better (is_bid opp) r p" if "?D r \<noteq> []" for r using d(6) [of r] that by simp
  obtain os' where os': "os = value_at (pool b) x # os'"
      "ranks (is_bid opp) (?D(p := map (value_at (pool b)) xs)) os'"
    using ranks_Cons [OF d(5) [unfolded side_rel_def] D best] by blast
  have "?D(p := map (value_at (pool b)) xs) = (\<lambda>r. map (value_at (pool b)) ((upd2 Q opp p xs) opp r))" by auto
  then show thesis using that [OF os'(1)] os'(2) unfolding side_rel_def by simp
qed

subsection \<open>One iteration of the inner loop\<close>

text \<open>Dropping the head of the level, as self-trade prevention and a complete fill do.\<close>

lemma drop_head:
  assumes inv: "lvl_inv b F Q opp p l os" and q: "Q opp p = x # xs"
    and k: "k = res_id (value_at (pool b) x)"
  obtains l' b' os' where "drop_order k l x b = Some (l', b')"
    "os = value_at (pool b) x # os'"
    "lvl_inv b' (upd2 F opp p (if xs = [] then None else Some l')) (upd2 Q opp p xs) opp p l' os'"
    "same_frame b b'" "next_seq b' = next_seq b" "trade_out b' = trade_out b"
    "keeps (all_slots Q - {x}) (pool b) (pool b')"
proof -
  note d = lvl_invD [OF inv] and h = lvl_head [OF inv q]
  obtain ix' where ix': "ix_take (order_index b) k = Some (ix_map (order_index b) k, ix')" "ix_inv ix'"
      "ix_map ix' = (ix_map (order_index b))(k := None)"
    using ix_take_spec [OF core_wfD(3) [OF d(1)]] by blast
  have q': "Q opp p = [] @ x # xs" using q by simp
  obtain l' P' where det: "detach l x (pool b) = (l', P')"
      "core_wf P' ix' (upd2 F opp p (if [] @ xs = [] then None else Some l')) (upd2 Q opp p ([] @ xs))"
      "level_empty l' \<longleftrightarrow> [] @ xs = []" "[] @ xs = [] \<Longrightarrow> l' = empty_level"
    and val: "\<And>y. y \<noteq> x \<Longrightarrow> value_at P' y = value_at (pool b) y"
    using core_detach [OF d(1) h(3) q' ix'(2) ix'(3) [unfolded k]] by blast
  let ?b = "b\<lparr>order_index := ix', pool := P'\<rparr>" and ?Q = "upd2 Q opp p xs"
  have "drop_order k l x b = Some (l', ?b)" using ix'(1) det(1) by (simp add: drop_order_def ix_erase_def)
  moreover obtain os' where os': "os = value_at (pool b) x # os'"
      "side_rel (pool b) ?Q opp os'"
    using lvl_first [OF inv q] by blast
  moreover have "lvl_inv ?b (upd2 F opp p (if xs = [] then None else Some l')) ?Q opp p l' os'"
  proof -
    have "y \<noteq> x" if "y \<in> set (?Q opp r)" for y r
      using that q queue_facts(1) [OF d(1), of opp p] queued_once(2) [OF d(1), of x opp p opp r]
      by (auto split: if_splits)
    then have "map (value_at P') (?Q opp r) = map (value_at (pool b)) (?Q opp r)" for r using val by simp
    then have "side_rel P' ?Q opp os'" using os'(2) side_rel_cong by blast
    moreover have "\<not> better (is_bid opp) r p" if "?Q opp r \<noteq> []" for r
      using that d(6) [of r] by (cases "r = p") auto
    ultimately show ?thesis using det(2,4) d(2) by (simp add: lvl_inv_def)
  qed
  moreover have "keeps (all_slots Q - {x}) (pool b) P'" using val by (auto simp: keeps_def)
  ultimately show thesis using that [of l' ?b os'] by (simp add: same_frame_def)
qed

text \<open>Filling the head of the level.\<close>

lemma fill_head:
  assumes inv: "lvl_inv b F Q opp p l os" and q: "Q opp p = x # xs" and os: "os = m # os'"
    and m: "m = value_at (pool b) x" and t: "traded \<le> res_qty m"
    and m': "m' = m\<lparr>res_qty := res_qty m - traded\<rparr>"
    and b': "b' = b\<lparr>pool := upd_slot x (\<lambda>s. s\<lparr>slot_value := m'\<rparr>) (pool b),
        next_seq := next_seq b + 1, trade_out := snd (ring_push t (trade_out b))\<rparr>"
    and l': "l' = l\<lparr>total_qty := total_qty l - ucast traded\<rparr>"
  shows "lvl_inv b' (upd2 F opp p (Some l')) Q opp p l' (m' # os')"
    "value_at (pool b') x = m'" "keeps (all_slots Q - {x}) (pool b) (pool b')" "same_frame b b'"
proof -
  note d = lvl_invD [OF inv] and h = lvl_head [OF inv q]
  note cf = core_fill [OF d(1) h(3) q t [unfolded m] m' [unfolded m]]
  have val: "value_at (pool b') y = (if y = x then m' else value_at (pool b) y)" for y using cf(2) by (simp add: b')
  then show "value_at (pool b') x = m'" "keeps (all_slots Q - {x}) (pool b) (pool b')"
    by (auto simp: keeps_def)
  show "same_frame b b'" by (simp add: b' same_frame_def)
  obtain os1 where os1: "os = value_at (pool b) x # os1"
      "side_rel (pool b) (upd2 Q opp p xs) opp os1"
    using lvl_first [OF inv q] by blast
  have mp: "res_price m' = p" using core_wfD(6) [OF d(1), of x opp p] q m m' by simp
  let ?D = "\<lambda>r. map (value_at (pool b)) ((upd2 Q opp p xs) opp r)"
  have best: "\<not> better (is_bid opp) r p" if "?D r \<noteq> []" for r using that d(6) [of r] by (cases "r = p") auto
  have "ranks (is_bid opp) (?D(p := m' # ?D p)) (m' # os')"
    using ranks_push_front [OF os1(2) [unfolded side_rel_def] mp best] os1(1) os by simp
  moreover have "x \<notin> set xs" "x \<notin> set (Q opp r)" if "r \<noteq> p" for r
    using q queue_facts(1) [OF d(1), of opp p] queued_once(2) [OF d(1), of x opp p opp r] that by auto
  then have "?D(p := m' # ?D p) = (\<lambda>r. map (value_at (pool b')) (Q opp r))"
    using q queue_facts(1) [OF d(1), of opp p] by (auto simp: val fun_eq_iff)
  ultimately have "side_rel (pool b') Q opp (m' # os')" by (simp add: side_rel_def)
  moreover have "ring_inv (trade_out b')" using ring.push_inv [OF d(2)] by (simp add: b')
  ultimately show "lvl_inv b' (upd2 F opp p (Some l')) Q opp p l' (m' # os')"
    using cf(1) q d(6) by (simp add: lvl_inv_def b' l')
qed

subsection \<open>Progress of the inner loop\<close>

abbreviation push_all :: "trade list \<Rightarrow> trade_ring \<Rightarrow> trade_ring" where
  "push_all ts r \<equiv> fold (\<lambda>t s. snd (ring_push t s)) ts r"

definition prepend :: "'t list \<Rightarrow> 'a \<times> 'b \<times> 'c \<times> 't list \<Rightarrow> 'a \<times> 'b \<times> 'c \<times> 't list" where
  "prepend ts r = (case r of (os, i, rep, us) \<Rightarrow> (os, i, rep, ts @ us))"

lemma prepend_simps [simp]:
  "prepend [] r = r" "prepend ts (prepend us r) = prepend (ts @ us) r"
  "prepend ts (os, i, rep, us) = (os, i, rep, ts @ us)"
  by (auto simp: prepend_def split: prod.splits)

definition same_taker :: "order \<Rightarrow> order \<Rightarrow> bool" where
  "same_taker i j \<longleftrightarrow> ord_id j = ord_id i \<and> ord_owner j = ord_owner i \<and> ord_price j = ord_price i \<and> ord_side j = ord_side i"

lemma crosses_res_price: "same_taker i j \<Longrightarrow> crosses (ord_side j) lim p = crosses (ord_side i) lim p"
  by (simp add: same_taker_def)

type_synonym lstate = "book \<times> queues \<times> resting_order list \<times> order \<times> exec_report"

text \<open>
  \<open>lvl_to lim opp p s s' ts\<close>: from \<open>s\<close> to \<open>s'\<close> only the queue at \<open>p\<close> shrank, the trades \<open>ts\<close> were
  printed, and what the sweep still has to do from \<open>s\<close> is \<open>ts\<close> followed by what it has to do from \<open>s'\<close>.
\<close>

fun lvl_to :: "price option \<Rightarrow> side \<Rightarrow> price \<Rightarrow> lstate \<Rightarrow> lstate \<Rightarrow> trade list \<Rightarrow> bool" where
  "lvl_to lim opp p (b, Q, os, i, rep) (b', Q', os', i', rep') ts \<longleftrightarrow>
     same_frame b b' \<and> next_seq b' = next_seq b + of_nat (length ts) \<and>
     trade_out b' = push_all ts (trade_out b) \<and>
     keeps (all_slots Q - set (Q opp p)) (pool b) (pool b') \<and>
     (\<exists>ys. Q' = upd2 Q opp p ys \<and> set ys \<subseteq> set (Q opp p)) \<and>
     length os' + length (Q opp p) = length os + length (Q' opp p) \<and> same_taker i i' \<and>
     sweep (policy b) lim os i rep (next_seq b) = prepend ts (sweep (policy b) lim os' i' rep' (next_seq b'))"

lemma lvl_to_refl: "lvl_to lim opp p s s []"
proof -
  obtain b Q os i rep where s: "s = (b, Q, os, i, rep)" by (cases s) auto
  have "\<exists>ys. Q = upd2 Q opp p ys \<and> set ys \<subseteq> set (Q opp p)" by (intro exI [of _ "Q opp p"]) simp
  then show ?thesis by (simp add: s same_taker_def)
qed

lemma lvl_to_trans:
  assumes "lvl_to lim opp p s s' ts" and "lvl_to lim opp p s' s'' us"
  shows "lvl_to lim opp p s s'' (ts @ us)"
proof -
  obtain b Q os i rep where s: "s = (b, Q, os, i, rep)" by (cases s) auto
  obtain b' Q' os' i' rep' where s': "s' = (b', Q', os', i', rep')" by (cases s') auto
  obtain b'' Q'' os'' i'' rep'' where s'': "s'' = (b'', Q'', os'', i'', rep'')" by (cases s'') auto
  note a = assms [unfolded s s' s'' lvl_to.simps]
  obtain ys where ys: "Q' = upd2 Q opp p ys" "set ys \<subseteq> set (Q opp p)" using a(1) by blast
  obtain zs where zs: "Q'' = upd2 Q' opp p zs" "set zs \<subseteq> set (Q' opp p)" using a(2) by blast
  have "all_slots Q - set (Q opp p) \<subseteq> all_slots Q' - set (Q' opp p)"
  proof
    fix y
    assume "y \<in> all_slots Q - set (Q opp p)"
    then obtain s r where y: "y \<in> set (Q s r)" "y \<notin> set (Q opp p)" by (auto simp: all_slots_def)
    then have "y \<in> set (Q' s r)" "y \<notin> set (Q' opp p)" using ys by auto
    then show "y \<in> all_slots Q' - set (Q' opp p)" unfolding all_slots_def by blast
  qed
  then have "keeps (all_slots Q - set (Q opp p)) (pool b) (pool b'')"
    using a keeps_trans by blast
  moreover have "\<exists>vs. Q'' = upd2 Q opp p vs \<and> set vs \<subseteq> set (Q opp p)"
    using ys zs by (intro exI [of _ zs]) auto
  moreover have "policy b' = policy b" using a(1) by (simp add: same_frame_def)
  ultimately show ?thesis
    using a same_frame_trans [of b b' b''] unfolding s s'' lvl_to.simps same_taker_def by simp
qed

lemma all_slots_tail:
  assumes wf: "core_wf P ix F Q" and q: "Q sd p = x # xs"
  shows "all_slots (upd2 Q sd p xs) \<subseteq> all_slots Q - {x}"
proof
  fix y
  assume "y \<in> all_slots (upd2 Q sd p xs)"
  then obtain s r where y: "y \<in> set (upd2 Q sd p xs s r)" unfolding all_slots_def by blast
  have x: "x \<in> set (Q sd p)" "x \<notin> set xs" using queue_facts(1) [OF wf, of sd p] q by auto
  have "y \<in> set (Q s r)" using y q by (auto split: if_splits)
  moreover have "y \<noteq> x" using y x queued_once [OF wf x(1), of s r] by (auto split: if_splits)
  ultimately show "y \<in> all_slots Q - {x}" unfolding all_slots_def by blast
qed

lemma qtys_pos_sub:
  assumes "qtys_pos P Q" and "keeps S P P'" and "all_slots Q' \<subseteq> S" and "S \<subseteq> all_slots Q"
  shows "qtys_pos P' Q'"
  unfolding qtys_pos_def
proof
  fix y
  assume "y \<in> all_slots Q'"
  then have y: "y \<in> S" "y \<in> all_slots Q" using assms(3,4) by auto
  show "0 < res_qty (value_at P' y)" using assms(1,2) y unfolding qtys_pos_def keeps_def by simp
qed

lemma step_cancel_resting:
  assumes inv: "lvl_inv b F Q opp p l os" and q: "Q opp p = x # xs" and pos: "qtys_pos (pool b) Q"
    and c: "ord_qty i > 0" "crosses (ord_side i) lim p"
    and self: "stp_possible (policy b) (ord_owner i)" "ord_owner i = res_owner (value_at (pool b) x)"
      "policy b \<noteq> CancelIncoming"
    and rep': "rep' = rep\<lparr>stp_cancelled := stp_cancelled rep + ucast (res_qty (value_at (pool b) x))\<rparr>"
  shows "\<exists>l' b' os'. drop_order (res_id (value_at (pool b) x)) l x b = Some (l', b') \<and>
    lvl_inv b' (upd2 F opp p (if xs = [] then None else Some l')) (upd2 Q opp p xs) opp p l' os' \<and>
    qtys_pos (pool b') (upd2 Q opp p xs) \<and>
    lvl_to lim opp p (b, Q, os, i, rep) (b', upd2 Q opp p xs, os', i, rep') []"
proof -
  note d = lvl_invD [OF inv]
  obtain l' b' os' where drop: "drop_order (res_id (value_at (pool b) x)) l x b = Some (l', b')"
      "os = value_at (pool b) x # os'"
      "lvl_inv b' (upd2 F opp p (if xs = [] then None else Some l')) (upd2 Q opp p xs) opp p l' os'"
      "same_frame b b'" "next_seq b' = next_seq b" "trade_out b' = trade_out b"
      "keeps (all_slots Q - {x}) (pool b) (pool b')"
    using drop_head [OF inv q refl] by blast
  have sub: "all_slots (upd2 Q opp p xs) \<subseteq> all_slots Q - {x}"
    by (rule all_slots_tail [OF d(1) q])
  then have "qtys_pos (pool b') (upd2 Q opp p xs)"
    using qtys_pos_sub [OF pos drop(7)] by blast
  moreover have "res_price (value_at (pool b) x) = p" using core_wfD(6) [OF d(1), of x opp p] q by simp
  then have "lvl_to lim opp p (b, Q, os, i, rep) (b', upd2 Q opp p xs, os', i, rep') []"
    using drop q c self by (auto simp: same_taker_def rep' keeps_def intro!: exI [of _ xs])
  ultimately show ?thesis using drop(1,3) by blast
qed

lemma step_fill:
  assumes inv: "lvl_inv b F Q opp p l os" and q: "Q opp p = x # xs" and pos: "qtys_pos (pool b) Q"
    and c: "ord_qty i > 0" "crosses (ord_side i) lim p"
    and other: "\<not> (stp_possible (policy b) (ord_owner i) \<and> ord_owner i = res_owner (value_at (pool b) x))"
    and m: "m = value_at (pool b) x" and traded: "traded = min (ord_qty i) (res_qty m)"
    and m': "m' = m\<lparr>res_qty := res_qty m - traded\<rparr>"
    and i': "i' = i\<lparr>ord_qty := ord_qty i - traded\<rparr>"
    and t: "t = \<lparr>tr_seq = next_seq b, tr_maker_id = res_id m, tr_taker_id = ord_id i,
        tr_price = p, tr_qty = traded, tr_taker_side = ord_side i\<rparr>"
    and rep': "rep' = record_fill (next_seq b) traded rep"
    and b': "b' = b\<lparr>pool := upd_slot x (\<lambda>s. s\<lparr>slot_value := m'\<rparr>) (pool b),
        next_seq := next_seq b + 1, trade_out := snd (ring_push t (trade_out b))\<rparr>"
    and l': "l' = l\<lparr>total_qty := total_qty l - ucast traded\<rparr>"
  shows "res_qty m' \<noteq> 0 \<Longrightarrow> \<exists>os'. lvl_inv b' (upd2 F opp p (Some l')) Q opp p l' os' \<and>
      qtys_pos (pool b') Q \<and> ord_qty i' = 0 \<and>
      lvl_to lim opp p (b, Q, os, i, rep) (b', Q, os', i', rep') [t]"
    and "res_qty m' = 0 \<Longrightarrow> \<exists>l'' b'' os'. drop_order (res_id m') l' x b' = Some (l'', b'') \<and>
      lvl_inv b'' (upd2 F opp p (if xs = [] then None else Some l'')) (upd2 Q opp p xs) opp p l'' os' \<and>
      qtys_pos (pool b'') (upd2 Q opp p xs) \<and>
      lvl_to lim opp p (b, Q, os, i, rep) (b'', upd2 Q opp p xs, os', i', rep') [t]"
proof -
  note d = lvl_invD [OF inv]
  obtain os1 where os: "os = m # os1" using lvl_first [OF inv q] m by blast
  have le: "traded \<le> res_qty m" using traded by simp
  note f = fill_head [OF inv q os m le m' b' l']
  have mp: "res_price m = p" using core_wfD(6) [OF d(1), of x opp p] q m by simp
  have fr: "policy b' = policy b" "next_seq b' = next_seq b + 1" by (simp_all add: b')
  have zero: "res_qty m' = 0 \<longleftrightarrow> traded = res_qty m" using m' by auto
  have sw: "sweep (policy b) lim os i rep (next_seq b) =
      (if traded = res_qty m then prepend [t] (sweep (policy b) lim os1 i' rep' (next_seq b + 1))
       else (m' # os1, i', rep', [t]))"
  proof -
    have g: "(ord_qty i = 0 \<or> \<not> crosses (ord_side i) lim p) = False"
      "(stp_possible (policy b) (ord_owner i) \<and> ord_owner i = res_owner m) = False"
      using c other mp m by auto
    show ?thesis
      unfolding os sweep.simps(2) g if_False Let_def traded [symmetric] mp
        t [symmetric] rep' [symmetric] m' [symmetric] i' [symmetric] by (simp add: prepend_def)
  qed
  have taker: "same_taker i i'" by (simp add: i' same_taker_def)
  { assume nz: "res_qty m' \<noteq> 0"
    then have less: "ord_qty i < res_qty m" using zero traded by (auto simp: min_def split: if_splits)
    then have i0: "ord_qty i' = 0" using traded i' by (simp add: min_def less_imp_le)
    have "res_qty (value_at (pool b') y) > 0" if "y \<in> all_slots Q" for y
      using pos f(2,3) nz that by (cases "y = x") (auto simp: qtys_pos_def keeps_def word_gt_0)
    then have "qtys_pos (pool b') Q" by (simp add: qtys_pos_def)
    moreover have "\<exists>ys. Q = upd2 Q opp p ys \<and> set ys \<subseteq> set (Q opp p)"
      by (intro exI [of _ "Q opp p"]) simp
    moreover have "keeps (all_slots Q - set (Q opp p)) (pool b) (pool b')" using f(3) q by (auto simp: keeps_def)
    moreover have "length (m' # os1) = length os" by (simp add: os)
    moreover have "sweep (policy b) lim os i rep (next_seq b) = prepend [t] (sweep (policy b) lim (m' # os1) i' rep' (next_seq b'))"
      unfolding sw using zero nz i0 by simp
    moreover have "trade_out b' = push_all [t] (trade_out b)" by (simp add: b')
    ultimately have "qtys_pos (pool b') Q" "lvl_to lim opp p (b, Q, os, i, rep) (b', Q, m' # os1, i', rep') [t]"
      using f(4) taker fr unfolding lvl_to.simps by simp_all
    then show "\<exists>os'. lvl_inv b' (upd2 F opp p (Some l')) Q opp p l' os' \<and> qtys_pos (pool b') Q \<and>
        ord_qty i' = 0 \<and> lvl_to lim opp p (b, Q, os, i, rep) (b', Q, os', i', rep') [t]"
      using f(1) i0 by blast }
  { assume z: "res_qty m' = 0"
    have k: "res_id m' = res_id (value_at (pool b') x)" using f(2) by simp
    obtain l'' b'' os' where drop: "drop_order (res_id m') l' x b' = Some (l'', b'')" "m' # os1 = value_at (pool b') x # os'"
        "lvl_inv b'' (upd2 (upd2 F opp p (Some l')) opp p (if xs = [] then None else Some l'')) (upd2 Q opp p xs) opp p l'' os'"
        "same_frame b' b''" "next_seq b'' = next_seq b'" "trade_out b'' = trade_out b'"
        "keeps (all_slots Q - {x}) (pool b') (pool b'')"
      using drop_head [OF f(1) q k] by blast
    have kp: "keeps (all_slots Q - {x}) (pool b) (pool b'')"
      using keeps_trans [OF f(3) drop(7)] by simp
    have sub: "all_slots (upd2 Q opp p xs) \<subseteq> all_slots Q - {x}"
      by (rule all_slots_tail [OF d(1) q])
    then have "qtys_pos (pool b'') (upd2 Q opp p xs)" using qtys_pos_sub [OF pos kp] by blast
    moreover have "lvl_to lim opp p (b, Q, os, i, rep) (b'', upd2 Q opp p xs, os', i', rep') [t]"
      using sw kp drop(2,4,5,6) same_frame_trans [OF f(4) drop(4)] z zero os q taker fr
      by (auto simp: b' keeps_def intro!: exI [of _ xs])
    ultimately show "\<exists>l'' b'' os'. drop_order (res_id m') l' x b' = Some (l'', b'') \<and>
        lvl_inv b'' (upd2 F opp p (if xs = [] then None else Some l'')) (upd2 Q opp p xs) opp p l'' os' \<and>
        qtys_pos (pool b'') (upd2 Q opp p xs) \<and>
        lvl_to lim opp p (b, Q, os, i, rep) (b'', upd2 Q opp p xs, os', i', rep') [t]"
      using drop(1,3) by auto }
qed

subsection \<open>The inner loop\<close>

text \<open>
  It returns, having either used up the taker, emptied the level, or halted on self-trade
  prevention; in the last case the sweep has nothing left to do.
\<close>

definition level_post :: "price option \<Rightarrow> side \<Rightarrow> price \<Rightarrow> level_lookup \<Rightarrow> lstate \<Rightarrow>
    (book \<times> price_level \<times> order \<times> exec_report) option \<Rightarrow> bool" where
  "level_post lim opp p F s r \<longleftrightarrow> (case s of (b, Q, _) \<Rightarrow> \<exists>b' l' i' rep' F' Q' os' ts.
     r = Some (b', l', i', rep') \<and> lvl_inv b' F' Q' opp p l' os' \<and>
     F' = upd2 F opp p (if Q' opp p = [] then None else Some l') \<and> qtys_pos (pool b') Q' \<and>
     lvl_to lim opp p s (b', Q', os', i', rep') ts \<and>
     (if stp_halted rep' then sweep (policy b) lim os' i' rep' (next_seq b') = (os', i', rep', [])
      else ord_qty i' = 0 \<or> Q' opp p = []))"

lemma level_post_stop:
  assumes inv: "lvl_inv b' F' Q' opp p l' os'" and F': "F' = upd2 F opp p x" and pos: "qtys_pos (pool b') Q'"
    and to: "lvl_to lim opp p (b, Q, os, i, rep) (b', Q', os', i', rep') ts"
    and "if stp_halted rep' then sweep (policy b) lim os' i' rep' (next_seq b') = (os', i', rep', [])
      else ord_qty i' = 0 \<or> Q' opp p = []"
  shows "level_post lim opp p F (b, Q, os, i, rep) (Some (b', l', i', rep'))"
proof -
  have "F' = upd2 F opp p (if Q' opp p = [] then None else Some l')"
    using lvl_invD(3) [OF inv] by (simp add: F')
  then show ?thesis
    unfolding level_post_def prod.case using assms by (intro exI conjI) (rule refl | assumption)+
qed

lemma level_post_step:
  assumes to: "lvl_to lim opp p (b, Q, os, i, rep) (b1, Q1, os1, i1, rep1) ts"
    and post: "level_post lim opp p (upd2 F opp p x) (b1, Q1, os1, i1, rep1) r"
  shows "level_post lim opp p F (b, Q, os, i, rep) r"
proof -
  have pol: "policy b1 = policy b" using to by (simp add: same_frame_def)
  obtain b' l' i' rep' F' Q' os' us where post':
      "r = Some (b', l', i', rep')" "lvl_inv b' F' Q' opp p l' os'"
      "F' = upd2 (upd2 F opp p x) opp p (if Q' opp p = [] then None else Some l')" "qtys_pos (pool b') Q'"
      "lvl_to lim opp p (b1, Q1, os1, i1, rep1) (b', Q', os', i', rep') us"
      "if stp_halted rep' then sweep (policy b1) lim os' i' rep' (next_seq b') = (os', i', rep', [])
       else ord_qty i' = 0 \<or> Q' opp p = []"
    using post unfolding level_post_def prod.case by blast
  have "F' = upd2 F opp p (if Q' opp p = [] then None else Some l')" using post'(3) by simp
  then show ?thesis
    unfolding post'(1) by (rule level_post_stop [OF post'(2) _ post'(4) lvl_to_trans [OF to post'(5)] post'(6) [unfolded pol]])
qed

lemma match_level_spec:
  assumes "lvl_inv b F Q opp p l os" and "qtys_pos (pool b) Q" and "crosses (ord_side i) lim p"
    and "stp = stp_possible (policy b) (ord_owner i)" and "\<not> stp_halted rep" and "Q opp p = xs"
  shows "level_post lim opp p F (b, Q, os, i, rep) (match_level stp p b l i rep)"
  using assms
proof (induction xs arbitrary: b F Q l os i rep)
  case Nil
  have "level_empty l" using lvl_empty_iff [OF Nil(1)] Nil(6) by simp
  then have run: "match_level stp p b l i rep = Some (b, l, i, rep)" by (simp add: match_level.simps)
  have "F = upd2 F opp p (F opp p)" by simp
  then show ?case
    unfolding run by (rule level_post_stop [OF Nil(1) _ Nil(2) lvl_to_refl]) (use Nil(5,6) in simp)
next
  case (Cons x xs)
  note inv = Cons.prems(1) and pos = Cons.prems(2) and cr = Cons.prems(3) and stp = Cons.prems(4)
    and nh = Cons.prems(5) and q = Cons.prems(6)
  note d = lvl_invD [OF inv] and h = lvl_head [OF inv q]
  have ne: "\<not> level_empty l" using lvl_empty_iff [OF inv] q by simp
  have Fid: "F = upd2 F opp p (F opp p)" by simp
  have Qxs: "upd2 Q opp p xs opp p = xs" by simp
  define m where "m = value_at (pool b) x"
  obtain os1 where os: "os = m # os1" using lvl_first [OF inv q] m_def by blast
  have mp: "res_price m = p" using core_wfD(6) [OF d(1), of x opp p] q m_def by simp
  consider (spent) "ord_qty i = 0"
    | (halt) "ord_qty i > 0" "stp_possible (policy b) (ord_owner i) \<and> ord_owner i = res_owner m" "policy b = CancelIncoming"
    | (kill) "ord_qty i > 0" "stp_possible (policy b) (ord_owner i) \<and> ord_owner i = res_owner m" "policy b \<noteq> CancelIncoming"
    | (fill) "ord_qty i > 0" "\<not> (stp_possible (policy b) (ord_owner i) \<and> ord_owner i = res_owner m)"
    using word_gt_0 [of "ord_qty i"] by metis
  then show ?case
  proof cases
    case spent
    then have run: "match_level stp p b l i rep = Some (b, l, i, rep)" by (simp add: match_level.simps)
    show ?thesis
      unfolding run by (rule level_post_stop [OF inv Fid pos lvl_to_refl]) (use spent nh in simp)
  next
    case halt
    let ?rep = "rep\<lparr>stp_halted := True\<rparr>"
    have run: "match_level stp p b l i rep = Some (b, l, i, ?rep)"
    proof -
      have g: "(ord_qty i > 0 \<and> \<not> level_empty l) = True" "(stp \<and> ord_owner i = res_owner m) = True"
        "(policy b = CancelIncoming) = True"
        using halt ne stp by auto
      show ?thesis unfolding match_level.simps [of stp p b] Let_def h(1) m_def [symmetric] g if_True ..
    qed
    have sw: "sweep (policy b) lim os i rep (next_seq b) = (os, i, ?rep, [])"
      "sweep (policy b) lim os i ?rep (next_seq b) = (os, i, ?rep, [])"
      using halt cr mp by (auto simp: os)
    have "lvl_to lim opp p (b, Q, os, i, rep) (b, Q, os, i, ?rep) []"
      using lvl_to_refl [of lim opp p "(b, Q, os, i, rep)"] sw by simp
    then show ?thesis unfolding run by (rule level_post_stop [OF inv Fid pos]) (use sw in simp)
  next
    case kill
    have self: "stp_possible (policy b) (ord_owner i)" "ord_owner i = res_owner (value_at (pool b) x)"
      using kill(2) m_def by auto
    define rep1 where "rep1 = rep\<lparr>stp_cancelled := stp_cancelled rep + ucast (res_qty m)\<rparr>"
    obtain l1 b1 os1 where st: "drop_order (res_id m) l x b = Some (l1, b1)"
        "lvl_inv b1 (upd2 F opp p (if xs = [] then None else Some l1)) (upd2 Q opp p xs) opp p l1 os1"
        "qtys_pos (pool b1) (upd2 Q opp p xs)"
        "lvl_to lim opp p (b, Q, os, i, rep) (b1, upd2 Q opp p xs, os1, i, rep1) []"
      using step_cancel_resting [OF inv q pos kill(1) cr self kill(3) rep1_def [unfolded m_def]] unfolding m_def by blast
    have run: "match_level stp p b l i rep = match_level stp p b1 l1 i rep1"
    proof -
      have g: "(ord_qty i > 0 \<and> \<not> level_empty l) = True" "(stp \<and> ord_owner i = res_owner m) = True"
        "(policy b = CancelIncoming) = False"
        using kill ne stp by auto
      show ?thesis
        unfolding match_level.simps [of stp p b] Let_def h(1) m_def [symmetric] g if_True if_False st(1) rep1_def by simp
    qed
    have stp1: "stp = stp_possible (policy b1) (ord_owner i)" using stp st(4) by (simp add: same_frame_def)
    have nh1: "\<not> stp_halted rep1" using nh by (simp add: rep1_def)
    show ?thesis
      unfolding run by (rule level_post_step [OF st(4) Cons.IH [OF st(2,3) cr stp1 nh1 Qxs]])
  next
    case fill
    define traded where "traded = min (ord_qty i) (res_qty m)"
    define m' where "m' = m\<lparr>res_qty := res_qty m - traded\<rparr>"
    define i' where "i' = i\<lparr>ord_qty := ord_qty i - traded\<rparr>"
    define t where "t = \<lparr>tr_seq = next_seq b, tr_maker_id = res_id m, tr_taker_id = ord_id i,
      tr_price = p, tr_qty = traded, tr_taker_side = ord_side i\<rparr>"
    define rep' where "rep' = record_fill (next_seq b) traded rep"
    define b1 where "b1 = b\<lparr>pool := upd_slot x (\<lambda>s. s\<lparr>slot_value := m'\<rparr>) (pool b),
      next_seq := next_seq b + 1, trade_out := snd (ring_push t (trade_out b))\<rparr>"
    define l1 where "l1 = l\<lparr>total_qty := total_qty l - ucast traded\<rparr>"
    note st = step_fill [OF inv q pos fill(1) cr fill(2) [unfolded m_def] m_def traded_def m'_def i'_def t_def rep'_def b1_def l1_def]
    have g: "(ord_qty i > 0 \<and> \<not> level_empty l) = True" "(stp \<and> ord_owner i = res_owner m) = False"
      using fill ne stp by auto
    have run: "match_level stp p b l i rep =
        (if res_qty m' = 0
         then Option.bind (drop_order (res_id m') l1 x b1) (\<lambda>(l2, b2). match_level stp p b2 l2 i' rep')
         else match_level stp p b1 l1 i' rep')"
      unfolding match_level.simps [of stp p b] Let_def h(1) m_def [symmetric] g if_True if_False
        traded_def [symmetric] t_def [symmetric] rep'_def [symmetric] i'_def [symmetric] m'_def [symmetric]
        l1_def [symmetric] b1_def [symmetric] ..
    have cr': "crosses (ord_side i') lim p" and ow: "ord_owner i' = ord_owner i" using cr by (simp_all add: i'_def)
    have nh': "\<not> stp_halted rep'" using nh by (simp add: rep'_def)
    show ?thesis
    proof (cases "res_qty m' = 0")
      case True
      obtain l2 b2 os2 where s: "drop_order (res_id m') l1 x b1 = Some (l2, b2)"
          "lvl_inv b2 (upd2 F opp p (if xs = [] then None else Some l2)) (upd2 Q opp p xs) opp p l2 os2"
          "qtys_pos (pool b2) (upd2 Q opp p xs)"
          "lvl_to lim opp p (b, Q, os, i, rep) (b2, upd2 Q opp p xs, os2, i', rep') [t]"
        using st(2) [OF True] by blast
      have run2: "match_level stp p b l i rep = match_level stp p b2 l2 i' rep'" using run True s(1) by simp
      have stp2: "stp = stp_possible (policy b2) (ord_owner i')" using stp ow s(4) by (simp add: same_frame_def)
      show ?thesis
        unfolding run2 by (rule level_post_step [OF s(4) Cons.IH [OF s(2,3) cr' stp2 nh' Qxs]])
    next
      case False
      obtain os' where s: "lvl_inv b1 (upd2 F opp p (Some l1)) Q opp p l1 os'" "qtys_pos (pool b1) Q" "ord_qty i' = 0"
          "lvl_to lim opp p (b, Q, os, i, rep) (b1, Q, os', i', rep') [t]"
        using st(1) [OF False] by blast
      have run2: "match_level stp p b l i rep = Some (b1, l1, i', rep')"
        using run False s(3) by (simp add: match_level.simps)
      show ?thesis unfolding run2 by (rule level_post_stop [OF s(1) refl s(2,4)]) (use s(3) nh' in simp)
    qed
  qed
qed

subsection \<open>Storing a level back\<close>

lemma is_bid_simps [simp]: "is_bid Buy" "\<not> is_bid Sell"
  by (simp_all add: is_bid_def)

lemma opposite_opposite [simp]: "opposite (opposite sd) = sd"
  by (cases sd) simp_all

lemma neq_side: "s \<noteq> sd \<longleftrightarrow> s = opposite sd"
  by (cases s; cases sd) simp_all

lemma set_ladder_simps [simp]:
  "ladder_of s (set_ladder sd L b) = (if s = sd then L else ladder_of s b)"
  "pool (set_ladder sd L b) = pool b" "order_index (set_ladder sd L b) = order_index b"
  "trade_out (set_ladder sd L b) = trade_out b" "policy (set_ladder sd L b) = policy b"
  "next_seq (set_ladder sd L b) = next_seq b"
  by (cases s; cases sd; simp add: ladder_of_def set_ladder_def)+

lemma ladder_of_upd [simp]:
  "ladder_of sd (b\<lparr>pool := P\<rparr>) = ladder_of sd b" "ladder_of sd (b\<lparr>order_index := ix\<rparr>) = ladder_of sd b"
  "ladder_of sd (b\<lparr>next_seq := n\<rparr>) = ladder_of sd b" "ladder_of sd (b\<lparr>trade_out := r\<rparr>) = ladder_of sd b"
  by (simp_all add: ladder_of_def)

lemma same_frame_ladder: "same_frame b b' \<Longrightarrow> ladder_of sd b' = ladder_of sd b"
  by (simp add: same_frame_def ladder_of_def)

lemma ladders_wfD:
  assumes "ladders_wf b"
  shows "ladder_inv (is_bid sd) (ladder_of sd b)" "is_placed (ladder_of sd b) = is_placed (ladder_of sd' b)"
proof -
  show "ladder_inv (is_bid sd) (ladder_of sd b)" using assms by (simp add: ladders_wf_def)
  show "is_placed (ladder_of sd b) = is_placed (ladder_of sd' b)"
    using assms unfolding ladders_wf_def ladder_of_def by (cases sd; cases sd') auto
qed

lemma ladders_wf_cong: "(\<And>sd. ladder_of sd b' = ladder_of sd b) \<Longrightarrow> ladders_wf b' = ladders_wf b"
proof -
  assume a: "\<And>sd. ladder_of sd b' = ladder_of sd b"
  then have "bids b' = bids b" "asks b' = asks b" using a [of Buy] a [of Sell] by (simp_all add: ladder_of_def)
  then show ?thesis using a by (simp add: ladders_wf_def)
qed

lemma ladders_wf_set:
  assumes "ladders_wf b" and "ladder_inv (is_bid sd) L" and "is_placed L = is_placed (ladder_of sd b)"
  shows "ladders_wf (set_ladder sd L b)"
proof -
  have "ladder_inv (is_bid s) (ladder_of s (set_ladder sd L b))" for s
    using assms(2) ladders_wfD(1) [OF assms(1)] by simp
  moreover have "is_placed (ladder_of Buy (set_ladder sd L b)) = is_placed (ladder_of Sell (set_ladder sd L b))"
    using assms(3) ladders_wfD(2) [OF assms(1), of sd] by (cases sd) auto
  ultimately show ?thesis by (simp add: ladders_wf_def ladder_of_def)
qed

lemma find_of_set_ladder:
  "ladder_find L = (ladder_find (ladder_of sd b))(p := x) \<Longrightarrow> find_of (set_ladder sd L b) = upd2 (find_of b) sd p x"
  by auto

lemma write_back:
  assumes inv: "ladder_inv bid L" and f: "ladder_find L p \<noteq> None" and e: "level_empty l \<Longrightarrow> l = empty_level"
  obtains L' where "(if level_empty l then ladder_closed bid p (set_level p l L) else ret () (set_level p l L)) = ret () L'"
    "ladder_inv bid L'" "is_placed L' = is_placed L"
    "ladder_find L' = (ladder_find L)(p := if level_empty l then None else Some l)"
proof (cases "level_empty l")
  case True
  then show thesis using ladder.drop_law [OF inv f] e that by (auto simp: ladder_drop_def)
next
  case False
  then show thesis using ladder.upd_law [OF inv f False] that by auto
qed

subsection \<open>The outer loop\<close>

text \<open>What the loop on side \<open>opp\<close> leaves of the book: the other side, and the trades it printed.\<close>

definition side_to :: "side \<Rightarrow> book \<Rightarrow> queues \<Rightarrow> book \<Rightarrow> queues \<Rightarrow> trade list \<Rightarrow> bool" where
  "side_to opp b Q b' Q' ts \<longleftrightarrow> policy b' = policy b \<and> next_seq b' = next_seq b + of_nat (length ts) \<and>
     trade_out b' = push_all ts (trade_out b) \<and> ladder_of (opposite opp) b' = ladder_of (opposite opp) b \<and>
     Q' (opposite opp) = Q (opposite opp) \<and>
     (\<forall>p. \<forall>y\<in>set (Q (opposite opp) p). value_at (pool b') y = value_at (pool b) y)"

lemma side_to_refl: "side_to opp b Q b Q []"
  by (simp add: side_to_def)

lemma side_to_trans: "side_to opp b Q b' Q' ts \<Longrightarrow> side_to opp b' Q' b'' Q'' us \<Longrightarrow> side_to opp b Q b'' Q'' (ts @ us)"
  by (simp add: side_to_def)

lemma sweep_spent: "ord_qty i = 0 \<Longrightarrow> sweep pol lim os i rep seq = (os, i, rep, [])"
  by (cases os) auto

lemma book_wfD:
  assumes "book_wf b Q"
  shows "core_wf (pool b) (order_index b) (find_of b) Q" "qtys_pos (pool b) Q" "ring_inv (trade_out b)"
    "ladders_wf b" "uncrossed Q" "ladder_inv (is_bid sd) (ladder_of sd b)"
  using assms ladders_wfD(1) [of b sd] by (auto simp: book_wf_def)

text \<open>The best level is the level of the first order of the ranked list.\<close>

lemma best_level:
  assumes wf: "book_wf b Q" and rel: "side_rel (pool b) Q opp os"
  shows "ladder_best (is_bid opp) (ladder_of opp b) = None \<Longrightarrow> os = []"
    "ladder_best (is_bid opp) (ladder_of opp b) = Some (p, l) \<Longrightarrow>
       lvl_inv b (find_of b) Q opp p l os \<and> os \<noteq> [] \<and> res_price (hd os) = p"
proof -
  note d = book_wfD [OF wf]
  note qf = queue_facts [OF d(1)]
  note inv = d(6) [of opp]
  show "os = []" if "ladder_best (is_bid opp) (ladder_of opp b) = None"
  proof -
    have "Q opp q = []" for q using qf(2) [of opp q] ladder.best_None_law [OF inv] that by simp
    then have "ranks (is_bid opp) (\<lambda>p. map (value_at (pool b)) (Q opp p)) []" by (simp add: ranks_Nil_iff)
    then show ?thesis using rel ranks_unique unfolding side_rel_def by blast
  qed
  assume best: "ladder_best (is_bid opp) (ladder_of opp b) = Some (p, l)"
  note bl = ladder.best_Some_law [OF inv best]
  have ne: "Q opp p \<noteq> []" using qf(3) [of opp p l] bl by blast
  have "\<not> better (is_bid opp) q p" if "Q opp q \<noteq> []" for q using bl qf(2) [of opp q] that by auto
  then have li: "lvl_inv b (find_of b) Q opp p l os" using d(1,3) bl ne rel by (simp add: lvl_inv_def)
  obtain x xs where q: "Q opp p = x # xs" using ne by (cases "Q opp p") auto
  obtain os' where "os = value_at (pool b) x # os'" using lvl_first [OF li q] by blast
  then show "lvl_inv b (find_of b) Q opp p l os \<and> os \<noteq> [] \<and> res_price (hd os) = p"
    using li core_wfD(6) [OF d(1), of x opp p] q by simp
qed

text \<open>One iteration: the level is worked on and stored back.\<close>

lemma outer_step:
  assumes wf: "book_wf b Q" and rel: "side_rel (pool b) Q opp os"
    and best: "ladder_best (is_bid opp) (ladder_of opp b) = Some (p, l)"
    and cr: "crosses (ord_side i) lim p" and stp: "stp = stp_possible (policy b) (ord_owner i)" and nh: "\<not> stp_halted rep"
  obtains b1 l1 i1 rep1 L1 Q1 os1 ts where "match_level stp p b l i rep = Some (b1, l1, i1, rep1)"
    "(if level_empty l1 then ladder_closed (is_bid opp) p (set_level p l1 (ladder_of opp b1))
      else ret () (set_level p l1 (ladder_of opp b1))) = ret () L1"
    "book_wf (set_ladder opp L1 b1) Q1" "side_rel (pool b1) Q1 opp os1" "same_taker i i1"
    "side_to opp b Q (set_ladder opp L1 b1) Q1 ts"
    "sweep (policy b) lim os i rep (next_seq b) = prepend ts (sweep (policy b) lim os1 i1 rep1 (next_seq b1))"
    "if stp_halted rep1 then sweep (policy b) lim os1 i1 rep1 (next_seq b1) = (os1, i1, rep1, [])
     else ord_qty i1 = 0 \<or> length os1 < length os"
proof -
  note d = book_wfD [OF wf] and bl = best_level(2) [OF wf rel best]
  have li: "lvl_inv b (find_of b) Q opp p l os" using bl by blast
  obtain b1 l1 i1 rep1 F1 Q1 os1 ts where m: "match_level stp p b l i rep = Some (b1, l1, i1, rep1)"
      "lvl_inv b1 F1 Q1 opp p l1 os1" "F1 = upd2 (find_of b) opp p (if Q1 opp p = [] then None else Some l1)"
      "qtys_pos (pool b1) Q1" "lvl_to lim opp p (b, Q, os, i, rep) (b1, Q1, os1, i1, rep1) ts"
      "if stp_halted rep1 then sweep (policy b) lim os1 i1 rep1 (next_seq b1) = (os1, i1, rep1, [])
       else ord_qty i1 = 0 \<or> Q1 opp p = []"
    using match_level_spec [OF li d(2) cr stp nh refl] unfolding level_post_def prod.case by blast
  note m1 = lvl_invD [OF m(2)] and to = m(5) [unfolded lvl_to.simps]
  have fr: "ladder_of sd b1 = ladder_of sd b" for sd using to same_frame_ladder by blast
  have e: "level_empty l1 \<longleftrightarrow> Q1 opp p = []" by (rule lvl_empty_iff [OF m(2)])
  have f: "ladder_find (ladder_of opp b1) p \<noteq> None" using ladder.best_Some_law [OF d(6) best] fr by simp
  have inv1: "ladder_inv (is_bid opp) (ladder_of opp b1)" using d(6) fr by simp
  have le: "l1 = empty_level" if "level_empty l1" using e m1(4) that by blast
  obtain L1 where L1: "(if level_empty l1 then ladder_closed (is_bid opp) p (set_level p l1 (ladder_of opp b1))
      else ret () (set_level p l1 (ladder_of opp b1))) = ret () L1"
      "ladder_inv (is_bid opp) L1" "is_placed L1 = is_placed (ladder_of opp b1)"
      "ladder_find L1 = (ladder_find (ladder_of opp b1))(p := if level_empty l1 then None else Some l1)"
    using write_back [OF inv1 f le] by blast
  let ?b = "set_ladder opp L1 b1"
  obtain ys where ys: "Q1 = upd2 Q opp p ys" "set ys \<subseteq> set (Q opp p)" using to by blast
  have F: "find_of ?b = F1" using L1(4) fr e m(3) by (auto simp: fun_eq_iff)
  have lw: "ladders_wf ?b"
    using ladders_wf_set [OF _ L1(2,3)] d(4) ladders_wf_cong [of b1 b] fr by simp
  have "Q1 s r \<noteq> [] \<Longrightarrow> Q s r \<noteq> []" for s r using ys by (auto split: if_splits)
  then have unc: "uncrossed Q1" using d(5) unfolding uncrossed_def by blast
  have wf1: "book_wf ?b Q1" using m1(1,2) m(4) lw unc F by (simp add: book_wf_def)
  have other: "y \<in> all_slots Q - set (Q opp p)" if "y \<in> set (Q (opposite opp) r)" for y r
    using that queued_once(1) [OF d(1) that, of opp p] unfolding all_slots_def by auto
  have st: "side_to opp b Q ?b Q1 ts"
    using to ys fr [of "opposite opp"] other by (auto simp: side_to_def same_frame_def keeps_def)
  have "Q opp p \<noteq> []" using queue_facts(3) [OF d(1), of opp p l] ladder.best_Some_law [OF d(6) best] by blast
  moreover have "length os1 + length (Q opp p) = length os + length (Q1 opp p)" using to by blast
  ultimately have len: "length os1 < length os" if "Q1 opp p = []" using that by (cases "Q opp p") auto
  show thesis
    by (rule that [OF m(1) L1(1) wf1 m1(5) _ st]) (use to m(6) len in auto)
qed

lemma match_side_spec:
  assumes "book_wf b Q" and "side_rel (pool b) Q opp os" and "\<not> stp_halted rep"
    and "stp = stp_possible (policy b) (ord_owner i)"
  shows "\<exists>b' Q' i' rep' os' ts. match_side stp opp lim i rep b = ret (i', rep') b' \<and>
    sweep (policy b) lim os i rep (next_seq b) = (os', i', rep', ts) \<and> book_wf b' Q' \<and>
    side_rel (pool b') Q' opp os' \<and> side_to opp b Q b' Q' ts \<and> same_taker i i'"
  using assms
proof (induction "length os" arbitrary: b Q os i rep rule: less_induct)
  case less
  note wf = less.prems(1) and rel = less.prems(2) and nh = less.prems(3) and stp = less.prems(4)
  have stop: ?case if "match_side stp opp lim i rep b = ret (i, rep) b"
      "sweep (policy b) lim os i rep (next_seq b) = (os, i, rep, [])"
    using that wf rel side_to_refl [of opp b Q]
    by (intro exI [of _ b] exI [of _ Q] exI [of _ i] exI [of _ rep] exI [of _ os] exI [of _ "[] :: trade list"])
      (simp add: same_taker_def)
  show ?case
  proof (cases "ord_qty i = 0")
    case True
    then show ?thesis by (intro stop) (simp_all add: match_side.simps sweep_spent)
  next
    case False
    then have gt: "ord_qty i > 0" by (simp add: word_gt_0)
    show ?thesis
    proof (cases "ladder_best (is_bid opp) (ladder_of opp b)")
      case None
      then show ?thesis using best_level(1) [OF wf rel None] gt by (intro stop) (simp_all add: match_side.simps)
    next
      case (Some pl)
      obtain p l where best: "ladder_best (is_bid opp) (ladder_of opp b) = Some (p, l)" using Some by (cases pl) auto
      show ?thesis
      proof (cases "crosses (ord_side i) lim p")
        case nc: False
        obtain m ms where os: "os = m # ms" "res_price m = p"
          using best_level(2) [OF wf rel best] by (cases os) auto
        show ?thesis
          using gt nc best os by (intro stop) (simp_all add: match_side.simps)
      next
        case True
        obtain b1 l1 i1 rep1 L1 Q1 os1 ts where st: "match_level stp p b l i rep = Some (b1, l1, i1, rep1)"
          "(if level_empty l1 then ladder_closed (is_bid opp) p (set_level p l1 (ladder_of opp b1))
            else ret () (set_level p l1 (ladder_of opp b1))) = ret () L1"
          "book_wf (set_ladder opp L1 b1) Q1" "side_rel (pool b1) Q1 opp os1" "same_taker i i1"
          "side_to opp b Q (set_ladder opp L1 b1) Q1 ts"
          "sweep (policy b) lim os i rep (next_seq b) = prepend ts (sweep (policy b) lim os1 i1 rep1 (next_seq b1))"
          "if stp_halted rep1 then sweep (policy b) lim os1 i1 rep1 (next_seq b1) = (os1, i1, rep1, [])
           else ord_qty i1 = 0 \<or> length os1 < length os"
          using outer_step [OF wf rel best True stp nh] by blast
        let ?b = "set_ladder opp L1 b1"
        have run: "match_side stp opp lim i rep b =
            (if stp_halted rep1 then ret (i1, rep1) ?b else match_side stp opp lim i1 rep1 ?b)"
          using gt best True st(1,2) by (simp add: match_side.simps [of stp opp lim i] Let_def)
        have finish: ?thesis if "match_side stp opp lim i rep b = ret (i1, rep1) ?b"
            "sweep (policy b) lim os1 i1 rep1 (next_seq b1) = (os1, i1, rep1, [])"
          using that st(3-7)
          by (intro exI [of _ ?b] exI [of _ Q1] exI [of _ i1] exI [of _ rep1] exI [of _ os1] exI [of _ ts]) simp
        show ?thesis
        proof (cases "stp_halted rep1 \<or> ord_qty i1 = 0")
          case True
          then show ?thesis
            using run st(8) by (intro finish) (auto simp: match_side.simps [of stp opp lim i1] sweep_spent split: if_splits)
        next
          case False
          have pol: "policy ?b = policy b" "next_seq b1 = next_seq b + of_nat (length ts)"
            using st(6) by (simp_all add: side_to_def)
          have pre: "side_rel (pool ?b) Q1 opp os1" "\<not> stp_halted rep1" "stp = stp_possible (policy ?b) (ord_owner i1)"
            using st(4,5) False stp pol by (auto simp: same_taker_def)
          have "length os1 < length os" using st(8) False by simp
          then obtain b' Q' i' rep' os' us where ih: "match_side stp opp lim i1 rep1 ?b = ret (i', rep') b'"
              "sweep (policy ?b) lim os1 i1 rep1 (next_seq ?b) = (os', i', rep', us)" "book_wf b' Q'"
              "side_rel (pool b') Q' opp os'" "side_to opp ?b Q1 b' Q' us" "same_taker i1 i'"
            using less.hyps [OF _ st(3) pre] by blast
          have "match_side stp opp lim i rep b = ret (i', rep') b'" using run False ih(1) by simp
          moreover have "sweep (policy b) lim os i rep (next_seq b) = (os', i', rep', ts @ us)"
            using st(7) ih(2) pol by simp
          moreover have "same_taker i i'" using st(5) ih(6) by (simp add: same_taker_def)
          ultimately show ?thesis using ih(3,4) side_to_trans [OF st(6) ih(5)] by blast
        qed
      qed
    qed
  qed
qed

end
