(* ===== verification/Book_Refinement.thy ===== *)
theory Book_Refinement
  imports Matching
begin

section \<open>The engine implements the price-time specification\<close>

text \<open>
  Each public operation of the book returns (it neither loops forever, nor throws, nor follows a
  missing level), keeps the invariant, and does to the two ranked lists exactly what the
  specification says. The only bound is the documented one of \<open>2 ^ 31\<close> resting orders.
\<close>

definition book_rel :: "book \<Rightarrow> queues \<Rightarrow> spec_book \<Rightarrow> bool" where
  "book_rel b Q A \<longleftrightarrow> book_wf b Q \<and> (\<forall>sd. side_rel (pool b) Q sd (spec_orders A sd)) \<and>
     policy b = spec_policy A \<and> next_seq b = spec_seq A"

lemma book_relD:
  assumes "book_rel b Q A"
  shows "book_wf b Q" "side_rel (pool b) Q sd (spec_orders A sd)" "policy b = spec_policy A" "next_seq b = spec_seq A"
    "core_wf (pool b) (order_index b) (find_of b) Q"
  using assms by (auto simp: book_rel_def book_wf_def)

subsection \<open>Orders, slots and ids\<close>

lemma spec_order_iff:
  assumes rel: "book_rel b Q A"
  shows "r \<in> set (spec_orders A sd) \<longleftrightarrow> (\<exists>p x. x \<in> set (Q sd p) \<and> r = value_at (pool b) x)"
proof -
  note d = book_relD [OF rel] and c = core_wfD [OF book_relD(5) [OF rel]]
  have "r \<in> set (spec_orders A sd) \<longleftrightarrow> r \<in> set (map (value_at (pool b)) (Q sd (res_price r)))"
    using ranksD(3) [OF d(2) [unfolded side_rel_def]] .
  also have "\<dots> \<longleftrightarrow> (\<exists>p x. x \<in> set (Q sd p) \<and> r = value_at (pool b) x)" using c(6) by auto
  finally show ?thesis .
qed

text \<open>A lookup in the specification is the lookup the engine makes through its index.\<close>

lemma spec_find_index:
  assumes rel: "book_rel b Q A"
  shows "spec_find k A =
    map_option (\<lambda>v. api_order (side_of v) (value_at (pool b) (slot_of v))) (ix_map (order_index b) k)"
proof -
  note c = core_wfD [OF book_relD(5) [OF rel]] and qs = queued_slot [OF book_relD(5) [OF rel]]
  let ?os = "map (api_order Buy) (spec_orders A Buy) @ map (api_order Sell) (spec_orders A Sell)"
  have in_os: "y \<in> set ?os \<longleftrightarrow> (\<exists>sd p x. x \<in> set (Q sd p) \<and> y = api_order sd (value_at (pool b) x))" for y
  proof
    assume "y \<in> set ?os"
    then obtain sd r where r: "r \<in> set (spec_orders A sd)" "y = api_order sd r" by auto
    then show "\<exists>sd p x. x \<in> set (Q sd p) \<and> y = api_order sd (value_at (pool b) x)"
      using spec_order_iff [OF rel, of r sd] by blast
  next
    assume "\<exists>sd p x. x \<in> set (Q sd p) \<and> y = api_order sd (value_at (pool b) x)"
    then obtain sd r where r: "r \<in> set (spec_orders A sd)" "y = api_order sd r"
      using spec_order_iff [OF rel] by blast
    then show "y \<in> set ?os" by (cases sd) auto
  qed
  have ix: "ix_map (order_index b) k = Some (index_value x sd) \<and> slot_of (index_value x sd) = x \<and> side_of (index_value x sd) = sd"
    if "x \<in> set (Q sd p)" "res_id (value_at (pool b) x) = k" for sd p x
    using c(7) [OF that(1)] qs(4,5) [OF that(1)] that(2) by auto
  show ?thesis
  proof (cases "spec_find k A")
    case None
    then have n: "\<And>y. y \<in> set ?os \<Longrightarrow> ord_id y \<noteq> k" unfolding spec_find_def by (auto simp: find_None_iff)
    have "ix_map (order_index b) k = None"
    proof (rule ccontr)
      assume "ix_map (order_index b) k \<noteq> None"
      then obtain v where "ix_map (order_index b) k = Some v" by auto
      from c(8) [OF this] obtain sd p x where x: "x \<in> set (Q sd p)" "res_id (value_at (pool b) x) = k" by blast
      then have "api_order sd (value_at (pool b) x) \<in> set ?os" using in_os by blast
      from n [OF this] show False using x(2) by (simp add: api_order_def)
    qed
    then show ?thesis using None by simp
  next
    case (Some y)
    then have "y \<in> set ?os" "ord_id y = k"
      unfolding spec_find_def using find_Some_member [of _ ?os y] by blast+
    then obtain sd p x where x: "x \<in> set (Q sd p)" "y = api_order sd (value_at (pool b) x)" using in_os by blast
    have "res_id (value_at (pool b) x) = k" using x(2) \<open>ord_id y = k\<close> by (simp add: api_order_def)
    from ix [OF x(1) this] show ?thesis using Some x(2) by auto
  qed
qed

lemma spec_find_None: "book_rel b Q A \<Longrightarrow> spec_find k A = None \<longleftrightarrow> ix_map (order_index b) k = None"
  by (simp add: spec_find_index)

text \<open>Ids are unique, and the number of orders is the size of the book.\<close>

lemma distinct_by_price:
  assumes "\<And>p. distinct (map f (filter (\<lambda>r. res_price r = p) os))"
    and "\<And>x y. x \<in> set os \<Longrightarrow> y \<in> set os \<Longrightarrow> f x = f y \<Longrightarrow> res_price x = res_price y"
  shows "distinct (map f os)"
  using assms
proof (induction os)
  case (Cons x xs)
  have d: "distinct (map f (filter (\<lambda>r. res_price r = p) xs))" for p
    using Cons.prems(1) [of p] by (auto split: if_splits)
  have "distinct (map f xs)" by (rule Cons.IH [OF d]) (rule Cons.prems(2), simp_all)
  moreover have "f x \<notin> f ` set xs"
  proof
    assume "f x \<in> f ` set xs"
    then obtain y where y: "y \<in> set xs" "f x = f y" by auto
    then have "res_price y = res_price x" using Cons.prems(2) [of x y] by simp
    then show False using Cons.prems(1) [of "res_price x"] y by auto
  qed
  ultimately show ?case by simp
qed simp

lemma spec_ids_distinct:
  assumes rel: "book_rel b Q A"
  shows "distinct (spec_ids A)" "set (spec_ids A) = dom (ix_map (order_index b))"
proof -
  note cw = book_relD(5) [OF rel]
  note c = core_wfD [OF cw]
  have inj: "x = y" if "x \<in> set (Q sd p)" "y \<in> set (Q sd' p')" "res_id (value_at (pool b) x) = res_id (value_at (pool b) y)" for x y sd p sd' p'
    using queued_id_inj [OF cw that] .
  have d: "distinct (map res_id (spec_orders A sd))" for sd
  proof (rule distinct_by_price)
    fix p
    have "filter (\<lambda>r. res_price r = p) (spec_orders A sd) = map (value_at (pool b)) (Q sd p)"
      using ranksD(2) [OF book_relD(2) [OF rel, unfolded side_rel_def]] .
    moreover have "inj_on (\<lambda>x. res_id (value_at (pool b) x)) (set (Q sd p))" using inj by (auto simp: inj_on_def)
    ultimately show "distinct (map res_id (filter (\<lambda>r. res_price r = p) (spec_orders A sd)))"
      using queue_facts(1) [OF cw] by (simp add: distinct_map comp_def)
  next
    fix r s
    assume "r \<in> set (spec_orders A sd)" "s \<in> set (spec_orders A sd)" and e: "res_id r = res_id s"
    then obtain p x p' y where "x \<in> set (Q sd p)" "r = value_at (pool b) x" "y \<in> set (Q sd p')" "s = value_at (pool b) y"
      using spec_order_iff [OF rel] by metis
    then show "res_price r = res_price s" using inj e by metis
  qed
  have "set (map res_id (spec_orders A Buy)) \<inter> set (map res_id (spec_orders A Sell)) = {}"
  proof (rule ccontr)
    assume "\<not> ?thesis"
    then obtain r s where "r \<in> set (spec_orders A Buy)" "s \<in> set (spec_orders A Sell)" "res_id r = res_id s" by auto
    then obtain p x p' y where xy: "x \<in> set (Q Buy p)" "y \<in> set (Q Sell p')"
        "res_id (value_at (pool b) x) = res_id (value_at (pool b) y)"
      using spec_order_iff [OF rel] by metis
    then have "x = y" using inj by blast
    then show False using queued_once(1) [OF cw, of x Buy p Sell p'] xy by auto
  qed
  then show "distinct (spec_ids A)" using d by (simp add: spec_ids_def)
  show "set (spec_ids A) = dom (ix_map (order_index b))"
  proof (intro equalityI subsetI)
    fix k
    assume "k \<in> set (spec_ids A)"
    then obtain sd r where "r \<in> set (spec_orders A sd)" "k = res_id r" by (auto simp: spec_ids_def)
    then show "k \<in> dom (ix_map (order_index b))" using spec_order_iff [OF rel, of r sd] c(7) by auto
  next
    fix k
    assume "k \<in> dom (ix_map (order_index b))"
    then obtain sd p x where x: "x \<in> set (Q sd p)" "res_id (value_at (pool b) x) = k" using c(8) by blast
    then have "value_at (pool b) x \<in> set (spec_orders A sd)" using spec_order_iff [OF rel] by blast
    then show "k \<in> set (spec_ids A)" using x(2) by (cases sd) (auto simp: spec_ids_def)
  qed
qed

lemma book_size_spec:
  assumes rel: "book_rel b Q A"
  shows "book_size b = length (spec_ids A)" "pool_live (pool b) = length (spec_ids A)" "book_size b \<le> 2 ^ 31"
proof -
  note cw = book_relD(5) [OF rel]
  note c = core_wfD [OF cw] and s = spec_ids_distinct [OF rel]
  show l: "book_size b = length (spec_ids A)"
    using ix_size_card [OF c(3)] s distinct_card by (metis book_size_def)
  then show "pool_live (pool b) = length (spec_ids A)"
    using core_counts [OF cw] by (simp add: pool_size_def book_size_def)
  then show "book_size b \<le> 2 ^ 31" using l pool_invD(2) [OF c(1)] c(2) by simp
qed

subsection \<open>Inserting\<close>

lemma level_ref_open:
  assumes inv: "ladder_inv bid L"
  shows "level_ref (ladder_open bid p L) p = (case ladder_find L p of None \<Rightarrow> empty_level | Some l \<Rightarrow> l)"
proof (cases "in_window L p")
  case True
  have "in_window (ladder_open bid p L) p" "window (ladder_open bid p L) = window L" "lo (ladder_open bid p L) = lo L"
    using True by (auto simp: ladder_open_def note_opened_def Let_def)
  then show ?thesis
    using True ladder_invD(3) [OF inv in_window_index(1) [OF inv True]]
    by (auto simp: level_ref_def ladder_find_def Let_def)
next
  case False
  then show ?thesis
    using map_of_try_emplace [OF ladder_invD(8) [OF inv], of p p]
    by (auto simp: level_ref_def ladder_find_def ladder_open_def split: option.splits)
qed

text \<open>Before the first order rests the windows are placed; the book is empty then.\<close>

definition placed_book :: "side \<Rightarrow> price \<Rightarrow> book \<Rightarrow> book" where
  "placed_book sd p b = (if \<not> is_placed (ladder_of sd b) then place_windows p b else b)"

lemma placed_book_spec:
  assumes lw: "ladders_wf b"
  shows "ladders_wf (placed_book sd p b)" "is_placed (ladder_of s (placed_book sd p b))"
    "find_of (placed_book sd p b) = find_of b"
    "pool (placed_book sd p b) = pool b" "order_index (placed_book sd p b) = order_index b"
    "trade_out (placed_book sd p b) = trade_out b" "policy (placed_book sd p b) = policy b"
    "next_seq (placed_book sd p b) = next_seq b"
proof -
  define base where "base = centred_base p (length (window (bids b)))"
  have pw: "ladder_of s (place_windows p b) = ladder_place base (ladder_of s b)" for s
    by (simp add: place_windows_def Let_def base_def ladder_of_def)
  have e: "ladder_find (ladder_of s b) q = None" if "\<not> is_placed (ladder_of sd b)" for s q
  proof -
    have "\<not> is_placed (ladder_of s b)" using ladders_wfD(2) [OF lw] that by blast
    then have "limit (ladder_of s b) = 0" "overflow (ladder_of s b) = []"
      using ladder_invD(10) [OF ladders_wfD(1) [OF lw]] by auto
    then show ?thesis by (simp add: ladder_find_def in_window_def)
  qed
  note pl = ladder_place_spec [OF ladders_wfD(1) [OF lw]]
  have np: "ladders_wf (place_windows p b) \<and> is_placed (ladder_of s (place_windows p b)) \<and>
      find_of (place_windows p b) = find_of b" if "\<not> is_placed (ladder_of sd b)" for s
  proof -
    have "ladder_inv (is_bid s) (ladder_of s (place_windows p b))" "is_placed (ladder_of s (place_windows p b))" for s
      using pl [OF e [OF that]] pw by auto
    moreover have "find_of (place_windows p b) = find_of b" using pl(2) [OF e [OF that]] e [OF that] pw by (auto simp: fun_eq_iff)
    ultimately show ?thesis by (metis ladder_of_def ladders_wf_def side.distinct(1))
  qed
  show "ladders_wf (placed_book sd p b)" "find_of (placed_book sd p b) = find_of b"
    using lw np by (auto simp: placed_book_def)
  show "is_placed (ladder_of s (placed_book sd p b))"
    using np [of s] ladders_wfD(2) [OF lw, of s sd] by (auto simp: placed_book_def)
  show "pool (placed_book sd p b) = pool b" "order_index (placed_book sd p b) = order_index b"
    "trade_out (placed_book sd p b) = trade_out b" "policy (placed_book sd p b) = policy b"
    "next_seq (placed_book sd p b) = next_seq b"
    by (auto simp: placed_book_def place_windows_def Let_def)
qed

definition resting_of :: "order \<Rightarrow> resting_order" where
  "resting_of i = \<lparr>res_id = ord_id i, res_price = ord_price i, res_qty = ord_qty i, res_owner = ord_owner i\<rparr>"

lemma insert_order_spec:
  assumes rel: "book_rel b Q A" and room: "book_size b < 2 ^ 31" and new: "spec_find (ord_id i) A = None"
    and qty: "ord_qty i > 0" and sd: "ord_side i = sd"
    and nc: "\<And>x. x \<in> set (spec_orders A (opposite sd)) \<Longrightarrow> \<not> crosses sd (Some (ord_price i)) (res_price x)"
  shows "\<exists>b' Q'. insert_order sd i b = ret () b' \<and> trade_out b' = trade_out b \<and>
    book_rel b' Q' (A\<lparr>spec_orders := (spec_orders A)(sd := rank_insert (is_bid sd) (resting_of i) (spec_orders A sd))\<rparr>)"
proof -
  note d = book_relD [OF rel] and w = book_wfD [OF book_relD(1) [OF rel]]
  define p r where "p = ord_price i" and "r = resting_of i"
  define b0 where "b0 = placed_book sd p b"
  note pb = placed_book_spec [OF w(4), where sd = sd and p = p, folded b0_def]
  define b1 where "b1 = set_ladder sd (ladder_open (is_bid sd) p (ladder_of sd b0)) b0"
  have r: "res_id r = ord_id i" "res_price r = p" by (simp_all add: r_def resting_of_def p_def)
  have "pool_live (pool b) < 2 ^ 31" using room book_size_spec [OF rel] by simp
  moreover have "ix_map (order_index b) (res_id r) = None" using new spec_find_None [OF rel] r(1) by simp
  ultimately obtain x P1 l' P2 ix' where ins: "acquire zero_resting (pool b) = ret x P1" "unat x < 2 ^ 31" "x \<notin> all_slots Q"
    "append_slot (case find_of b sd p of None \<Rightarrow> empty_level | Some l \<Rightarrow> l) x
       (upd_slot x (\<lambda>s. s\<lparr>slot_value := r\<rparr>) P1) = (l', P2)"
    "\<not> level_empty l'" "ix_insert (order_index b) (res_id r) (index_value x sd) = ret () ix'"
    "core_wf P2 ix' (upd2 (find_of b) sd p (Some l')) (upd2 Q sd p (Q sd p @ [x]))" "value_at P2 x = r"
    and val: "\<And>y. y \<in> all_slots Q \<Longrightarrow> value_at P2 y = value_at (pool b) y"
    using core_insert [OF d(5) _ _ r(2), of sd] by blast
  let ?Q = "upd2 Q sd p (Q sd p @ [x])"
  have inv0: "ladder_inv (is_bid sd) (ladder_of sd b0)" by (rule ladders_wfD(1) [OF pb(1)])
  define L2 where "L2 = set_level p l' (ladder_of sd b1)"
  have L2: "L2 = ladder_put (is_bid sd) p l' (ladder_of sd b0)" by (simp add: L2_def b1_def ladder_put_def)
  note put = ladder.put_law [OF inv0 pb(2) ins(5), of p]
  define b' where "b' = (set_ladder sd L2 (b1\<lparr>pool := P2\<rparr>))\<lparr>order_index := ix'\<rparr>"
  have lref: "level_ref (ladder_of sd b1) p = (case find_of b sd p of None \<Rightarrow> empty_level | Some l \<Rightarrow> l)"
    using level_ref_open [OF inv0, of p] fun_cong [OF pb(3), of sd] by (simp add: b1_def)
  have b1f: "pool b1 = pool b" "order_index b1 = order_index b" by (simp_all add: b1_def pb)
  have small: "\<not> x \<ge> 2 ^ 31" using ins(2) by (simp add: word_le_nat_alt)
  have rr: "\<lparr>res_id = ord_id i, res_price = p, res_qty = ord_qty i, res_owner = ord_owner i\<rparr> = r"
    by (simp add: r_def resting_of_def p_def)
  have run: "insert_order sd i b = ret () b'"
    unfolding insert_order_def p_def [symmetric] placed_book_def [symmetric] b0_def [symmetric]
      b1_def [symmetric] Let_def rr
    using ins(1,4,6) lref small b1f sd r(1) by (simp add: L2_def [symmetric] b'_def)
  have lad: "ladder_of s b' = (if s = sd then L2 else ladder_of s b0)" for s
    by (simp add: b'_def b1_def)
  have F: "find_of b' = upd2 (find_of b) sd p (Some l')"
    using put L2 lad pb(3) by (auto simp: fun_eq_iff)
  have fields: "pool b' = P2" "order_index b' = ix'" "trade_out b' = trade_out b" "policy b' = policy b" "next_seq b' = next_seq b"
    by (simp_all add: b'_def b1_def pb)
  have lw: "ladders_wf b'"
    using ladders_wf_set [OF pb(1), of sd L2] put L2 pb(2) ladders_wf_cong [of b' "set_ladder sd L2 b0"] lad by simp
  have qp: "qtys_pos P2 ?Q"
    unfolding qtys_pos_def
  proof
    fix y
    assume "y \<in> all_slots ?Q"
    then have "y = x \<or> y \<in> all_slots Q" by (auto simp: all_slots_def split: if_splits)
    then show "0 < res_qty (value_at P2 y)"
    proof
      assume "y = x"
      then show ?thesis using ins(8) qty by (simp add: r_def resting_of_def)
    next
      assume "y \<in> all_slots Q"
      then show ?thesis using w(2) val by (simp add: qtys_pos_def)
    qed
  qed
  have opp: "q \<noteq> p \<and> (if sd = Buy then p < q else q < p)" if ne: "Q (opposite sd) q \<noteq> []" for q
  proof -
    obtain y where y: "y \<in> set (Q (opposite sd) q)" using ne by (cases "Q (opposite sd) q") auto
    then have "value_at (pool b) y \<in> set (spec_orders A (opposite sd))" using spec_order_iff [OF rel] by blast
    from nc [OF this] core_wfD(6) [OF d(5) y] show ?thesis
      by (cases sd) (auto simp: crosses_def p_def)
  qed
  have unc: "uncrossed ?Q"
    using w(5) opp by (cases sd) (auto simp: uncrossed_def)
  have wf: "book_wf b' ?Q" using ins(7) F fields qp lw unc ring_inv_def w(3) by (simp add: book_wf_def)
  have vQ: "map (value_at P2) (Q s q) = map (value_at (pool b)) (Q s q)" for s q
    using val by (auto simp: all_slots_def)
  have "side_rel P2 ?Q s (((spec_orders A)(sd := rank_insert (is_bid sd) r (spec_orders A sd))) s)" for s
  proof (cases "s = sd")
    case True
    have "ranks (is_bid sd) ((\<lambda>q. map (value_at (pool b)) (Q sd q))(p := map (value_at (pool b)) (Q sd p) @ [r]))
        (rank_insert (is_bid sd) r (spec_orders A sd))"
      using ranks_insert [OF d(2) [of sd, unfolded side_rel_def], of r] r(2) by simp
    moreover have "(\<lambda>q. map (value_at P2) (?Q sd q)) =
        (\<lambda>q. map (value_at (pool b)) (Q sd q))(p := map (value_at (pool b)) (Q sd p) @ [r])"
      using vQ ins(8) by (auto simp: fun_eq_iff)
    ultimately show ?thesis using True by (simp add: side_rel_def)
  next
    case False
    then show ?thesis using d(2) [of s] side_rel_cong [of P2 ?Q s "pool b" Q] vQ by simp
  qed
  then have "book_rel b' ?Q (A\<lparr>spec_orders := (spec_orders A)(sd := rank_insert (is_bid sd) r (spec_orders A sd))\<rparr>)"
    using wf d(3,4) fields by (simp add: book_rel_def)
  then show ?thesis using run fields(3) r_def by blast
qed

subsection \<open>Cancelling\<close>

lemma filter_id_absent:
  assumes rel: "book_rel b Q A" and "spec_find k A = None"
  shows "filter (\<lambda>r. res_id r \<noteq> k) (spec_orders A sd) = spec_orders A sd"
proof -
  have "k \<notin> set (spec_ids A)" using assms spec_find_None [OF rel] spec_ids_distinct(2) [OF rel] by auto
  then show ?thesis by (cases sd) (auto simp: spec_ids_def filter_id_conv)
qed

text \<open>Removing the order in slot \<open>x\<close> once its entry has left the index.\<close>

lemma remove_order_spec:
  assumes rel: "book_rel b Q A" and x: "x \<in> set (Q sd p)" and k: "k = res_id (value_at (pool b) x)"
    and ix: "ix_inv ix'" "ix_map ix' = (ix_map (order_index b))(k := None)"
  shows "\<exists>b' Q'. remove_order sd x (b\<lparr>order_index := ix'\<rparr>) = ret () b' \<and> trade_out b' = trade_out b \<and>
    book_rel b' Q' (A\<lparr>spec_orders := \<lambda>s. filter (\<lambda>r. res_id r \<noteq> k) (spec_orders A s)\<rparr>)"
proof -
  note d = book_relD [OF rel] and w = book_wfD [OF book_relD(1) [OF rel]]
  note cw = d(5)
  note c = core_wfD [OF cw] and qf = queue_facts [OF cw]
  obtain xs ys where q: "Q sd p = xs @ x # ys" using x by (auto dest: split_list)
  obtain l where f: "find_of b sd p = Some l" using qf(2) [of sd p] x by (cases "find_of b sd p") auto
  obtain l' P' where det: "detach l x (pool b) = (l', P')"
      "core_wf P' ix' (upd2 (find_of b) sd p (if xs @ ys = [] then None else Some l')) (upd2 Q sd p (xs @ ys))"
      "level_empty l' \<longleftrightarrow> xs @ ys = []" "xs @ ys = [] \<Longrightarrow> l' = empty_level"
    and val: "\<And>y. y \<noteq> x \<Longrightarrow> value_at P' y = value_at (pool b) y"
    using core_detach [OF cw f q ix(1) ix(2) [unfolded k]] by blast
  let ?Q = "upd2 Q sd p (xs @ ys)"
  have le: "l' = empty_level" if "level_empty l'" using det(3,4) that by blast
  have fn: "ladder_find (ladder_of sd b) p \<noteq> None" using f by simp
  obtain L' where L': "(if level_empty l' then ladder_closed (is_bid sd) p (set_level p l' (ladder_of sd b))
      else ret () (set_level p l' (ladder_of sd b))) = ret () L'"
      "ladder_inv (is_bid sd) L'" "is_placed L' = is_placed (ladder_of sd b)"
      "ladder_find L' = (ladder_find (ladder_of sd b))(p := if level_empty l' then None else Some l')"
    using write_back [OF w(6) fn le] by blast
  define b' where "b' = set_ladder sd L' (b\<lparr>order_index := ix', pool := P'\<rparr>)"
  have run: "remove_order sd x (b\<lparr>order_index := ix'\<rparr>) = ret () b'"
    using f det(1) L'(1) c(6) [OF x] by (simp add: remove_order_def Let_def b'_def)
  have F: "find_of b' = upd2 (find_of b) sd p (if xs @ ys = [] then None else Some l')"
    using L'(4) det(3) by (auto simp: b'_def fun_eq_iff)
  have lw: "ladders_wf b'"
    using ladders_wf_set [OF w(4) L'(2,3)] ladders_wf_cong [of b' "set_ladder sd L' b"] by (simp add: b'_def)
  have nx: "y \<noteq> x" if "y \<in> set (?Q s r)" for y s r
    using that q qf(1) [of sd p] queued_once [OF cw x, of s r] by (auto split: if_splits)
  have sub: "set (?Q s r) \<subseteq> set (Q s r)" for s r using q by auto
  have qp: "qtys_pos P' ?Q"
  proof -
    have "0 < res_qty (value_at P' y)" if "y \<in> set (?Q s r)" for y s r
    proof -
      have "y \<in> all_slots Q" using sub [of s r] that unfolding all_slots_def by blast
      then show ?thesis using w(2) val [OF nx [OF that]] by (simp add: qtys_pos_def)
    qed
    then show ?thesis unfolding qtys_pos_def all_slots_def by blast
  qed
  have "Q s r \<noteq> []" if "?Q s r \<noteq> []" for s r using sub [of s r] that by auto
  then have unc: "uncrossed ?Q" using w(5) unfolding uncrossed_def by blast
  have wf: "book_wf b' ?Q" using det(2) F qp lw unc w(3) by (simp add: book_wf_def b'_def)
  have ids: "res_id (value_at (pool b) y) = k \<longleftrightarrow> y = x" if "y \<in> set (Q s r)" for y s r
    using queued_id_inj [OF cw that x] k by auto
  have vals: "map (value_at P') (?Q s r) = filter (\<lambda>r. res_id r \<noteq> k) (map (value_at (pool b)) (Q s r))" for s r
  proof -
    have v: "map (value_at P') (?Q s r) = map (value_at (pool b)) (?Q s r)" using val nx by simp
    have e: "?Q s r = filter (\<lambda>y. res_id (value_at (pool b) y) \<noteq> k) (Q s r)"
    proof (cases "s = sd \<and> r = p")
      case True
      have "filter (\<lambda>y. res_id (value_at (pool b) y) \<noteq> k) (Q sd p) = filter (\<lambda>y. y \<noteq> x) (Q sd p)"
        using ids by (intro filter_cong) auto
      also have "\<dots> = xs @ ys"
      proof -
        have "x \<notin> set xs" "x \<notin> set ys" using q qf(1) [of sd p] by auto
        then have "filter (\<lambda>y. y \<noteq> x) xs = xs" "filter (\<lambda>y. y \<noteq> x) ys = ys"
          by (auto simp: filter_id_conv)
        then show ?thesis by (simp add: q)
      qed
      finally show ?thesis using True by simp
    next
      case False
      have "y \<noteq> x" if "y \<in> set (Q s r)" for y using queued_once [OF cw x, of s r] that False by auto
      then have "filter (\<lambda>y. res_id (value_at (pool b) y) \<noteq> k) (Q s r) = Q s r"
        using ids by (simp add: filter_id_conv)
      then show ?thesis using False by auto
    qed
    show ?thesis unfolding v unfolding e filter_map comp_def ..
  qed
  have "side_rel P' ?Q s (filter (\<lambda>r. res_id r \<noteq> k) (spec_orders A s))" for s
    using ranks_filter [OF d(2) [of s, unfolded side_rel_def], of "\<lambda>r. res_id r \<noteq> k"]
    unfolding side_rel_def vals .
  then have "book_rel b' ?Q (A\<lparr>spec_orders := \<lambda>s. filter (\<lambda>r. res_id r \<noteq> k) (spec_orders A s)\<rparr>)"
    using wf d(3,4) by (simp add: book_rel_def b'_def)
  then show ?thesis using run by (intro exI [of _ b'] exI [of _ ?Q]) (simp add: b'_def)
qed

lemma cancel_refines:
  assumes rel: "book_rel b Q A"
  shows "\<exists>b' Q'. cancel k b = ret (fst (spec_cancel k A)) b' \<and> trade_out b' = trade_out b \<and>
    book_rel b' Q' (snd (spec_cancel k A))"
proof -
  note c = core_wfD [OF book_relD(5) [OF rel]] and qs = queued_slot [OF book_relD(5) [OF rel]]
  obtain ix' where ix': "ix_take (order_index b) k = Some (ix_map (order_index b) k, ix')" "ix_inv ix'"
      "ix_map ix' = (ix_map (order_index b))(k := None)"
    using ix_take_spec [OF c(3)] by blast
  show ?thesis
  proof (cases "ix_map (order_index b) k")
    case None
    then have sf: "spec_find k A = None" using spec_find_None [OF rel] by simp
    have "book_rel b Q (snd (spec_cancel k A))"
      using rel filter_id_absent [OF rel sf] by (simp add: spec_cancel_def)
    moreover have "cancel k b = ret False b" using ix'(1) None by (simp add: cancel_def)
    ultimately show ?thesis using sf by (intro exI [of _ b] exI [of _ Q]) (simp add: spec_cancel_def)
  next
    case (Some v)
    obtain sd p x where x: "x \<in> set (Q sd p)" "v = index_value x sd" "res_id (value_at (pool b) x) = k"
      using c(8) [OF Some] by blast
    have so: "slot_of v = x" "side_of v = sd" using x(2) qs(4,5) [OF x(1)] by auto
    obtain b' Q' where rm: "remove_order sd x (b\<lparr>order_index := ix'\<rparr>) = ret () b'" "trade_out b' = trade_out b"
        "book_rel b' Q' (A\<lparr>spec_orders := \<lambda>s. filter (\<lambda>r. res_id r \<noteq> k) (spec_orders A s)\<rparr>)"
      using remove_order_spec [OF rel x(1) x(3) [symmetric] ix'(2,3)] by blast
    have "cancel k b = ret True b'" using ix'(1) Some so rm(1) by (simp add: cancel_def)
    moreover have "spec_find k A \<noteq> None" using spec_find_None [OF rel] Some by simp
    ultimately show ?thesis using rm by (intro exI [of _ b'] exI [of _ Q']) (simp add: spec_cancel_def)
  qed
qed

subsection \<open>Submitting and modifying\<close>

lemma side_to_other:
  assumes "side_to opp b Q b' Q' ts"
  shows "map (value_at (pool b')) (Q' (opposite opp) r) = map (value_at (pool b)) (Q (opposite opp) r)"
  using assms by (simp add: side_to_def)

lemma match_order_refines:
  assumes rel: "book_rel b Q A" and nh: "\<not> stp_halted rep"
    and sw: "sweep (spec_policy A) lim (spec_orders A opp) i rep (spec_seq A) = (os, i', rep', ts)"
  shows "\<exists>b' Q'. match_order opp i lim rep b = ret (i', rep') b' \<and> trade_out b' = push_all ts (trade_out b) \<and>
    book_rel b' Q' (A\<lparr>spec_orders := (spec_orders A)(opp := os), spec_seq := spec_seq A + of_nat (length ts)\<rparr>) \<and>
    same_taker i i'"
proof -
  note d = book_relD [OF rel]
  obtain b' Q' i2 rep2 os2 us where m: "match_side (stp_possible (policy b) (ord_owner i)) opp lim i rep b = ret (i2, rep2) b'"
      "sweep (policy b) lim (spec_orders A opp) i rep (next_seq b) = (os2, i2, rep2, us)" "book_wf b' Q'"
      "side_rel (pool b') Q' opp os2" "side_to opp b Q b' Q' us" "same_taker i i2"
    using match_side_spec [OF d(1) d(2) nh refl] by blast
  have eq: "i2 = i'" "rep2 = rep'" "os2 = os" "us = ts" using m(2) sw d(3,4) by auto
  have "side_rel (pool b') Q' (opposite opp) (spec_orders A (opposite opp))"
    using d(2) [of "opposite opp"] side_rel_cong side_to_other [OF m(5)] by blast
  then have "side_rel (pool b') Q' s (((spec_orders A)(opp := os)) s)" for s
    using m(4) eq neq_side [of s opp] by auto
  then have "book_rel b' Q' (A\<lparr>spec_orders := (spec_orders A)(opp := os), spec_seq := spec_seq A + of_nat (length ts)\<rparr>)"
    using m(3,5) d(3,4) eq by (simp add: book_rel_def side_to_def)
  then show ?thesis
    using m(1,5,6) eq by (intro exI [of _ b'] exI [of _ Q']) (simp add: match_order_def side_to_def)
qed

lemma submit_refines:
  assumes rel: "book_rel b Q A" and room: "book_size b < 2 ^ 31" and lim: "rest \<Longrightarrow> lim \<noteq> None"
    and spec: "spec_submit k owner sd lim qty rest A = (rep, ts, A')"
  shows "\<exists>b' Q'. submit k owner sd lim qty rest b = ret rep b' \<and> trade_out b' = push_all ts (trade_out b) \<and>
    book_rel b' Q' A'"
proof -
  note d = book_relD [OF rel] and c = core_wfD [OF book_relD(5) [OF rel]]
  have ct: "ix_contains (order_index b) k = Some (spec_find k A \<noteq> None)"
    using ix_find_spec [OF c(3)] spec_find_None [OF rel] by (simp add: ix_contains_def)
  show ?thesis
  proof (cases "qty = 0 \<or> spec_find k A \<noteq> None")
    case True
    then have "rep = new_report\<lparr>accepted := False, remaining := qty\<rparr>" "ts = []" "A' = A"
      using spec by (auto simp: spec_submit_def)
    moreover have "submit k owner sd lim qty rest b = ret (new_report\<lparr>accepted := False, remaining := qty\<rparr>) b"
      using True ct by (auto simp: submit_def)
    ultimately show ?thesis using rel by auto
  next
    case False
    define i where "i = \<lparr>ord_id = k, ord_owner = owner, ord_price = (case lim of None \<Rightarrow> 0 | Some p \<Rightarrow> p),
      ord_qty = qty, ord_side = sd\<rparr>"
    obtain os i1 r us where sw: "sweep (spec_policy A) lim (spec_orders A (opposite sd)) i new_report (spec_seq A) = (os, i1, r, us)"
      by (cases "sweep (spec_policy A) lim (spec_orders A (opposite sd)) i new_report (spec_seq A)") auto
    define A1 where "A1 = A\<lparr>spec_orders := (spec_orders A)(opposite sd := os), spec_seq := spec_seq A + of_nat (length us)\<rparr>"
    define r1 where "r1 = r\<lparr>remaining := ord_qty i1\<rparr>"
    have h: "stp_halted r1 = stp_halted r" by (simp add: r1_def)
    have "\<not> stp_halted new_report" by (simp add: new_report_def)
    from match_order_refines [OF rel this sw] obtain b1 Q1 where m: "match_order (opposite sd) i lim new_report b = ret (i1, r) b1"
        "trade_out b1 = push_all us (trade_out b)" "book_rel b1 Q1 A1" "same_taker i i1"
      unfolding A1_def by blast
    have tk: "ord_id i1 = k" "ord_owner i1 = owner" "ord_price i1 = (case lim of None \<Rightarrow> 0 | Some p \<Rightarrow> p)" "ord_side i1 = sd"
      using m(4) by (simp_all add: same_taker_def i_def)
    have rr: "\<lparr>res_id = k, res_price = ord_price i1, res_qty = ord_qty i1, res_owner = owner\<rparr> = resting_of i1"
      using tk by (simp add: resting_of_def)
    have acc: "qty \<noteq> 0" "spec_find k A = None" using False by auto
    have sp: "(rep, ts, A') = (if rest \<and> ord_qty i1 > 0 \<and> \<not> stp_halted r1
        then (r1\<lparr>rested := True\<rparr>, us, A1\<lparr>spec_orders := (spec_orders A1)(sd :=
          rank_insert (is_bid sd) (resting_of i1) (spec_orders A1 sd))\<rparr>) else (r1, us, A1))"
      using spec_submit_accepted [OF acc i_def sw A1_def r1_def, of rest] unfolding spec rr .
    have sub: "submit k owner sd lim qty rest b =
        (if rest \<and> ord_qty i1 > 0 \<and> \<not> stp_halted r1
         then bind_run (insert_order sd i1 b1) (\<lambda>_ b2. ret (r1\<lparr>rested := True\<rparr>) b2) (\<lambda>s. s) else ret r1 b1)"
      using False ct m(1) h by (simp add: submit_def i_def [symmetric] r1_def [symmetric] Let_def)
    show ?thesis
    proof (cases "rest \<and> ord_qty i1 > 0 \<and> \<not> stp_halted r1")
      case True
      have res: "rep = r1\<lparr>rested := True\<rparr>" "ts = us"
          "A' = A1\<lparr>spec_orders := (spec_orders A1)(sd := rank_insert (is_bid sd) (resting_of i1) (spec_orders A1 sd))\<rparr>"
        using sp True by auto
      have len: "length (spec_ids A1) \<le> length (spec_ids A)"
        using sweep_length [OF sw] by (cases sd) (auto simp: spec_ids_def A1_def)
      have room1: "book_size b1 < 2 ^ 31" using len room book_size_spec(1) [OF rel] book_size_spec(1) [OF m(3)] by simp
      have new: "spec_find (ord_id i1) A1 = None"
      proof -
        have "set (spec_ids A1) \<subseteq> set (spec_ids A)"
          using sweep_ids [OF sw] by (cases sd) (auto simp: spec_ids_def A1_def)
        moreover have "k \<notin> set (spec_ids A)"
          using False spec_find_None [OF rel, of k] spec_ids_distinct(2) [OF rel] by auto
        ultimately show ?thesis
          using spec_find_None [OF m(3), of k] spec_ids_distinct(2) [OF m(3)] tk(1) by auto
      qed
      obtain pr where pr: "lim = Some pr" "ord_price i1 = pr" using lim True tk(3) by auto
      have so: "sorted_wrt (\<lambda>x y. \<not> better (is_bid (opposite (ord_side i))) (res_price y) (res_price x)) (spec_orders A (opposite sd))"
        using ranksD(1) [OF d(2) [of "opposite sd", unfolded side_rel_def]] by (simp add: i_def)
      have nh: "\<not> stp_halted r" "ord_qty i1 > 0" using True by (simp_all add: r1_def)
      have nc: "\<not> crosses sd (Some (ord_price i1)) (res_price x)" if "x \<in> set (spec_orders A1 (opposite sd))" for x
        using sweep_stops [OF sw so nh(2,1), of x] that pr by (simp add: A1_def i_def)
      obtain b2 Q2 where ins: "insert_order sd i1 b1 = ret () b2" "trade_out b2 = trade_out b1" "book_rel b2 Q2 A'"
        using insert_order_spec [OF m(3) room1 new nh(2) tk(4) nc] unfolding res(3) by blast
      show ?thesis using sub True ins m(2) res(1,2) by (intro exI [of _ b2] exI [of _ Q2]) simp
    next
      case no: False
      have "rep = r1" "ts = us" "A' = A1"
        using sp no by auto
      then show ?thesis using sub no m(2,3) by (intro exI [of _ b1] exI [of _ Q1]) simp
    qed
  qed
qed

lemma modify_refines:
  assumes rel: "book_rel b Q A" and spec: "spec_modify k p qty A = (rep, ts, A')"
  shows "\<exists>b' Q'. modify k p qty b = ret rep b' \<and> trade_out b' = push_all ts (trade_out b) \<and> book_rel b' Q' A'"
proof -
  note c = core_wfD [OF book_relD(5) [OF rel]]
  have fd: "ix_find (order_index b) k = Some (ix_map (order_index b) k)" by (rule ix_find_spec [OF c(3)])
  show ?thesis
  proof (cases "ix_map (order_index b) k")
    case None
    then have "spec_find k A = None" using spec_find_None [OF rel] by simp
    then have "rep = new_report\<lparr>accepted := False, remaining := qty\<rparr>" "ts = []" "A' = A"
      using spec by (auto simp: spec_modify_def)
    moreover have "modify k p qty b = ret (new_report\<lparr>accepted := False, remaining := qty\<rparr>) b"
      using fd None by (simp add: modify_def)
    ultimately show ?thesis using rel by (intro exI [of _ b] exI [of _ Q]) simp
  next
    case (Some v)
    define x where "x = api_order (side_of v) (value_at (pool b) (slot_of v))"
    have sf: "spec_find k A = Some x" using spec_find_index [OF rel] Some by (simp add: x_def)
    have ow: "res_owner (value_at (pool b) (slot_of v)) = ord_owner x" "side_of v = ord_side x"
      by (simp_all add: x_def api_order_def)
    obtain b1 Q1 where cn: "cancel k b = ret (fst (spec_cancel k A)) b1" "trade_out b1 = trade_out b"
        "book_rel b1 Q1 (snd (spec_cancel k A))"
      using cancel_refines [OF rel] by blast
    have run: "modify k p qty b = (if qty = 0 then ret new_report b1
        else submit k (ord_owner x) (ord_side x) (Some p) qty True b1)"
      using fd Some cn(1) ow by (simp add: modify_def add_limit_def Let_def)
    have sp: "(rep, ts, A') = (if qty = 0 then (new_report, [], snd (spec_cancel k A))
        else spec_submit k (ord_owner x) (ord_side x) (Some p) qty True (snd (spec_cancel k A)))"
      using spec sf by (simp add: spec_modify_def)
    show ?thesis
    proof (cases "qty = 0")
      case True
      then show ?thesis using run sp cn by (intro exI [of _ b1] exI [of _ Q1]) simp
    next
      case False
      have "k \<in> set (spec_ids A)" using Some spec_ids_distinct(2) [OF rel] by auto
      moreover have "spec_ids (snd (spec_cancel k A)) = filter (\<lambda>j. j \<noteq> k) (spec_ids A)"
        by (simp add: spec_cancel_def spec_ids_def filter_map comp_def)
      ultimately have "length (spec_ids (snd (spec_cancel k A))) < length (spec_ids A)"
        using length_filter_less [of k "spec_ids A" "\<lambda>j. j \<noteq> k"] by simp
      then have room: "book_size b1 < 2 ^ 31"
        using book_size_spec [OF rel] book_size_spec(1) [OF cn(3)] by simp
      have "spec_submit k (ord_owner x) (ord_side x) (Some p) qty True (snd (spec_cancel k A)) = (rep, ts, A')"
        using sp False by simp
      from submit_refines [OF cn(3) room _ this] show ?thesis using run False cn(2) by auto
    qed
  qed
qed

subsection \<open>Construction\<close>

definition no_orders :: queues where
  "no_orders = (\<lambda>_ _. [])"

lemma arena_request_less: "arena_request cfg < 2 ^ 64"
proof -
  have "unat (expected_orders cfg * 64 + 16) < 2 ^ 64" by (rule order_less_le_trans [OF unsigned_less]) simp
  then show ?thesis by (simp add: arena_request_def Let_def)
qed

lemma wanted_orders_le:
  "(if expected_orders cfg > 0 then expected_orders cfg else kDefaultPoolSlots) \<le> 2 ^ 57 \<longleftrightarrow> expected_orders cfg \<le> 2 ^ 57"
  by (auto simp: kDefaultPoolSlots_def word_gt_0)

text \<open>
  Every outcome of the constructor: it does not return only in the rounding of the ring's capacity, it throws
  \<^verbatim>\<open>length_error\<close> only for a vector above \<^verbatim>\<open>max_size()\<close>, \<^verbatim>\<open>bad_alloc\<close> only where the system refuses a block, and nothing else.
\<close>

lemma book_init_outcome:
  "case book_init grants cfg of
     None \<Rightarrow> expected_orders cfg \<le> 2 ^ 57 \<and> price_levels cfg < 2 ^ 59 \<and> 2 ^ 63 < trade_capacity cfg
   | Some (Inl e) \<Rightarrow>
       e = Length_error \<and> (2 ^ 57 < expected_orders cfg \<or> 2 ^ 59 \<le> price_levels cfg \<or>
         2 ^ 57 < trade_capacity cfg \<and> trade_capacity cfg \<le> 2 ^ 63) \<or>
       e = Bad_alloc \<and> (\<exists>bytes<2 ^ 64. 0 < bytes \<and> \<not> grants bytes)
   | Some (Inr b) \<Rightarrow> allocatable cfg \<and>
       (\<exists>ix ring. ix_new (if expected_orders cfg > 0 then expected_orders cfg else kDefaultPoolSlots) = Some (Inr ix) \<and>
          trade_ring_new (trade_capacity cfg) = Some (Inr ring) \<and>
          b = book_of_parts cfg (pool_new zero_resting (unat (if expected_orders cfg > 0 then expected_orders cfg else kDefaultPoolSlots)))
                (ladder_new (unat (price_levels cfg))) ix ring)"
proof -
  define n where "n = (if expected_orders cfg > 0 then expected_orders cfg else kDefaultPoolSlots)"
  note init = book_init_def [of grants cfg, folded n_def, unfolded Let_def]
  note n_le = wanted_orders_le [of cfg, folded n_def]
  have n_gt: "2 ^ 57 < n \<longleftrightarrow> 2 ^ 57 < expected_orders cfg" using n_le unfolding not_le [symmetric] by blast
  have refused: "\<exists>bytes<2 ^ 64. 0 < bytes \<and> \<not> grants bytes"
    if "take_block grants k \<noteq> Some (Inr ())" "k < 2 ^ 64" for k
    using that by (auto simp: take_block_def split: if_splits)
  have one: "take_block grants k = Some (Inr ()) \<or> take_block grants k = Some (Inl Bad_alloc)" for k
    by (simp add: take_block_def)
  have vec: "take_vector grants elem k = Some (Inr ()) \<and> k \<le> vector_max elem \<or>
      take_vector grants elem k = Some (Inl Length_error) \<and> vector_max elem < k \<or>
      take_vector grants elem k = Some (Inl Bad_alloc) \<and> (\<exists>bytes<2 ^ 64. 0 < bytes \<and> \<not> grants bytes)" for elem k
  proof (cases "k \<le> vector_max elem")
    case True
    have "elem * k \<le> elem * vector_max elem" using True by (rule mult_le_mono2)
    also have "\<dots> \<le> 2 ^ 63 - 1" by (simp add: vector_max_def)
    finally have "elem * k < 2 ^ 64" by simp
    then show ?thesis using True one [of "elem * k"] refused [of "elem * k"] by (auto simp: take_vector_def)
  qed (simp add: take_vector_def)
  consider (arena) "take_block grants (arena_request cfg) = Some (Inl Bad_alloc)"
    | (pool) "take_block grants (arena_request cfg) = Some (Inr ())" "take_vector grants kSlotBytes (unat n) = Some (Inl Length_error)"
        "vector_max kSlotBytes < unat n"
    | (pool_bad) "take_block grants (arena_request cfg) = Some (Inr ())" "take_vector grants kSlotBytes (unat n) = Some (Inl Bad_alloc)"
        "\<exists>bytes<2 ^ 64. 0 < bytes \<and> \<not> grants bytes"
    | (levels) "take_block grants (arena_request cfg) = Some (Inr ())" "take_vector grants kSlotBytes (unat n) = Some (Inr ())"
        "take_vector grants kLevelBytes (unat (price_levels cfg)) = Some (Inl Length_error)" "vector_max kLevelBytes < unat (price_levels cfg)"
    | (levels_bad) "take_block grants (arena_request cfg) = Some (Inr ())" "take_vector grants kSlotBytes (unat n) = Some (Inr ())"
        "take_vector grants kLevelBytes (unat (price_levels cfg)) = Some (Inl Bad_alloc)" "\<exists>bytes<2 ^ 64. 0 < bytes \<and> \<not> grants bytes"
    | (tables) "take_block grants (arena_request cfg) = Some (Inr ())" "take_vector grants kSlotBytes (unat n) = Some (Inr ())"
        "take_vector grants kLevelBytes (unat (price_levels cfg)) = Some (Inr ())"
        "unat n \<le> vector_max kSlotBytes" "unat (price_levels cfg) \<le> vector_max kLevelBytes"
    using one [of "arena_request cfg"] vec [of kSlotBytes "unat n"] vec [of kLevelBytes "unat (price_levels cfg)"] by metis
  then have "case book_init grants cfg of
      None \<Rightarrow> expected_orders cfg \<le> 2 ^ 57 \<and> price_levels cfg < 2 ^ 59 \<and> 2 ^ 63 < trade_capacity cfg
    | Some (Inl e) \<Rightarrow>
        e = Length_error \<and> (2 ^ 57 < expected_orders cfg \<or> 2 ^ 59 \<le> price_levels cfg \<or>
          2 ^ 57 < trade_capacity cfg \<and> trade_capacity cfg \<le> 2 ^ 63) \<or>
        e = Bad_alloc \<and> (\<exists>bytes<2 ^ 64. 0 < bytes \<and> \<not> grants bytes)
    | Some (Inr b) \<Rightarrow> allocatable cfg \<and>
        (\<exists>ix ring. ix_new n = Some (Inr ix) \<and> trade_ring_new (trade_capacity cfg) = Some (Inr ring) \<and>
           b = book_of_parts cfg (pool_new zero_resting (unat n)) (ladder_new (unat (price_levels cfg))) ix ring)"
  proof cases
    case arena
    then show ?thesis using refused [of "arena_request cfg"] arena_request_less [of cfg] by (simp add: init)
  next
    case pool
    then have "\<not> n \<le> 2 ^ 57" by (auto simp: vector_max_def kSlotBytes_def word_le_nat_alt)
    then show ?thesis using pool n_gt by (simp add: init not_le)
  next
    case levels
    then have "2 ^ 59 \<le> price_levels cfg" by (auto simp: vector_max_def kLevelBytes_def word_le_nat_alt)
    then show ?thesis using levels by (simp add: init)
  next
    case tables
    have lev: "price_levels cfg < 2 ^ 59" using tables(5) by (simp add: vector_max_def kLevelBytes_def word_less_nat_alt)
    have n62: "n \<le> 2 ^ 62" using tables(4) by (simp add: vector_max_def kSlotBytes_def word_le_nat_alt)
    show ?thesis
    proof (cases "n \<le> 2 ^ 57")
      case False
      then have "ix_new n = Some (Inl Length_error :: fault + 32 word id_index)" using ix_new_outcome [of n, where 'v = "32 word"] n62 by simp
      then show ?thesis using tables False n_gt by (simp add: init not_le)
    next
      case True
      then obtain ix :: "32 word id_index" where ix: "ix_new n = Some (Inr ix)" using ix_new_outcome [of n, where 'v = "32 word"] by auto
      have len: "kEntryBytes * length (table ix) < 2 ^ 64"
        using ix by (auto simp: ix_new_def resize_table_def vector_max_def kEntryBytes_def split: if_splits)
      show ?thesis
      proof (cases "take_block grants (kEntryBytes * length (table ix)) = Some (Inr ())")
        case False
        then have b: "take_block grants (kEntryBytes * length (table ix)) = Some (Inl Bad_alloc)" using one by blast
        show ?thesis using refused [OF False len] by (simp add: init tables ix b)
      next
        case True
        show ?thesis
        proof (cases "trade_capacity cfg \<le> 2 ^ 57")
          case False
          then show ?thesis
            using trade_ring_new_outcome [of "trade_capacity cfg"] \<open>n \<le> 2 ^ 57\<close> n_le lev
            by (simp add: init tables ix True not_le)
        next
          case fits: True
          then obtain ring where ring: "trade_ring_new (trade_capacity cfg) = Some (Inr ring)"
            using trade_ring_new_outcome [of "trade_capacity cfg"] by auto
          have len: "kTradeBytes * length (buffer ring) < 2 ^ 64"
            using ring by (auto simp: trade_ring_new_def vector_max_def kTradeBytes_def split: if_splits)
          show ?thesis
          proof (cases "take_block grants (kTradeBytes * length (buffer ring)) = Some (Inr ())")
            case False
            then have b: "take_block grants (kTradeBytes * length (buffer ring)) = Some (Inl Bad_alloc)" using one by blast
            show ?thesis using refused [OF False len] by (simp add: init tables ix True ring b)
          next
            case last: True
            then show ?thesis
              using \<open>n \<le> 2 ^ 57\<close> n_le lev fits
              by (simp add: init tables ix True ring last allocatable_def)
          qed
        qed
      qed
    qed
  qed (simp_all add: init)
  then show ?thesis by (simp only: n_def)
qed

text \<open>The book that the constructor returns is empty.\<close>

lemma book_of_parts_rel:
  fixes ix :: "32 word id_index"
  assumes ix: "ix_inv ix" "ix_map ix = Map.empty" and ring: "ring_inv ring"
  shows "book_rel (book_of_parts cfg (pool_new zero_resting n) (ladder_new levels) ix ring) no_orders (spec_new (self_trade cfg))"
proof -
  define L where "L = (case price_base cfg of None \<Rightarrow> ladder_new levels | Some base \<Rightarrow> ladder_place base (ladder_new levels))"
  define b where "b = \<lparr>pool = pool_new zero_resting n, bids = L, asks = L, order_index = ix,
      trade_out = ring, policy = self_trade cfg, next_seq = 1\<rparr>"
  have parts: "book_of_parts cfg (pool_new zero_resting n) (ladder_new levels) ix ring = b"
    by (cases "price_base cfg") (auto simp: book_of_parts_def Let_def b_def L_def)
  have L: "ladder_inv bid L" "ladder_find L p = None" for bid p
    using ladder_new_inv ladder_new_find ladder_place_spec(1,2) [OF ladder_new_inv ladder_new_find]
    by (auto simp: L_def split: option.splits)
  have lad: "ladder_of sd b = L" for sd by (simp add: b_def ladder_of_def)
  have core: "core_wf (pool b) (order_index b) (find_of b) no_orders"
    by (rule core_wfI) (use pool_new_inv [of zero_resting n] ix L lad in
        \<open>auto simp: b_def level_ok_def all_slots_def no_orders_def pool_new_def\<close>)
  have "book_wf b no_orders"
    using core ring L lad
    by (auto simp: book_wf_def qtys_pos_def all_slots_def no_orders_def ladders_wf_def uncrossed_def b_def)
  then have "book_rel b no_orders (spec_new (self_trade cfg))"
    by (auto simp: book_rel_def side_rel_def spec_new_def no_orders_def b_def ranks_Nil_iff)
  then show ?thesis by (simp add: parts)
qed

lemma book_of_parts_simps [simp]:
  "trade_out (book_of_parts cfg P L ix ring) = ring" "order_index (book_of_parts cfg P L ix ring) = ix"
  "pool (book_of_parts cfg P L ix ring) = P"
  by (simp_all add: book_of_parts_def Let_def split: option.split)

lemma book_init_refines:
  assumes "book_init grants cfg = Some (Inr b)"
  shows "allocatable cfg" "book_rel b no_orders (spec_new (self_trade cfg))" "trade_ring_new (trade_capacity cfg) = Some (Inr (trade_out b))"
    "ring_list (trade_out b) = []" "unat (trade_capacity cfg) \<le> ring_capacity (trade_out b)" "drop_count (trade_out b) = 0"
proof -
  define n where "n = (if expected_orders cfg > 0 then expected_orders cfg else kDefaultPoolSlots)"
  obtain ix ring where al: "allocatable cfg" and ix: "ix_new n = Some (Inr ix)" and ring: "trade_ring_new (trade_capacity cfg) = Some (Inr ring)"
    and b: "b = book_of_parts cfg (pool_new zero_resting (unat n)) (ladder_new (unat (price_levels cfg))) ix ring"
    using book_init_outcome [where grants = grants and cfg = cfg] assms by (auto simp: n_def)
  have "n \<le> 2 ^ 57" using al wanted_orders_le [of cfg] by (simp add: allocatable_def n_def)
  then have ixi: "ix_inv ix" "ix_map ix = Map.empty" using ix_new_outcome [of n, where 'v = "32 word"] ix by auto
  have cap: "trade_capacity cfg \<le> 2 ^ 57" using al by (simp add: allocatable_def)
  have r: "ring_inv ring" "ring_list ring = []" "drop_count ring = 0" "unat (trade_capacity cfg) \<le> ring_capacity ring"
    using trade_ring_new_returns [OF cap] ring by auto
  show "allocatable cfg" by (rule al)
  show "book_rel b no_orders (spec_new (self_trade cfg))" unfolding b by (rule book_of_parts_rel [OF ixi r(1)])
  show "trade_ring_new (trade_capacity cfg) = Some (Inr (trade_out b))" "ring_list (trade_out b) = []"
    "unat (trade_capacity cfg) \<le> ring_capacity (trade_out b)" "drop_count (trade_out b) = 0"
    using ring r by (simp_all add: b)
qed

lemma book_new_eq_Some: "book_new cfg = Some b \<longleftrightarrow> book_init (\<lambda>_. True) cfg = Some (Inr b)"
  by (simp add: book_new_def split: option.split sum.split)

lemma book_new_allocatable: "book_new cfg = Some b \<Longrightarrow> allocatable cfg"
  using book_init_refines(1) by (simp add: book_new_eq_Some)

lemma book_new_ring: "book_new cfg = Some b \<Longrightarrow> trade_ring_new (trade_capacity cfg) = Some (Inr (trade_out b))"
  using book_init_refines(3) by (simp add: book_new_eq_Some)

lemma book_new_iff: "book_new cfg \<noteq> None \<longleftrightarrow> allocatable cfg"
proof
  assume "allocatable cfg"
  then show "book_new cfg \<noteq> None"
    using book_init_outcome [where grants = "\<lambda>_. True" and cfg = cfg]
    by (auto simp: allocatable_def book_new_def dest: leD less_le_trans split: option.splits sum.splits)
qed (use book_new_allocatable in blast)

lemma book_new_refines:
  assumes "allocatable cfg"
  shows "\<exists>b. book_new cfg = Some b \<and> book_rel b no_orders (spec_new (self_trade cfg)) \<and>
    ring_list (trade_out b) = [] \<and> unat (trade_capacity cfg) \<le> ring_capacity (trade_out b) \<and> drop_count (trade_out b) = 0"
proof -
  obtain b where b: "book_new cfg = Some b" using book_new_iff [of cfg] assms by auto
  then show ?thesis using book_init_refines [of "\<lambda>_. True" cfg b] by (auto simp: book_new_eq_Some)
qed

subsection \<open>Queries\<close>

lemma queue_loop_chain: "chain kNoSlot (\<lambda>i. slot_next (slot_at P i)) i xs \<Longrightarrow> queue_loop P i = Some xs"
proof (induction xs arbitrary: i)
  case Nil
  then show ?case by (simp add: queue_loop.simps)
next
  case (Cons x xs)
  then have "queue_loop P (slot_next (slot_at P x)) = Some xs" by simp
  then show ?case using Cons.prems by (simp add: queue_loop.simps [of P x])
qed

lemma queue_loop_level:
  assumes wf: "core_wf P ix F Q" and f: "F sd p = Some l"
  shows "queue_loop P (lv_head l) = Some (Q sd p)"
proof -
  have "is_queue P l (Q sd p)" using queue_facts(3) [OF wf f] by blast
  moreover have "kNoSlot \<notin> set (Q sd p)" using queued_slot(2) [OF wf] by blast
  ultimately have "chain kNoSlot (\<lambda>i. slot_next (slot_at P i)) (lv_head l) (Q sd p)"
    using seg_chain [of P kNoSlot "Q sd p"] by (simp add: is_queue_def)
  then show ?thesis by (rule queue_loop_chain)
qed

lemma queue_at_price:
  assumes rel: "book_rel b Q A"
  shows "map (value_at (pool b)) (Q sd p) = filter (\<lambda>r. res_price r = p) (spec_orders A sd)"
  using ranksD(2) [OF book_relD(2) [OF rel, unfolded side_rel_def]] by simp

lemma visit_levels_concat:
  assumes "\<And>p l. (p, l) \<in> set ls \<Longrightarrow> queue_loop P (lv_head l) = Some (q p)"
  shows "visit_levels P sd ls = Some (concat (map (\<lambda>(p, l). map (\<lambda>i. api_order sd (value_at P i)) (q p)) ls))"
  using assms
proof (induction ls)
  case (Cons pl ls)
  obtain p l where pl: "pl = (p, l)" by (cases pl)
  have "queue_loop P (lv_head l) = Some (q p)" using Cons.prems by (simp add: pl)
  moreover have "visit_levels P sd ls = Some (concat (map (\<lambda>(p, l). map (\<lambda>i. api_order sd (value_at P i)) (q p)) ls))"
    using Cons by simp
  ultimately show ?case by (simp add: pl)
qed simp

text \<open>The queues of the levels in traversal order, one after the other, are the ranked list.\<close>

lemma ranks_concat:
  assumes rk: "ranked bid ls" and own: "\<And>p r. r \<in> set (D p) \<Longrightarrow> res_price r = p"
    and cover: "\<And>p. D p \<noteq> [] \<Longrightarrow> p \<in> fst ` set ls"
  shows "ranks bid D (concat (map (\<lambda>(p, l). D p) ls))"
proof (rule ranksI)
  show "sorted_wrt (\<lambda>x y. \<not> better bid (res_price y) (res_price x)) (concat (map (\<lambda>(p, l). D p) ls))"
    using rk
  proof (induction ls)
    case (Cons pl ls)
    have "sorted_wrt (\<lambda>x y. \<not> better bid (res_price y) (res_price x)) (D p)" for p
      by (rule sorted_wrt_mono_rel [of _ "\<lambda>_ _. True"]) (use own in \<open>auto simp: sorted_wrt_true\<close>)
    moreover have "\<not> better bid (res_price y) (res_price x)"
      if "x \<in> set (D (fst pl))" "y \<in> set (concat (map (\<lambda>(p, l). D p) ls))" for x y
      using that Cons.prems own better_asym by fastforce
    ultimately show ?case using Cons by (cases pl) (auto simp: sorted_wrt_append)
  qed simp
  fix p
  have "filter (\<lambda>r. res_price r = p) (D q) = (if q = p then D p else [])" for q
    using own by (auto simp: filter_id_conv filter_empty_conv)
  then have "filter (\<lambda>r. res_price r = p) (concat (map (\<lambda>(p, l). D p) ls)) = concat (map (\<lambda>(q, l). if q = p then D p else []) ls)"
    by (induction ls) auto
  also have "\<dots> = (if p \<in> fst ` set ls then D p else [])"
    using ranked_distinct [OF rk]
  proof (induction ls)
    case (Cons pl ls)
    show ?case
    proof (cases "fst pl = p")
      case True
      then have "p \<notin> fst ` set ls" using Cons.prems by auto
      then show ?thesis using Cons True by (cases pl) auto
    next
      case False
      then show ?thesis using Cons by (cases pl) auto
    qed
  qed simp
  also have "\<dots> = D p" using cover [of p] by (cases "D p") auto
  finally show "filter (\<lambda>r. res_price r = p) (concat (map (\<lambda>(p, l). D p) ls)) = D p" .
qed

lemma visit_side:
  assumes rel: "book_rel b Q A"
  shows "visit_levels (pool b) sd (for_each_level (is_bid sd) (ladder_of sd b)) = Some (map (api_order sd) (spec_orders A sd))"
proof -
  note d = book_relD [OF rel] and w = book_wfD [OF book_relD(1) [OF rel]]
  let ?ls = "for_each_level (is_bid sd) (ladder_of sd b)" and ?D = "\<lambda>p. map (value_at (pool b)) (Q sd p)"
  note lv = ladder.levels_law [OF w(6), of sd]
  have ql: "queue_loop (pool b) (lv_head l) = Some (Q sd p)" if "(p, l) \<in> set ?ls" for p l
    using queue_loop_level [OF w(1), of sd p l] lv that by blast
  have own: "res_price r = p" if "r \<in> set (?D p)" for p r using core_wfD(6) [OF w(1)] that by auto
  have cover: "p \<in> fst ` set ?ls" if ne: "?D p \<noteq> []" for p
  proof -
    obtain l where "find_of b sd p = Some l" using queue_facts(2) [OF w(1), of sd p] ne by (cases "find_of b sd p") auto
    then have "(p, l) \<in> set ?ls" using lv by blast
    then show ?thesis by force
  qed
  have "ranks (is_bid sd) ?D (concat (map (\<lambda>(p, l). ?D p) ?ls))" 
    by (rule ranks_concat) (use lv own cover in blast)+
  then have "spec_orders A sd = concat (map (\<lambda>(p, l). ?D p) ?ls)"
    using d(2) ranks_unique unfolding side_rel_def by blast
  then have "map (api_order sd) (spec_orders A sd) =
      concat (map (\<lambda>(p, l). map (\<lambda>i. api_order sd (value_at (pool b) i)) (Q sd p)) ?ls)"
    unfolding case_prod_beta by (simp add: map_concat comp_def)
  then show ?thesis using visit_levels_concat [OF ql, of ?ls] by simp
qed

lemma for_each_resting_refines:
  assumes rel: "book_rel b Q A"
  shows "for_each_resting b = Some (map (api_order Buy) (spec_orders A Buy) @ map (api_order Sell) (spec_orders A Sell))"
  using visit_side [OF rel, of Buy] visit_side [OF rel, of Sell]
  by (simp add: for_each_resting_def ladder_of_def)

lemma best_price_refines:
  assumes rel: "book_rel b Q A"
  shows "best_price (is_bid sd) (ladder_of sd b) = map_option res_price (case spec_orders A sd of [] \<Rightarrow> None | r # _ \<Rightarrow> Some r)"
proof (cases "ladder_best (is_bid sd) (ladder_of sd b)")
  case None
  then show ?thesis using best_level(1) [OF book_relD(1,2) [OF rel] None] by (simp add: best_price_def)
next
  case (Some pl)
  then show ?thesis
    using best_level(2) [OF book_relD(1,2) [OF rel], of sd "fst pl" "snd pl"]
    by (cases "spec_orders A sd") (auto simp: best_price_def)
qed

lemma qty_at_refines:
  assumes rel: "book_rel b Q A"
  shows "qty_at sd p b = (\<Sum>r\<leftarrow>filter (\<lambda>r. res_price r = p) (spec_orders A sd). ucast (res_qty r))"
proof -
  note cw = book_relD(5) [OF rel]
  have "qty_at sd p b = queue_total (pool b) (Q sd p)"
    using queue_facts(2,3) [OF cw, of sd p] by (cases "find_of b sd p") (auto simp: qty_at_def is_queue_def)
  also have "\<dots> = (\<Sum>r\<leftarrow>map (value_at (pool b)) (Q sd p). ucast (res_qty r))"
    by (simp add: queue_total_def comp_def)
  finally show ?thesis by (simp only: queue_at_price [OF rel])
qed

lemma order_count_at_refines:
  assumes rel: "book_rel b Q A"
  shows "order_count_at sd p b = Some (length (filter (\<lambda>r. res_price r = p) (spec_orders A sd)))"
proof -
  note cw = book_relD(5) [OF rel]
  have "order_count_at sd p b = Some (length (Q sd p))"
    using queue_facts(2) [OF cw, of sd p] queue_loop_level [OF cw, of sd p]
    by (cases "find_of b sd p") (auto simp: order_count_at_def)
  also have "length (Q sd p) = length (map (value_at (pool b)) (Q sd p))" by simp
  finally show ?thesis by (simp only: queue_at_price [OF rel])
qed

lemma find_order_refines:
  assumes rel: "book_rel b Q A"
  shows "find_order k b = Some (spec_find k A)"
  using ix_find_spec [OF core_wfD(3) [OF book_relD(5) [OF rel]]] spec_find_index [OF rel]
  by (simp add: find_order_def)

subsection \<open>The debug check accepts every state that satisfies the invariant\<close>

text \<open>The total of a level does not wrap: at most \<open>2 ^ 31\<close> orders of less than \<open>2 ^ 32\<close> each.\<close>

lemma unat_queue_total:
  assumes "length xs \<le> 2 ^ 31"
  shows "unat (queue_total P xs) = (\<Sum>x\<leftarrow>xs. unat (res_qty (value_at P x)))"
    "(\<Sum>x\<leftarrow>xs. unat (res_qty (value_at P x))) < 2 ^ 63 + 1"
  using unat_sum_ucast [OF assms, of "\<lambda>x. res_qty (value_at P x)"] by (simp_all add: queue_total_def)

lemma queue_length:
  assumes wf: "core_wf P ix F Q"
  shows "length (Q sd p) \<le> 2 ^ 31"
proof -
  note d = core_wfD [OF wf]
  have "length (Q sd p) = card (set (Q sd p))" using queue_facts(1) [OF wf] by (simp add: distinct_card)
  also have "\<dots> \<le> card (live_slots P)" using queue_facts(4) [OF wf] by (intro card_mono) simp_all
  also have "\<dots> \<le> 2 ^ 31" using card_live_slots [OF d(1)] pool_invD(2) [OF d(1)] d(2) by simp
  finally show ?thesis .
qed

lemma queue_total_pos:
  assumes wf: "core_wf P ix F Q" and pos: "qtys_pos P Q" and ne: "Q sd p \<noteq> []"
  shows "queue_total P (Q sd p) > 0"
proof -
  obtain x xs where q: "Q sd p = x # xs" using ne by (cases "Q sd p") auto
  have "x \<in> all_slots Q" using q unfolding all_slots_def by (auto intro!: exI [of _ sd] exI [of _ p])
  then have "unat (res_qty (value_at P x)) > 0" using pos by (simp add: qtys_pos_def unat_gt_0 word_gt_0)
  then have "unat (queue_total P (Q sd p)) > 0" using unat_queue_total(1) [OF queue_length [OF wf, of sd p], of P] q by simp
  then show ?thesis by (simp add: unat_gt_0 word_gt_0)
qed

lemma check_queue_seg:
  assumes wf: "core_wf (pool b) (order_index b) F Q" and pos: "qtys_pos (pool b) Q" and sub: "set xs \<subseteq> set (Q sd p)"
    and sg: "seg (pool b) prev xs kNoSlot"
  shows "check_queue b sd p (first_of xs kNoSlot) prev acc n =
    Some (Some (last_of prev xs, acc + queue_total (pool b) xs, n + length xs))"
  using sub sg
proof (induction xs arbitrary: prev acc n)
  case Nil
  then show ?case by (simp add: check_queue.simps)
next
  case (Cons x xs)
  note d = core_wfD [OF wf] and qs = queued_slot [OF wf]
  have x: "x \<in> set (Q sd p)" using Cons.prems by simp
  have "x \<in> all_slots Q" using x unfolding all_slots_def by blast
  then have "res_qty (value_at (pool b) x) > 0" using pos by (simp add: qtys_pos_def)
  moreover have "ix_find (order_index b) (res_id (value_at (pool b) x)) = Some (Some (index_value x sd))"
    using ix_find_spec [OF d(3)] d(7) [OF x] by simp
  ultimately have "check_queue b sd p x prev acc n =
      check_queue b sd p (first_of xs kNoSlot) x (acc + ucast (res_qty (value_at (pool b) x))) (n + 1)"
    using qs(2,4,5) [OF x] d(6) [OF x] Cons.prems(2) by (simp add: check_queue.simps [of b sd p x] Let_def)
  then show ?case using Cons by (simp add: add.assoc)
qed

lemma check_levels_ok:
  assumes wf: "core_wf (pool b) (order_index b) F Q" and pos: "qtys_pos (pool b) Q"
    and ls: "\<And>p l. (p, l) \<in> set ls \<Longrightarrow> F sd p = Some l"
  shows "check_levels b sd ls c = Some (Some (c + (\<Sum>(p, l)\<leftarrow>ls. length (Q sd p))))"
  using ls
proof (induction ls arbitrary: c)
  case (Cons pl ls)
  obtain p l where pl: "pl = (p, l)" by (cases pl)
  have "F sd p = Some l" using Cons.prems pl by simp
  note q = queue_facts(3) [OF wf this]
  have iq: "seg (pool b) kNoSlot (Q sd p) kNoSlot" "lv_head l = first_of (Q sd p) kNoSlot"
      "lv_tail l = last_of kNoSlot (Q sd p)" "total_qty l = queue_total (pool b) (Q sd p)"
    using q by (auto simp: is_queue_def)
  have "check_queue b sd p (lv_head l) kNoSlot 0 0 = Some (Some (lv_tail l, total_qty l, length (Q sd p)))"
    using check_queue_seg [OF wf pos subset_refl iq(1), of 0 0] iq by simp
  moreover have "total_qty l > 0" using queue_total_pos [OF wf pos] q iq(4) by simp
  ultimately show ?case using q Cons by (simp add: pl)
qed simp

lemma check_invariants_holds:
  assumes rel: "book_rel b Q A"
  shows "check_invariants b = Some True"
proof -
  note w = book_wfD [OF book_relD(1) [OF rel]] and bs = book_size_spec [OF rel]
  note c = core_wfD [OF w(1)]
  have side: "check_side b sd n = Some (Some (n + length (spec_orders A sd)))" for sd n
  proof -
    let ?ls = "for_each_level (is_bid sd) (ladder_of sd b)"
    have "map (api_order sd) (spec_orders A sd) = concat (map (\<lambda>(p, l). map (\<lambda>i. api_order sd (value_at (pool b) i)) (Q sd p)) ?ls)"
      using visit_side [OF rel, of sd] visit_levels_concat [of ?ls "pool b" "Q sd" sd]
        queue_loop_level [OF w(1), of sd] ladder.levels_law [OF w(6), of sd] by force
    from arg_cong [OF this, of length]
    have "(\<Sum>(p, l)\<leftarrow>?ls. length (Q sd p)) = length (spec_orders A sd)"
      unfolding case_prod_beta by (simp add: length_concat comp_def)
    moreover have "check_levels b sd ?ls n = Some (Some (n + (\<Sum>(p, l)\<leftarrow>?ls. length (Q sd p))))"
      by (rule check_levels_ok [OF w(1,2)]) (use ladder.levels_law [OF w(6), of sd] in blast)
    ultimately show ?thesis using ladder_inv_check [OF w(6), of sd] by (simp add: check_side_def)
  qed
  have bb: "best_bid b = map_option res_price (case spec_orders A Buy of [] \<Rightarrow> None | r # _ \<Rightarrow> Some r)"
    "best_ask b = map_option res_price (case spec_orders A Sell of [] \<Rightarrow> None | r # _ \<Rightarrow> Some r)"
    using best_price_refines [OF rel, of Buy] best_price_refines [OF rel, of Sell]
    by (simp_all add: best_bid_def best_ask_def ladder_of_def)
  have unc: "res_price r < res_price s" if rs: "r \<in> set (spec_orders A Buy)" "s \<in> set (spec_orders A Sell)" for r s
  proof -
    obtain p x p' y where xy: "x \<in> set (Q Buy p)" "r = value_at (pool b) x" "y \<in> set (Q Sell p')" "s = value_at (pool b) y"
      using spec_order_iff [OF rel, of r Buy] spec_order_iff [OF rel, of s Sell] rs by blast
    then have "Q Buy p \<noteq> []" "Q Sell p' \<noteq> []" by auto
    then have "p < p'" using w(5) unfolding uncrossed_def by blast
    then show ?thesis using c(6) [OF xy(1)] c(6) [OF xy(3)] xy(2,4) by simp
  qed
  have n: "book_size b = length (spec_orders A Buy) + length (spec_orders A Sell)" using bs(1) by (simp add: spec_ids_def)
  have "case (best_bid b, best_ask b) of (Some bid, Some ask) \<Rightarrow> bid < ask | _ \<Rightarrow> True"
    using bb unc by (auto split: list.splits)
  then show ?thesis
    using side ix_inv_consistent [OF c(3)] pool_inv_consistent [OF c(1)] n bs(1,2)
    by (simp add: check_invariants_def book_size_def pool_size_def)
qed

subsection \<open>The engine as a price-time book\<close>

text \<open>A call that returned normally, with its result and the state after it.\<close>

definition returned :: "('a, 's) run \<Rightarrow> ('a \<times> 's) option" where
  "returned r = (case r of Some (Inr a, s) \<Rightarrow> Some (a, s) | _ \<Rightarrow> None)"

lemma returned_ret [simp]: "returned (ret a s) = Some (a, s)"
  by (simp add: returned_def ret_def)

text \<open>The body of the harness loop for the engine.\<close>

definition engine_step :: "op \<Rightarrow> book \<Rightarrow> (exec_report \<times> book) option" where
  "engine_step x b =
     (case op_what x of
        AddLimit \<Rightarrow> returned (add_limit (op_id x) (op_owner x) (op_side x) (op_price x) (op_qty x) b)
      | AddMarket \<Rightarrow> returned (add_market (op_id x) (op_owner x) (op_side x) (op_qty x) b)
      | Cancel \<Rightarrow> map_option (\<lambda>(ok, b'). (new_report\<lparr>accepted := ok\<rparr>, b')) (returned (cancel (op_id x) b))
      | Modify \<Rightarrow> returned (modify (op_id x) (op_price x) (op_qty x) b))"

text \<open>
  As long as the caller does not drain it, a ring of capacity \<open>c\<close> keeps the first \<open>c\<close> trades of the
  stream, in order; the rest are counted as dropped.
\<close>

definition ring_rep :: "nat \<Rightarrow> trade_ring \<Rightarrow> trade list \<Rightarrow> bool" where
  "ring_rep c r log \<longleftrightarrow> ring_capacity r = c \<and> ring_list r = take c log \<and> drop_count r = of_nat (length log - c)"

definition engine_rep :: "nat \<Rightarrow> nat \<Rightarrow> book \<Rightarrow> spec_book \<Rightarrow> trade list \<Rightarrow> bool" where
  "engine_rep c n b A log \<longleftrightarrow> (\<exists>Q. book_rel b Q A) \<and> book_size b + n \<le> 2 ^ 31 \<and> ring_rep c (trade_out b) log"

lemma engine_step_returns:
  assumes rel: "book_rel b Q A" and room: "book_size b < 2 ^ 31" and st: "spec_step x A = (rep, ts, A')"
  shows "\<exists>b' Q'. engine_step x b = Some (rep, b') \<and> trade_out b' = push_all ts (trade_out b) \<and> book_rel b' Q' A'"
proof (cases "op_what x")
  case AddLimit
  then have "spec_submit (op_id x) (op_owner x) (op_side x) (Some (op_price x)) (op_qty x) True A = (rep, ts, A')"
    using st by (simp add: spec_step_def)
  then show ?thesis using submit_refines [OF rel room, of True "Some (op_price x)"] AddLimit
    by (fastforce simp: engine_step_def add_limit_def)
next
  case AddMarket
  then have "spec_submit (op_id x) (op_owner x) (op_side x) None (op_qty x) False A = (rep, ts, A')"
    using st by (simp add: spec_step_def)
  then show ?thesis using submit_refines [OF rel room, of False None] AddMarket
    by (fastforce simp: engine_step_def add_market_def)
next
  case Cancel
  then show ?thesis using cancel_refines [OF rel, of "op_id x"] st
    by (fastforce simp: engine_step_def spec_step_def split: prod.splits)
next
  case Modify
  then have "spec_modify (op_id x) (op_price x) (op_qty x) A = (rep, ts, A')" using st by (simp add: spec_step_def)
  then show ?thesis using modify_refines [OF rel] Modify by (fastforce simp: engine_step_def)
qed

lemma push_all_rep:
  assumes "ring_inv r" and rep: "ring_rep c r log"
  shows "ring_rep c (push_all ts r) (log @ ts)"
proof -
  have "take n (take n xs @ ys) = take n (xs @ ys)" for n and xs ys :: "trade list"
    by (cases "n \<le> length xs") simp_all
  moreover have "(of_nat (length log - c) :: 64 word) + of_nat (length (take c log) + length ts - c) =
      of_nat (length (log @ ts) - c)"
    by (cases "length log \<le> c") (simp_all flip: of_nat_add)
  ultimately show ?thesis using ring.push_many [OF assms(1), of ts] rep by (simp add: ring_rep_def)
qed

interpretation engine: price_time_book engine_step "engine_rep c" for_each_resting for c
proof
  fix n b A log x rep ts A'
  assume r: "engine_rep c (Suc n) b A log" and st: "spec_step x A = (rep, ts, A')"
  obtain Q where rel: "book_rel b Q A" and room: "book_size b + Suc n \<le> 2 ^ 31"
      and log: "ring_rep c (trade_out b) log"
    using r by (auto simp: engine_rep_def)
  have "book_size b < 2 ^ 31" using room by simp
  from engine_step_returns [OF rel this st] obtain b' Q' where b': "engine_step x b = Some (rep, b')"
      "trade_out b' = push_all ts (trade_out b)" "book_rel b' Q' A'" by blast
  have "book_size b' + n \<le> 2 ^ 31"
    using spec_step_length [OF st] room book_size_spec(1) [OF rel] book_size_spec(1) [OF b'(3)] by simp
  moreover have "ring_rep c (trade_out b') (log @ ts)"
    using push_all_rep [OF book_wfD(3) [OF book_relD(1) [OF rel]] log] b'(2) by simp
  ultimately have "engine_rep c n b' A' (log @ ts)" using b'(3) by (auto simp: engine_rep_def)
  then show "\<exists>s'. engine_step x b = Some (rep, s') \<and> engine_rep c n s' A' (log @ ts)" using b'(1) by blast
next
  fix n b A log
  assume "engine_rep c n b A log"
  then show "for_each_resting b = Some (spec_snapshot A)"
    using for_each_resting_refines by (auto simp: engine_rep_def spec_snapshot_def)
qed

end
