(* ===== verification/Reference_Book.thy ===== *)
theory Reference_Book
  imports Price_Time
begin

section \<open>The naive book of the differential tests (\<^verbatim>\<open>ref::ReferenceBook\<close>)\<close>

text \<open>
  The book the engine is tested against: all resting orders in one vector in arrival order, every
  operation a linear scan. It is modelled from \<^verbatim>\<open>tests/reference_book.hpp\<close>, with \<^verbatim>\<open>std::optional\<close>
  indices into the vector, and proved to implement the same price-time specification as the engine.
  \<^verbatim>\<open>std::sort\<close> is an insertion sort with the same comparator; arrival numbers are unique, so the
  comparator is total on the vector and every sort gives the same result.
\<close>

subsection \<open>Model\<close>

record ref_order =
  rf_id :: order_id
  rf_owner :: participant_id
  rf_price :: price
  rf_qty :: quantity
  rf_side :: side
  rf_arrival :: "64 word"

record reference_book =
  ref_resting :: "ref_order list"
  trade_log :: "trade list"
  ref_policy :: self_trade_policy
  next_arrival :: "64 word"
  ref_seq :: sequence_no

definition ref_new :: "self_trade_policy \<Rightarrow> reference_book" where
  "ref_new pol = \<lparr>ref_resting = [], trade_log = [], ref_policy = pol, next_arrival = 1, ref_seq = 1\<rparr>"

definition ref_find :: "order_id \<Rightarrow> reference_book \<Rightarrow> ref_order option" where
  "ref_find k R = find (\<lambda>r. rf_id r = k) (ref_resting R)"

text \<open>\<^verbatim>\<open>resting.erase(resting.begin() + i)\<close> for the first \<open>i\<close> with the id.\<close>

fun erase_id :: "order_id \<Rightarrow> ref_order list \<Rightarrow> ref_order list option" where
  "erase_id k [] = None"
| "erase_id k (r # rs) = (if rf_id r = k then Some rs else map_option ((#) r) (erase_id k rs))"

definition ref_cancel :: "order_id \<Rightarrow> reference_book \<Rightarrow> bool \<times> reference_book" where
  "ref_cancel k R =
     (case erase_id k (ref_resting R) of
        None \<Rightarrow> (False, R) | Some rs \<Rightarrow> (True, R\<lparr>ref_resting := rs\<rparr>))"

definition maker_step :: "side \<Rightarrow> ref_order list \<Rightarrow> nat option \<Rightarrow> nat \<Rightarrow> nat option" where
  "maker_step maker_side rs best i =
     (let r = rs ! i in
      if rf_side r \<noteq> maker_side then best
      else case best of
          None \<Rightarrow> Some i
        | Some j \<Rightarrow>
            (let b = rs ! j;
                 better_price = (if maker_side = Sell then rf_price r < rf_price b else rf_price r > rf_price b);
                 same_price = (rf_price r = rf_price b)
             in if better_price \<or> (same_price \<and> rf_arrival r < rf_arrival b) then Some i else Some j))"

definition next_maker :: "side \<Rightarrow> ref_order list \<Rightarrow> nat option" where
  "next_maker taker_side rs =
     foldl (maker_step (if taker_side = Buy then Sell else Buy) rs) None [0..<length rs]"

definition erase_at :: "nat \<Rightarrow> 'a list \<Rightarrow> 'a list" where
  "erase_at i xs = take i xs @ drop (Suc i) xs"

lemma maker_step_cases: "maker_step m rs best i = best \<or> maker_step m rs best i = Some i"
  by (auto simp: maker_step_def Let_def split: option.splits)

lemma maker_fold_bound: "foldl (maker_step m rs) None [0..<n] = Some j \<Longrightarrow> j < n"
proof (induction n arbitrary: j)
  case (Suc n)
  define best where "best = foldl (maker_step m rs) None [0..<n]"
  have "maker_step m rs best n = Some j" using Suc.prems by (simp add: best_def)
  then have "best = Some j \<or> j = n" using maker_step_cases [of m rs best n] by auto
  then show ?case using Suc.IH by (auto simp: best_def)
qed simp

lemma next_maker_bound: "next_maker sd rs = Some j \<Longrightarrow> j < length rs"
  unfolding next_maker_def using maker_fold_bound by blast

lemma erase_at_length: "j < length xs \<Longrightarrow> length (erase_at j xs) < length xs"
  by (simp add: erase_at_def)

text \<open>The state of the loop of \<^verbatim>\<open>submit\<close>: the vector, the quantity left, the report, the log, the sequence.\<close>

type_synonym ref_loop_state = "ref_order list \<times> quantity \<times> exec_report \<times> trade list \<times> sequence_no"

function (sequential) ref_loop ::
  "self_trade_policy \<Rightarrow> order_id \<Rightarrow> participant_id \<Rightarrow> side \<Rightarrow> price \<Rightarrow> bool \<Rightarrow> ref_loop_state \<Rightarrow> ref_loop_state" where
  "ref_loop pol k owner sd p is_market (rs, left, rep, log, seq) =
     (if left > 0 then
        (case next_maker sd rs of
           None \<Rightarrow> (rs, left, rep, log, seq)
         | Some j \<Rightarrow>
             (let maker = rs ! j in
              if \<not> is_market \<and> \<not> (if sd = Buy then rf_price maker \<le> p else rf_price maker \<ge> p)
              then (rs, left, rep, log, seq)
              else if pol \<noteq> Allow \<and> owner \<noteq> kAnonymous \<and> owner = rf_owner maker
              then (if pol = CancelIncoming then (rs, left, rep\<lparr>stp_halted := True\<rparr>, log, seq)
                    else ref_loop pol k owner sd p is_market
                      (erase_at j rs, left, rep\<lparr>stp_cancelled := stp_cancelled rep + ucast (rf_qty maker)\<rparr>, log, seq))
              else
                (let traded = min left (rf_qty maker);
                     maker' = maker\<lparr>rf_qty := rf_qty maker - traded\<rparr>;
                     t = \<lparr>tr_seq = seq, tr_maker_id = rf_id maker, tr_taker_id = k, tr_price = rf_price maker,
                          tr_qty = traded, tr_taker_side = sd\<rparr>;
                     rep' = record_fill seq traded rep;
                     rs' = (if rf_qty maker' = 0 then erase_at j rs else rs[j := maker'])
                 in ref_loop pol k owner sd p is_market (rs', left - traded, rep', log @ [t], seq + 1))))
      else (rs, left, rep, log, seq))"
  by pat_completeness auto

termination
proof (relation "inv_image (less_than <*lex*> less_than) (\<lambda>(pol, k, owner, sd, p, m, rs, left, rest). (length rs, unat left))",
    goal_cases)
  case 1
  show ?case by auto
next
  case (2 pol k owner sd p m rs left rep log seq j maker)
  then have "length (erase_at j rs) < length rs" using next_maker_bound erase_at_length by blast
  then show ?case by auto
next
  case (3 pol k owner sd p m rs left rep log seq j maker traded maker' t rep' rs')
  have j: "j < length rs" using 3 next_maker_bound by blast
  show ?case
  proof (cases "rf_qty maker' = 0")
    case True
    then show ?thesis using erase_at_length [OF j] 3 by auto
  next
    case False
    then have "traded \<noteq> rf_qty maker" using 3 by auto
    then have "traded = left" using 3 by (auto simp: min_def split: if_splits)
    then show ?thesis using 3 False by (auto simp: unat_gt_0 word_gt_0)
  qed
qed

definition ref_submit :: "order_id \<Rightarrow> participant_id \<Rightarrow> side \<Rightarrow> price \<Rightarrow> quantity \<Rightarrow> bool \<Rightarrow> reference_book \<Rightarrow>
    exec_report \<times> reference_book" where
  "ref_submit k owner sd p qty is_market R =
     (if qty = 0 \<or> ref_find k R \<noteq> None then (new_report\<lparr>accepted := False, remaining := qty\<rparr>, R)
      else
        (case ref_loop (ref_policy R) k owner sd p is_market
           (ref_resting R, qty, new_report, trade_log R, ref_seq R) of
           (rs, left, rep, log, seq) \<Rightarrow>
             (let rep1 = rep\<lparr>remaining := left\<rparr>;
                  R1 = R\<lparr>ref_resting := rs, trade_log := log, ref_seq := seq\<rparr>
              in if \<not> is_market \<and> left > 0 \<and> \<not> stp_halted rep1
                 then (rep1\<lparr>rested := True\<rparr>,
                   R1\<lparr>ref_resting := rs @ [\<lparr>rf_id = k, rf_owner = owner, rf_price = p, rf_qty = left,
                        rf_side = sd, rf_arrival = next_arrival R1\<rparr>], next_arrival := next_arrival R1 + 1\<rparr>)
                 else (rep1, R1))))"

definition ref_add_limit :: "order_id \<Rightarrow> participant_id \<Rightarrow> side \<Rightarrow> price \<Rightarrow> quantity \<Rightarrow> reference_book \<Rightarrow>
    exec_report \<times> reference_book" where
  "ref_add_limit k owner sd p qty R = ref_submit k owner sd p qty False R"

definition ref_add_market :: "order_id \<Rightarrow> participant_id \<Rightarrow> side \<Rightarrow> quantity \<Rightarrow> reference_book \<Rightarrow>
    exec_report \<times> reference_book" where
  "ref_add_market k owner sd qty R = ref_submit k owner sd 0 qty True R"

definition ref_modify :: "order_id \<Rightarrow> price \<Rightarrow> quantity \<Rightarrow> reference_book \<Rightarrow> exec_report \<times> reference_book" where
  "ref_modify k p qty R =
     (case ref_find k R of
        None \<Rightarrow> (new_report\<lparr>accepted := False, remaining := qty\<rparr>, R)
      | Some r \<Rightarrow>
          (let R1 = snd (ref_cancel k R) in
           if qty = 0 then (new_report, R1) else ref_add_limit k (rf_owner r) (rf_side r) p qty R1))"

definition ref_less :: "ref_order \<Rightarrow> ref_order \<Rightarrow> bool" where
  "ref_less a b =
     (if rf_side a \<noteq> rf_side b then rf_side a = Buy
      else if rf_price a \<noteq> rf_price b
      then (if rf_side a = Buy then rf_price a > rf_price b else rf_price a < rf_price b)
      else rf_arrival a < rf_arrival b)"

fun insert_by :: "('a \<Rightarrow> 'a \<Rightarrow> bool) \<Rightarrow> 'a \<Rightarrow> 'a list \<Rightarrow> 'a list" where
  "insert_by lt x [] = [x]"
| "insert_by lt x (y # ys) = (if lt x y then x # y # ys else y # insert_by lt x ys)"

definition queue_snapshot :: "reference_book \<Rightarrow> ref_order list" where
  "queue_snapshot R = foldr (insert_by ref_less) (ref_resting R) []"

definition ref_best_price :: "side \<Rightarrow> reference_book \<Rightarrow> price option" where
  "ref_best_price sd R =
     foldl (\<lambda>best r. if rf_side r \<noteq> sd then best
                     else case best of
                         None \<Rightarrow> Some (rf_price r)
                       | Some q \<Rightarrow> if (if sd = Buy then rf_price r > q else rf_price r < q) then Some (rf_price r) else Some q)
       None (ref_resting R)"

definition ref_qty_at :: "side \<Rightarrow> price \<Rightarrow> reference_book \<Rightarrow> volume" where
  "ref_qty_at sd p R =
     foldl (\<lambda>total r. if rf_side r = sd \<and> rf_price r = p then total + ucast (rf_qty r) else total) 0 (ref_resting R)"

subsection \<open>Invariant and abstraction\<close>

definition strip :: "ref_order \<Rightarrow> resting_order" where
  "strip r = \<lparr>res_id = rf_id r, res_price = rf_price r, res_qty = rf_qty r, res_owner = rf_owner r\<rparr>"

definition ref_depth :: "ref_order list \<Rightarrow> side \<Rightarrow> price \<Rightarrow> resting_order list" where
  "ref_depth rs sd p = map strip (filter (\<lambda>r. rf_side r = sd \<and> rf_price r = p) rs)"

definition ref_wf :: "64 word \<Rightarrow> ref_order list \<Rightarrow> bool" where
  "ref_wf n rs \<longleftrightarrow> distinct (map rf_id rs) \<and> sorted_wrt (\<lambda>a b. rf_arrival a < rf_arrival b) rs \<and>
     (\<forall>r\<in>set rs. rf_arrival r < n)"

lemma strip_simps [simp]:
  "res_id (strip r) = rf_id r" "res_price (strip r) = rf_price r" "res_qty (strip r) = rf_qty r"
  "res_owner (strip r) = rf_owner r"
  by (simp_all add: strip_def)

lemma ref_wf_erase: "ref_wf n (us @ r # vs) \<Longrightarrow> ref_wf n (us @ vs)"
  by (auto simp: ref_wf_def sorted_wrt_append)

lemma ref_wf_update:
  "ref_wf n (us @ r # vs) \<Longrightarrow> rf_id r' = rf_id r \<Longrightarrow> rf_arrival r' = rf_arrival r \<Longrightarrow> ref_wf n (us @ r' # vs)"
  by (auto simp: ref_wf_def sorted_wrt_append)

text \<open>The scan for the next maker finds the best price and, at that price, the earliest arrival.\<close>

definition maker_inv :: "side \<Rightarrow> ref_order list \<Rightarrow> nat \<Rightarrow> nat option \<Rightarrow> bool" where
  "maker_inv m rs n best \<longleftrightarrow>
     (case best of
        None \<Rightarrow> \<forall>i<n. rf_side (rs ! i) \<noteq> m
      | Some j \<Rightarrow> j < n \<and> rf_side (rs ! j) = m \<and>
          (\<forall>i<n. rf_side (rs ! i) = m \<longrightarrow> \<not> better (is_bid m) (rf_price (rs ! i)) (rf_price (rs ! j)) \<and>
             (rf_price (rs ! i) = rf_price (rs ! j) \<longrightarrow> \<not> rf_arrival (rs ! i) < rf_arrival (rs ! j))))"

lemma maker_step_better:
  "maker_step m rs best i =
     (if rf_side (rs ! i) \<noteq> m then best
      else case best of
          None \<Rightarrow> Some i
        | Some j \<Rightarrow>
            if better (is_bid m) (rf_price (rs ! i)) (rf_price (rs ! j)) \<or>
               rf_price (rs ! i) = rf_price (rs ! j) \<and> rf_arrival (rs ! i) < rf_arrival (rs ! j)
            then Some i else Some j)"
  by (cases m) (auto simp: maker_step_def better_def is_bid_def Let_def split: option.splits)

lemma maker_inv_step:
  assumes "maker_inv m rs n best"
  shows "maker_inv m rs (Suc n) (maker_step m rs best n)"
proof (cases "rf_side (rs ! n) = m")
  case False
  then show ?thesis
    using assms by (auto simp: maker_step_better maker_inv_def less_Suc_eq split: option.splits)
next
  case side: True
  show ?thesis
  proof (cases best)
    case None
    then show ?thesis using assms side by (auto simp: maker_step_better maker_inv_def less_Suc_eq)
  next
    case (Some j)
    let ?w = "better (is_bid m) (rf_price (rs ! n)) (rf_price (rs ! j)) \<or>
       rf_price (rs ! n) = rf_price (rs ! j) \<and> rf_arrival (rs ! n) < rf_arrival (rs ! j)"
    have old: "j < n" "rf_side (rs ! j) = m"
      "\<And>i. i < n \<Longrightarrow> rf_side (rs ! i) = m \<Longrightarrow> \<not> better (is_bid m) (rf_price (rs ! i)) (rf_price (rs ! j)) \<and>
         (rf_price (rs ! i) = rf_price (rs ! j) \<longrightarrow> \<not> rf_arrival (rs ! i) < rf_arrival (rs ! j))"
      using assms Some by (auto simp: maker_inv_def)
    show ?thesis
    proof (cases ?w)
      case True
      have "\<not> better (is_bid m) (rf_price (rs ! i)) (rf_price (rs ! n)) \<and>
          (rf_price (rs ! i) = rf_price (rs ! n) \<longrightarrow> \<not> rf_arrival (rs ! i) < rf_arrival (rs ! n))"
        if i: "i < n" "rf_side (rs ! i) = m" for i
      proof (cases "better (is_bid m) (rf_price (rs ! n)) (rf_price (rs ! j))")
        case True
        then show ?thesis
          using old(3) [OF i] better_asym better_trans [of "is_bid m" "rf_price (rs ! i)" "rf_price (rs ! n)" "rf_price (rs ! j)"] by metis
      next
        case False
        then show ?thesis using old(3) [OF i] \<open>?w\<close> by auto
      qed
      then show ?thesis using True Some side by (auto simp: maker_step_better maker_inv_def less_Suc_eq)
    next
      case False
      then show ?thesis using Some side old by (auto simp: maker_step_better maker_inv_def less_Suc_eq)
    qed
  qed
qed

lemma next_maker_inv: "maker_inv (opposite sd) rs (length rs) (next_maker sd rs)"
proof -
  have "maker_inv m rs n (foldl (maker_step m rs) None [0..<n])" for m n
    by (induction n) (simp_all add: maker_inv_step, simp add: maker_inv_def)
  moreover have "(if sd = Buy then Sell else Buy) = opposite sd" by (cases sd) simp_all
  ultimately show ?thesis by (simp add: next_maker_def)
qed

lemma next_maker_None: "next_maker sd rs = None \<Longrightarrow> r \<in> set rs \<Longrightarrow> rf_side r \<noteq> opposite sd"
  using next_maker_inv [of sd rs] by (auto simp: maker_inv_def in_set_conv_nth)

lemma next_maker_Some:
  assumes nm: "next_maker sd rs = Some j" and wf: "ref_wf n rs"
  obtains us r vs where "rs = us @ r # vs" "length us = j" "rs ! j = r" "rf_side r = opposite sd"
    "\<And>x. x \<in> set rs \<Longrightarrow> rf_side x = opposite sd \<Longrightarrow> \<not> better (is_bid (opposite sd)) (rf_price x) (rf_price r)"
    "\<And>x. x \<in> set us \<Longrightarrow> rf_side x = opposite sd \<Longrightarrow> rf_price x \<noteq> rf_price r"
proof -
  note mi = next_maker_inv [of sd rs, unfolded nm maker_inv_def option.case]
  have j: "j < length rs" using mi by blast
  define us r vs where "us = take j rs" and "r = rs ! j" and "vs = drop (Suc j) rs"
  have rs: "rs = us @ r # vs" using j by (simp add: us_def r_def vs_def id_take_nth_drop)
  have len: "length us = j" using j by (simp add: us_def)
  have so: "sorted_wrt (\<lambda>a b. rf_arrival a < rf_arrival b) (us @ r # vs)" using wf rs by (simp add: ref_wf_def)
  have best: "\<not> better (is_bid (opposite sd)) (rf_price x) (rf_price r) \<and> (rf_price x = rf_price r \<longrightarrow> \<not> rf_arrival x < rf_arrival r)"
    if "x \<in> set rs" "rf_side x = opposite sd" for x
    using mi that by (auto simp: in_set_conv_nth r_def)
  have "rf_arrival x < rf_arrival r" if "x \<in> set us" for x using so that by (simp add: sorted_wrt_append)
  then have "rf_price x \<noteq> rf_price r" if "x \<in> set us" "rf_side x = opposite sd" for x
    using best [of x] that rs by auto
  then show thesis using that [OF rs len] best mi r_def by blast
qed

text \<open>Taking the next maker out of the vector, or changing its quantity, at the front of the ranked list.\<close>

lemma ref_depth_simps [simp]:
  "ref_depth (xs @ ys) sd p = ref_depth xs sd p @ ref_depth ys sd p" "ref_depth [] sd p = []"
  "ref_depth (r # rs) sd p = (if rf_side r = sd \<and> rf_price r = p then strip r # ref_depth rs sd p else ref_depth rs sd p)"
  by (simp_all add: ref_depth_def)

lemma ref_depth_empty: "(\<And>x. x \<in> set us \<Longrightarrow> rf_side x = sd \<Longrightarrow> rf_price x \<noteq> p) \<Longrightarrow> ref_depth us sd p = []"
  by (auto simp: ref_depth_def filter_empty_conv)

lemma ref_depth_nonempty: "ref_depth rs sd p \<noteq> [] \<Longrightarrow> \<exists>y\<in>set rs. rf_side y = sd \<and> rf_price y = p"
  by (auto simp: ref_depth_def filter_empty_conv)

lemma ref_front:
  assumes rk: "ranks (is_bid m) (ref_depth (us @ r # vs) m) os" and side: "rf_side r = m"
    and best: "\<And>x. x \<in> set (us @ r # vs) \<Longrightarrow> rf_side x = m \<Longrightarrow> \<not> better (is_bid m) (rf_price x) (rf_price r)"
    and first: "\<And>x. x \<in> set us \<Longrightarrow> rf_side x = m \<Longrightarrow> rf_price x \<noteq> rf_price r"
  obtains os' where "os = strip r # os'" "ranks (is_bid m) (ref_depth (us @ vs) m) os'"
    "\<And>r'. rf_side r' = m \<Longrightarrow> rf_price r' = rf_price r \<Longrightarrow> ranks (is_bid m) (ref_depth (us @ r' # vs) m) (strip r' # os')"
proof -
  let ?p = "rf_price r"
  have e: "ref_depth us m ?p = []" using ref_depth_empty first by blast
  have D: "ref_depth (us @ r # vs) m ?p = strip r # ref_depth vs m ?p" using e side by simp
  have b: "\<not> better (is_bid m) q ?p" if ne: "ref_depth (us @ x # vs) m q \<noteq> []" and x: "x = r \<or> rf_price x = ?p \<and> rf_side x = m" for q x
  proof -
    obtain y where "y \<in> set (us @ x # vs)" "rf_side y = m" "rf_price y = q"
      using ref_depth_nonempty [OF ne] by blast
    then show ?thesis using best [of y] best [of r] side x by auto
  qed
  obtain os' where os': "os = strip r # os'" "ranks (is_bid m) ((ref_depth (us @ r # vs) m)(?p := ref_depth vs m ?p)) os'"
    using ranks_Cons [OF rk D] b [of r] by blast
  have upd: "(ref_depth (us @ r # vs) m)(?p := ref_depth vs m ?p) = ref_depth (us @ vs) m"
    using e side by (auto simp: fun_eq_iff)
  have rk': "ranks (is_bid m) (ref_depth (us @ vs) m) os'" using os'(2) upd by simp
  have "ranks (is_bid m) (ref_depth (us @ r' # vs) m) (strip r' # os')" if r': "rf_side r' = m" "rf_price r' = ?p" for r'
  proof -
    have "\<not> better (is_bid m) q ?p" if "ref_depth (us @ vs) m q \<noteq> []" for q
      using b [of r q] that by (auto split: if_splits)
    from ranks_push_front [OF rk' _ this, of "strip r'"] r'
    have "ranks (is_bid m) ((ref_depth (us @ vs) m)(?p := strip r' # ref_depth (us @ vs) m ?p)) (strip r' # os')" by simp
    moreover have "(ref_depth (us @ vs) m)(?p := strip r' # ref_depth (us @ vs) m ?p) = ref_depth (us @ r' # vs) m"
      using e r' by (auto simp: fun_eq_iff)
    ultimately show ?thesis by simp
  qed
  then show thesis using that os'(1) rk' by blast
qed

subsection \<open>The loop of \<^verbatim>\<open>submit\<close> computes the sweep\<close>

declare ref_loop.simps [simp del]

lemma ref_crosses:
  "(\<not> mk \<and> \<not> (if sd = Buy then q \<le> p else q \<ge> p)) \<longleftrightarrow> \<not> crosses sd (if mk then None else Some p) q"
  by (auto simp: crosses_def)

lemma ref_loop_spent: "left = 0 \<Longrightarrow> ref_loop pol k owner sd p mk (rs, left, rep, log, seq) = (rs, left, rep, log, seq)"
  by (simp add: ref_loop.simps)

lemma ref_loop_exhausted:
  assumes "ranks (is_bid (opposite sd)) (ref_depth rs (opposite sd)) []"
  shows "ref_loop pol k owner sd p mk (rs, left, rep, log, seq) = (rs, left, rep, log, seq)"
proof -
  have "rf_side r \<noteq> opposite sd" if "r \<in> set rs" for r
  proof
    assume r: "rf_side r = opposite sd"
    have "ref_depth rs (opposite sd) (rf_price r) = []" using assms ranks_Nil_iff by blast
    then show False using that r by (auto simp: ref_depth_def filter_empty_conv)
  qed
  then have "next_maker sd rs = None"
    using next_maker_inv [of sd rs] by (cases "next_maker sd rs") (auto simp: maker_inv_def)
  then show ?thesis by (simp add: ref_loop.simps)
qed

lemma erase_at_split: "length us = j \<Longrightarrow> erase_at j (us @ r # vs) = us @ vs"
  by (auto simp: erase_at_def)

lemma update_at_split: "length us = j \<Longrightarrow> (us @ r # vs)[j := r'] = us @ r' # vs"
  by auto

text \<open>What the loop keeps of the vector: the taker's own side, and the invariant.\<close>

definition ref_keeps :: "side \<Rightarrow> 64 word \<Rightarrow> ref_order list \<Rightarrow> ref_order list \<Rightarrow> bool" where
  "ref_keeps sd n rs rs' \<longleftrightarrow> ref_wf n rs' \<and> filter (\<lambda>r. rf_side r = sd) rs' = filter (\<lambda>r. rf_side r = sd) rs \<and>
     rf_id ` set rs' \<subseteq> rf_id ` set rs"

lemma ref_keepsI:
  "ref_wf n rs' \<Longrightarrow> filter (\<lambda>r. rf_side r = sd) rs' = filter (\<lambda>r. rf_side r = sd) rs \<Longrightarrow>
   (\<And>k. k \<in> rf_id ` set rs' \<Longrightarrow> k \<in> rf_id ` set rs) \<Longrightarrow> ref_keeps sd n rs rs'"
  by (auto simp: ref_keeps_def)

lemma ref_keepsD:
  assumes "ref_keeps sd n rs rs'"
  shows "ref_wf n rs'" "filter (\<lambda>r. rf_side r = sd) rs' = filter (\<lambda>r. rf_side r = sd) rs"
    "k \<in> rf_id ` set rs' \<Longrightarrow> k \<in> rf_id ` set rs"
  using assms by (auto simp: ref_keeps_def)

lemma ref_keeps_refl: "ref_wf n rs \<Longrightarrow> ref_keeps sd n rs rs"
  by (simp add: ref_keeps_def)

lemma ref_keeps_trans: "ref_keeps sd n rs rs' \<Longrightarrow> ref_keeps sd n rs' rs'' \<Longrightarrow> ref_keeps sd n rs rs''"
  using ref_keepsD [of sd n rs rs'] ref_keepsD [of sd n rs' rs''] by (intro ref_keepsI) metis+

lemma ref_keeps_erase: "ref_wf n (us @ r # vs) \<Longrightarrow> rf_side r = opposite sd \<Longrightarrow> ref_keeps sd n (us @ r # vs) (us @ vs)"
  using ref_wf_erase by (auto simp: ref_keeps_def)

lemma ref_keeps_update:
  "ref_wf n (us @ r # vs) \<Longrightarrow> rf_side r = opposite sd \<Longrightarrow> r' = r\<lparr>rf_qty := q\<rparr> \<Longrightarrow> ref_keeps sd n (us @ r # vs) (us @ r' # vs)"
  using ref_wf_update [of n us r vs r'] by (auto simp: ref_keeps_def)

text \<open>The order the loop hits next: where it is in the vector, and that it is the front of the ranked opposite side.\<close>

definition at_front :: "side \<Rightarrow> ref_order list \<Rightarrow> ref_order list \<Rightarrow> ref_order \<Rightarrow> ref_order list \<Rightarrow> bool" where
  "at_front sd rs us r vs \<longleftrightarrow> rs = us @ r # vs \<and> next_maker sd rs = Some (length us) \<and> rf_side r = opposite sd"

lemma front_of_ranks:
  assumes rk: "ranks (is_bid (opposite sd)) (ref_depth rs (opposite sd)) (m # ms)" and wf: "ref_wf n rs"
  obtains us r vs where "at_front sd rs us r vs" "m = strip r"
    "ranks (is_bid (opposite sd)) (ref_depth (us @ vs) (opposite sd)) ms"
    "\<And>r'. rf_side r' = opposite sd \<Longrightarrow> rf_price r' = rf_price r \<Longrightarrow>
       ranks (is_bid (opposite sd)) (ref_depth (us @ r' # vs) (opposite sd)) (strip r' # ms)"
proof -
  have "next_maker sd rs \<noteq> None"
  proof
    assume "next_maker sd rs = None"
    then have "ref_depth rs (opposite sd) q = []" for q
      using next_maker_None by (auto simp: ref_depth_def filter_empty_conv)
    then show False using ranksD(3) [OF rk, of m] by simp
  qed
  then obtain j where nm: "next_maker sd rs = Some j" by auto
  obtain us r vs where sp: "rs = us @ r # vs" "length us = j" "rs ! j = r" "rf_side r = opposite sd"
    "\<And>x. x \<in> set rs \<Longrightarrow> rf_side x = opposite sd \<Longrightarrow> \<not> better (is_bid (opposite sd)) (rf_price x) (rf_price r)"
    "\<And>x. x \<in> set us \<Longrightarrow> rf_side x = opposite sd \<Longrightarrow> rf_price x \<noteq> rf_price r"
    using next_maker_Some [OF nm wf] by blast
  obtain os1 where os1: "m # ms = strip r # os1" "ranks (is_bid (opposite sd)) (ref_depth (us @ vs) (opposite sd)) os1"
    "\<And>r'. rf_side r' = opposite sd \<Longrightarrow> rf_price r' = rf_price r \<Longrightarrow>
       ranks (is_bid (opposite sd)) (ref_depth (us @ r' # vs) (opposite sd)) (strip r' # os1)"
    using ref_front [OF rk [unfolded sp(1)] sp(4) sp(5) [unfolded sp(1)] sp(6)] by blast
  then have m: "m = strip r" "os1 = ms" by auto
  have "at_front sd rs us r vs" using sp nm by (simp add: at_front_def)
  then show thesis using that [OF _ m(1) os1(2) [unfolded m(2)] os1(3) [unfolded m(2)]] by blast
qed

text \<open>One turn of the loop, in the terms of the specification.\<close>

lemma ref_loop_turn:
  assumes at: "at_front sd rs us r vs" and m: "m = strip r" and q: "ord_qty i \<noteq> 0"
    and i: "ord_id i = k" "ord_owner i = owner" "ord_side i = sd"
  shows "ref_loop pol k owner sd p mk (rs, ord_qty i, rep, log, seq) =
    (if \<not> crosses sd (if mk then None else Some p) (res_price m) then (rs, ord_qty i, rep, log, seq)
     else if own_order pol i m
     then (if pol = CancelIncoming then (rs, ord_qty i, rep\<lparr>stp_halted := True\<rparr>, log, seq)
           else ref_loop pol k owner sd p mk
             (us @ vs, ord_qty i, rep\<lparr>stp_cancelled := stp_cancelled rep + ucast (res_qty m)\<rparr>, log, seq))
     else ref_loop pol k owner sd p mk
       (if fill_qty i m = res_qty m then us @ vs else us @ r\<lparr>rf_qty := res_qty m - fill_qty i m\<rparr> # vs,
        ord_qty i - fill_qty i m, record_fill seq (fill_qty i m) rep, log @ [fill_trade seq i m], seq + 1))"
proof -
  have sp: "rs = us @ r # vs" "next_maker sd rs = Some (length us)" "rs ! length us = r" using at by (auto simp: at_front_def)
  have e: "erase_at (length us) rs = us @ vs" "rs[length us := x] = us @ x # vs" for x
    using erase_at_split [OF refl, of us r vs] update_at_split [OF refl, of us r vs] sp(1) by simp_all
  have own: "(pol \<noteq> Allow \<and> owner \<noteq> kAnonymous \<and> owner = rf_owner r) \<longleftrightarrow> own_order pol i m"
    using m i by (auto simp: stp_possible_def)
  have cr: "(\<not> mk \<and> \<not> (if sd = Buy then rf_price r \<le> p else rf_price r \<ge> p)) \<longleftrightarrow>
      \<not> crosses sd (if mk then None else Some p) (res_price m)"
    using ref_crosses m by simp
  have q: "(0 < ord_qty i) = True" using q by (simp add: word_gt_0)
  have fl: "min (ord_qty i) (res_qty m) = fill_qty i m" "rf_qty r = res_qty m"
      "rf_qty (r\<lparr>rf_qty := res_qty m - fill_qty i m\<rparr>) = 0 \<longleftrightarrow> fill_qty i m = res_qty m"
      "\<lparr>tr_seq = seq, tr_maker_id = rf_id r, tr_taker_id = k, tr_price = rf_price r, tr_qty = fill_qty i m,
         tr_taker_side = sd\<rparr> = fill_trade seq i m"
    using m i by (auto simp: fill_qty_def fill_trade_def)
  show ?thesis
    unfolding ref_loop.simps [of pol k owner sd p mk rs "ord_qty i"] sp(2) option.case Let_def sp(3) q if_True cr own e
    unfolding fl(2) unfolding fl ..
qed

lemma ref_loop_sweep:
  assumes "sweep pol (if mk then None else Some p) os i rep seq = (os', i', rep', ts)"
    and "ranks (is_bid (opposite sd)) (ref_depth rs (opposite sd)) os" and "ref_wf n rs"
    and "ord_id i = k" "ord_owner i = owner" "ord_side i = sd"
  shows "\<exists>rs'. ref_loop pol k owner sd p mk (rs, ord_qty i, rep, log, seq) =
      (rs', ord_qty i', rep', log @ ts, seq + of_nat (length ts)) \<and>
    ranks (is_bid (opposite sd)) (ref_depth rs' (opposite sd)) os' \<and> ref_keeps sd n rs rs'"
  using assms
proof (induction arbitrary: rs log rule: sweep_induct)
  case (stop os i rep seq)
  have "ref_loop pol k owner sd p mk (rs, ord_qty i, rep, log, seq) = (rs, ord_qty i, rep, log, seq)"
  proof (cases "ord_qty i = 0 \<or> os = []")
    case True
    then show ?thesis using ref_loop_spent ref_loop_exhausted [of sd rs] stop by auto
  next
    case False
    then obtain m ms where os: "os = m # ms" by (cases os) auto
    then have q: "ord_qty i \<noteq> 0" and nc: "\<not> crosses sd (if mk then None else Some p) (res_price m)"
      using False stop.hyps stop.prems(5) by auto
    obtain us r vs where f: "at_front sd rs us r vs" "m = strip r"
      using front_of_ranks [OF stop.prems(1) [unfolded os] stop.prems(2)] by blast
    show ?thesis unfolding ref_loop_turn [OF f q stop.prems(3-5)] by (rule if_P [OF nc])
  qed
  then show ?case using stop ref_keeps_refl by auto
next
  case (halt m ms i rep seq)
  obtain us r vs where f: "at_front sd rs us r vs" "m = strip r" using front_of_ranks [OF halt.prems(1,2)] by blast
  have "ref_loop pol k owner sd p mk (rs, ord_qty i, rep, log, seq) = (rs, ord_qty i, rep\<lparr>stp_halted := True\<rparr>, log, seq)"
    unfolding ref_loop_turn [OF f halt(1) halt.prems(3-5)] if_P [OF halt(3)] if_P [OF halt(4)]
    using halt(2) halt.prems(5) by (simp only: if_False simp_thms)
  then show ?case using halt.prems(1) ref_keeps_refl [OF halt.prems(2)] by auto
next
  case (cancel m ms i rep seq os' i' rep' ts)
  obtain us r vs where f: "at_front sd rs us r vs" "m = strip r" "ranks (is_bid (opposite sd)) (ref_depth (us @ vs) (opposite sd)) ms"
    using front_of_ranks [OF cancel.prems(1,2)] by blast
  have t: "ref_loop pol k owner sd p mk (rs, ord_qty i, rep, log, seq) = ref_loop pol k owner sd p mk
      (us @ vs, ord_qty i, rep\<lparr>stp_cancelled := stp_cancelled rep + ucast (res_qty m)\<rparr>, log, seq)"
    unfolding ref_loop_turn [OF f(1,2) cancel(1) cancel.prems(3-5)] if_P [OF cancel(3)] if_not_P [OF cancel(4)]
    using cancel(2) cancel.prems(5) by (simp only: if_False simp_thms)
  have kp: "ref_keeps sd n rs (us @ vs)" using ref_keeps_erase cancel.prems(2) f(1) unfolding at_front_def by blast
  show ?case using cancel.IH [OF f(3) ref_keepsD(1) [OF kp] cancel.prems(3-5), of log] ref_keeps_trans [OF kp] unfolding t by blast
next
  case (consume m ms i rep seq os' i' rep' ts)
  obtain us r vs where f: "at_front sd rs us r vs" "m = strip r" "ranks (is_bid (opposite sd)) (ref_depth (us @ vs) (opposite sd)) ms"
    using front_of_ranks [OF consume.prems(1,2)] by blast
  have t: "ref_loop pol k owner sd p mk (rs, ord_qty i, rep, log, seq) = ref_loop pol k owner sd p mk
      (us @ vs, ord_qty i - fill_qty i m, record_fill seq (fill_qty i m) rep, log @ [fill_trade seq i m], seq + 1)"
    unfolding ref_loop_turn [OF f(1,2) consume(1) consume.prems(3-5)] if_not_P [OF consume(3)] if_P [OF consume(4)]
    using consume(2) consume.prems(5) by (simp only: if_False simp_thms)
  have kp: "ref_keeps sd n rs (us @ vs)" using ref_keeps_erase consume.prems(2) f(1) unfolding at_front_def by blast
  obtain rs' where "ref_loop pol k owner sd p mk (us @ vs, ord_qty i - fill_qty i m, record_fill seq (fill_qty i m) rep,
        log @ [fill_trade seq i m], seq + 1) =
      (rs', ord_qty i', rep', (log @ [fill_trade seq i m]) @ ts, seq + 1 + of_nat (length ts))"
      "ranks (is_bid (opposite sd)) (ref_depth rs' (opposite sd)) os'" "ref_keeps sd n (us @ vs) rs'"
    using consume.IH [OF f(3) ref_keepsD(1) [OF kp], of "log @ [fill_trade seq i m]"] consume.prems(3-5) by auto
  then show ?case using ref_keeps_trans [OF kp] unfolding t by (auto simp: add.assoc)
next
  case (part m ms i rep seq)
  obtain us r vs where f: "at_front sd rs us r vs" "m = strip r"
      "\<And>r'. rf_side r' = opposite sd \<Longrightarrow> rf_price r' = rf_price r \<Longrightarrow>
         ranks (is_bid (opposite sd)) (ref_depth (us @ r' # vs) (opposite sd)) (strip r' # ms)"
    using front_of_ranks [OF part.prems(1,2)] by blast
  let ?r = "r\<lparr>rf_qty := res_qty m - fill_qty i m\<rparr>"
  have t: "ref_loop pol k owner sd p mk (rs, ord_qty i, rep, log, seq) = ref_loop pol k owner sd p mk
      (us @ ?r # vs, ord_qty i - fill_qty i m, record_fill seq (fill_qty i m) rep, log @ [fill_trade seq i m], seq + 1)"
    unfolding ref_loop_turn [OF f(1,2) part(1) part.prems(3-5)] if_not_P [OF part(3)] if_not_P [OF part(4)]
    using part(2) part.prems(5) by (simp only: if_False simp_thms)
  have kp: "ref_keeps sd n rs (us @ ?r # vs)"
    using ref_keeps_update [OF part.prems(2) [unfolded at_front_def [THEN iffD1, OF f(1), THEN conjunct1]]] f(1)
    unfolding at_front_def by blast
  have "ranks (is_bid (opposite sd)) (ref_depth (us @ ?r # vs) (opposite sd)) (m\<lparr>res_qty := res_qty m - fill_qty i m\<rparr> # ms)"
    using f(3) [of ?r] f(1,2) by (simp add: strip_def at_front_def)
  then show ?case using kp part(5) unfolding t by (auto simp: ref_loop_spent)
qed

subsection \<open>The naive book implements the specification\<close>

text \<open>
  \<open>n\<close> more arrival numbers can be handed out before the 64-bit counter wraps (after which the arrival
  order of the vector would no longer be the order of its numbers).
\<close>

definition ref_rel :: "nat \<Rightarrow> reference_book \<Rightarrow> spec_book \<Rightarrow> trade list \<Rightarrow> bool" where
  "ref_rel n R A log \<longleftrightarrow>
     (\<forall>sd. ranks (is_bid sd) (ref_depth (ref_resting R) sd) (spec_orders A sd)) \<and>
     ref_wf (next_arrival R) (ref_resting R) \<and> ref_policy R = spec_policy A \<and> ref_seq R = spec_seq A \<and>
     trade_log R = log \<and> unat (next_arrival R) + n < 2 ^ 64"

lemma ref_relD:
  assumes "ref_rel n R A log"
  shows "ranks (is_bid sd) (ref_depth (ref_resting R) sd) (spec_orders A sd)"
    "ref_wf (next_arrival R) (ref_resting R)" "ref_policy R = spec_policy A" "ref_seq R = spec_seq A"
    "trade_log R = log" "unat (next_arrival R) + n < 2 ^ 64"
  using assms by (auto simp: ref_rel_def)

lemma ref_rel_mono: "ref_rel n R A log \<Longrightarrow> m \<le> n \<Longrightarrow> ref_rel m R A log"
  by (auto simp: ref_rel_def)

lemma ref_order_iff:
  assumes "ref_rel n R A log"
  shows "x \<in> set (spec_orders A sd) \<longleftrightarrow> (\<exists>r\<in>set (ref_resting R). rf_side r = sd \<and> x = strip r)"
  using ranksD(3) [OF ref_relD(1) [OF assms], of x sd] by (auto simp: ref_depth_def)

lemma ex_side: "(\<exists>sd. P sd) \<longleftrightarrow> P Buy \<or> P Sell"
  by (metis side.exhaust)

lemma ref_find_spec:
  assumes rel: "ref_rel n R A log"
  shows "spec_find k A = map_option (\<lambda>r. api_order (rf_side r) (strip r)) (ref_find k R)"
proof -
  let ?os = "map (api_order Buy) (spec_orders A Buy) @ map (api_order Sell) (spec_orders A Sell)"
  have mem: "x \<in> set ?os \<longleftrightarrow> (\<exists>r\<in>set (ref_resting R). x = api_order (rf_side r) (strip r))" for x
  proof -
    have "x \<in> set ?os \<longleftrightarrow> (\<exists>sd. \<exists>o'\<in>set (spec_orders A sd). x = api_order sd o')"
      unfolding ex_side by auto
    then show ?thesis unfolding Bex_def ref_order_iff [OF rel] by auto
  qed
  have inj: "r = r'" if "r \<in> set (ref_resting R)" "r' \<in> set (ref_resting R)" "rf_id r = rf_id r'" for r r'
    using ref_relD(2) [OF rel] that by (auto simp: ref_wf_def distinct_map inj_on_def)
  have oid: "ord_id (api_order sd o') = res_id o'" for sd o' by (simp add: api_order_def)
  show ?thesis
  proof (cases "ref_find k R")
    case None
    then have "rf_id r \<noteq> k" if "r \<in> set (ref_resting R)" for r
      using that by (auto simp: ref_find_def find_None_iff)
    then have "\<not> (\<exists>x. x \<in> set ?os \<and> ord_id x = k)" using mem oid strip_simps(1) by metis
    then have "spec_find k A = None" unfolding spec_find_def find_None_iff .
    then show ?thesis using None by simp
  next
    case (Some r)
    then have r: "r \<in> set (ref_resting R)" "rf_id r = k" by (auto simp: ref_find_def find_Some_iff)
    then have "spec_find k A \<noteq> None" using mem oid unfolding spec_find_def find_None_iff by auto
    then obtain x where x: "spec_find k A = Some x" by auto
    then have "x \<in> set ?os" "ord_id x = k" using find_Some_member unfolding spec_find_def by fastforce+
    then obtain r' where "r' \<in> set (ref_resting R)" "x = api_order (rf_side r') (strip r')" "rf_id r' = k"
      using mem oid strip_simps(1) by metis
    then show ?thesis using inj [of r r'] r x Some by simp
  qed
qed

lemma ref_find_None: "ref_find k R = None \<longleftrightarrow> k \<notin> rf_id ` set (ref_resting R)"
  by (auto simp: ref_find_def find_None_iff)

lemma erase_id_spec:
  "distinct (map rf_id rs) \<Longrightarrow>
   erase_id k rs = (if k \<in> rf_id ` set rs then Some (filter (\<lambda>r. rf_id r \<noteq> k) rs) else None)"
proof (induction rs)
  case (Cons r rs)
  have "rf_id r = k \<Longrightarrow> filter (\<lambda>r. rf_id r \<noteq> k) rs = rs"
    using Cons.prems by (auto intro!: filter_True simp: image_iff)
  then show ?case using Cons by auto
qed simp

lemma ref_wf_filter: "ref_wf n rs \<Longrightarrow> ref_wf n (filter P rs)"
  by (auto simp: ref_wf_def distinct_map_filter sorted_wrt_filter)

lemma ref_cancel_refines:
  assumes rel: "ref_rel n R A log" and c: "spec_cancel k A = (ok, A')"
  shows "\<exists>R'. ref_cancel k R = (ok, R') \<and> ref_rel n R' A' log"
proof -
  note d = ref_relD [OF rel]
  let ?P = "\<lambda>r. rf_id r \<noteq> k"
  have ok: "ok \<longleftrightarrow> k \<in> rf_id ` set (ref_resting R)" and A': "A' = A\<lparr>spec_orders := \<lambda>sd. filter (\<lambda>r. res_id r \<noteq> k) (spec_orders A sd)\<rparr>"
    using c ref_find_spec [OF rel, of k] ref_find_None [of k R] by (auto simp: spec_cancel_def)
  have e: "erase_id k (ref_resting R) = (if ok then Some (filter ?P (ref_resting R)) else None)"
    using erase_id_spec d(2) ok by (simp add: ref_wf_def)
  have "ref_depth (filter ?P rs) sd = (\<lambda>p. filter (\<lambda>r. res_id r \<noteq> k) (ref_depth rs sd p))" for rs sd
    by (induction rs) (auto simp: fun_eq_iff)
  then have "ranks (is_bid sd) (ref_depth (filter ?P (ref_resting R)) sd) (spec_orders A' sd)" for sd
    using ranks_filter [OF d(1) [of sd], of "\<lambda>r. res_id r \<noteq> k"] A' by simp
  then have r: "ref_rel n (R\<lparr>ref_resting := filter ?P (ref_resting R)\<rparr>) A' log"
    using d ref_wf_filter A' by (auto simp: ref_rel_def)
  show ?thesis
  proof (cases ok)
    case True
    then show ?thesis using e r by (simp add: ref_cancel_def)
  next
    case False
    then have "filter ?P (ref_resting R) = ref_resting R" using ok by (auto intro!: filter_True)
    then have "R\<lparr>ref_resting := filter ?P (ref_resting R)\<rparr> = R" by simp
    then show ?thesis using e r False by (simp add: ref_cancel_def)
  qed
qed

lemma ref_depth_filter: "ref_depth rs sd p = map strip (filter (\<lambda>r. rf_price r = p) (filter (\<lambda>r. rf_side r = sd) rs))"
  by (simp add: ref_depth_def conj_commute)

lemma ref_depth_keeps: "ref_keeps sd n rs rs' \<Longrightarrow> ref_depth rs' sd = ref_depth rs sd"
  by (simp add: fun_eq_iff ref_depth_filter ref_keepsD(2))

text \<open>A new order takes the next arrival number and the back of its price's queue.\<close>

lemma ref_rest:
  assumes rk: "\<And>sd'. ranks (is_bid sd') (ref_depth rs sd') (os sd')" and wf: "ref_wf n rs"
    and new: "rf_id r \<notin> rf_id ` set rs" "rf_arrival r = n" "rf_side r = sd" and room: "unat n + 1 < 2 ^ 64"
  shows "ranks (is_bid sd') (ref_depth (rs @ [r]) sd') ((os(sd := rank_insert (is_bid sd) (strip r) (os sd))) sd')"
    and "ref_wf (n + 1) (rs @ [r])"
proof -
  have D: "ref_depth (rs @ [r]) sd = (ref_depth rs sd)(rf_price r := ref_depth rs sd (rf_price r) @ [strip r])"
    using new(3) by (auto simp: fun_eq_iff)
  show "ranks (is_bid sd') (ref_depth (rs @ [r]) sd') ((os(sd := rank_insert (is_bid sd) (strip r) (os sd))) sd')"
  proof (cases "sd' = sd")
    case True
    then show ?thesis using ranks_insert [OF rk [of sd], of "strip r"] D by simp
  next
    case False
    then have "ref_depth (rs @ [r]) sd' = ref_depth rs sd'" using new(3) by (auto simp: fun_eq_iff)
    then show ?thesis using rk [of sd'] False by simp
  qed
  have "n < n + 1" using room by (simp add: word_less_nat_alt unat_word_ariths)
  then show "ref_wf (n + 1) (rs @ [r])" using wf new unfolding ref_wf_def sorted_wrt_append by force
qed

lemma ref_submit_refines:
  assumes rel: "ref_rel (Suc n) R A log"
    and sp: "spec_submit k owner sd (if mk then None else Some p) qty (\<not> mk) A = (rep, ts, A')" and p: "mk \<longrightarrow> p = 0"
  shows "\<exists>R'. ref_submit k owner sd p qty mk R = (rep, R') \<and> ref_rel n R' A' (log @ ts)"
proof (cases "qty = 0 \<or> ref_find k R \<noteq> None")
  case True
  moreover from this have "qty = 0 \<or> spec_find k A \<noteq> None" using ref_find_spec [OF rel, of k] by auto
  ultimately show ?thesis
    using sp spec_submit_rejected [of qty k A] ref_rel_mono [OF rel, of n] by (auto simp: ref_submit_def)
next
  case False
  let ?lim = "if mk then None else Some p"
  note d = ref_relD [OF rel]
  have acc: "qty \<noteq> 0" "spec_find k A = None" using False ref_find_spec [OF rel, of k] by auto
  define i where "i = \<lparr>ord_id = k, ord_owner = owner, ord_price = (case ?lim of None \<Rightarrow> 0 | Some p \<Rightarrow> p),
    ord_qty = qty, ord_side = sd\<rparr>"
  have ip: "ord_price i = p" using p by (simp add: i_def)
  obtain os i1 r1 us where sw: "sweep (spec_policy A) ?lim (spec_orders A (opposite sd)) i new_report (spec_seq A) = (os, i1, r1, us)"
    by (cases "sweep (spec_policy A) ?lim (spec_orders A (opposite sd)) i new_report (spec_seq A)") auto
  define A1 where "A1 = A\<lparr>spec_orders := (spec_orders A)(opposite sd := os), spec_seq := spec_seq A + of_nat (length us)\<rparr>"
  define r2 where "r2 = r1\<lparr>remaining := ord_qty i1\<rparr>"
  note spec = spec_submit_accepted [OF acc i_def sw A1_def r2_def, of "\<not> mk"]
  have "ref_wf (next_arrival R) (ref_resting R)" "ranks (is_bid (opposite sd)) (ref_depth (ref_resting R) (opposite sd)) (spec_orders A (opposite sd))"
    using d by blast+
  from ref_loop_sweep [OF sw this(2,1), of k owner log]
  obtain rs' where lp: "ref_loop (spec_policy A) k owner sd p mk (ref_resting R, qty, new_report, log, spec_seq A) =
      (rs', ord_qty i1, r1, log @ us, spec_seq A + of_nat (length us))"
    and rk: "ranks (is_bid (opposite sd)) (ref_depth rs' (opposite sd)) os" and kp: "ref_keeps sd (next_arrival R) (ref_resting R) rs'"
    unfolding i_def by auto
  have all: "ranks (is_bid sd') (ref_depth rs' sd') (spec_orders A1 sd')" for sd'
  proof (cases "sd' = sd")
    case True
    then show ?thesis using d(1) [of sd] ref_depth_keeps [OF kp] by (simp add: A1_def)
  next
    case other: False
    then have "sd' = opposite sd" by (cases sd; cases sd') auto
    then show ?thesis using rk by (simp add: A1_def)
  qed
  define R1 where "R1 = R\<lparr>ref_resting := rs', trade_log := log @ us, ref_seq := spec_seq A + of_nat (length us)\<rparr>"
  have sub: "ref_submit k owner sd p qty mk R =
      (if \<not> mk \<and> ord_qty i1 > 0 \<and> \<not> stp_halted r2
       then (r2\<lparr>rested := True\<rparr>, R1\<lparr>ref_resting := rs' @ [\<lparr>rf_id = k, rf_owner = owner, rf_price = p, rf_qty = ord_qty i1,
              rf_side = sd, rf_arrival = next_arrival R\<rparr>], next_arrival := next_arrival R + 1\<rparr>)
       else (r2, R1))"
    using False d lp unfolding ref_submit_def R1_def r2_def by (simp add: Let_def)
  show ?thesis
  proof (cases "\<not> mk \<and> ord_qty i1 > 0 \<and> \<not> stp_halted r2")
    case True
    define r where "r = \<lparr>rf_id = k, rf_owner = owner, rf_price = p, rf_qty = ord_qty i1, rf_side = sd, rf_arrival = next_arrival R\<rparr>"
    have st: "\<lparr>res_id = k, res_price = ord_price i1, res_qty = ord_qty i1, res_owner = owner\<rparr> = strip r"
      using sweep_price [OF sw] ip by (simp add: r_def strip_def)
    have k: "rf_id r \<notin> rf_id ` set rs'" using ref_keepsD(3) [OF kp, of k] False ref_find_None by (auto simp: r_def)
    have "unat (next_arrival R) + 1 < 2 ^ 64" using d(6) by simp
    moreover have "rf_arrival r = next_arrival R" "rf_side r = sd" by (simp_all add: r_def)
    ultimately have rr: "ranks (is_bid sd') (ref_depth (rs' @ [r]) sd')
        (((spec_orders A1)(sd := rank_insert (is_bid sd) (strip r) (spec_orders A1 sd))) sd')"
      "ref_wf (next_arrival R + 1) (rs' @ [r])" for sd'
      using ref_rest [OF all ref_keepsD(1) [OF kp] k] by blast+
    have res: "rep = r2\<lparr>rested := True\<rparr>" "ts = us"
      "A' = A1\<lparr>spec_orders := (spec_orders A1)(sd := rank_insert (is_bid sd) (strip r) (spec_orders A1 sd))\<rparr>"
      using sp spec True st by auto
    have A': "spec_orders A' = (spec_orders A1)(sd := rank_insert (is_bid sd) (strip r) (spec_orders A1 sd))"
      "spec_policy A' = spec_policy A" "spec_seq A' = spec_seq A + of_nat (length us)"
      using res(3) by (simp_all add: A1_def)
    have "unat (next_arrival R + 1) = unat (next_arrival R) + 1"
      using d(6) by (simp add: unat_word_ariths)
    then have "ref_rel n (R1\<lparr>ref_resting := rs' @ [r], next_arrival := next_arrival R + 1\<rparr>) A' (log @ ts)"
      using rr d(3,6) res(2) unfolding ref_rel_def R1_def A' by simp
    then show ?thesis using sub True res(1) by (auto simp: r_def)
  next
    case no: False
    then have "rep = r2" "ts = us" "A' = A1" using sp spec by auto
    moreover have "ref_rel n R1 A1 (log @ us)"
      using all ref_keepsD(1) [OF kp] d(3,6) by (simp add: ref_rel_def R1_def) (simp add: A1_def)
    ultimately show ?thesis using sub no by auto
  qed
qed

lemma ref_modify_refines:
  assumes rel: "ref_rel (Suc n) R A log" and sp: "spec_modify k p qty A = (rep, ts, A')"
  shows "\<exists>R'. ref_modify k p qty R = (rep, R') \<and> ref_rel n R' A' (log @ ts)"
proof (cases "ref_find k R")
  case None
  then have "spec_find k A = None" using ref_find_spec [OF rel, of k] by simp
  then show ?thesis using None sp ref_rel_mono [OF rel, of n] by (auto simp: ref_modify_def spec_modify_def)
next
  case (Some r)
  then have f: "spec_find k A = Some (api_order (rf_side r) (strip r))" using ref_find_spec [OF rel, of k] by simp
  obtain ok A1 where c: "spec_cancel k A = (ok, A1)" by (cases "spec_cancel k A") auto
  obtain R1 where R1: "ref_cancel k R = (ok, R1)" "ref_rel (Suc n) R1 A1 log"
    using ref_cancel_refines [OF rel c] by blast
  show ?thesis
  proof (cases "qty = 0")
    case True
    then show ?thesis
      using Some f c R1 sp ref_rel_mono [OF R1(2), of n] by (auto simp: ref_modify_def spec_modify_def)
  next
    case False
    then have "spec_submit k (rf_owner r) (rf_side r) (if False then None else Some p) qty (\<not> False) A1 = (rep, ts, A')"
      using sp f c by (simp add: spec_modify_def api_order_def)
    from ref_submit_refines [OF R1(2) this] show ?thesis
      using False Some R1(1) by (simp add: ref_modify_def ref_add_limit_def)
  qed
qed

subsection \<open>The snapshot in queue order\<close>

lemma set_insert_by [simp]: "set (insert_by lt x ys) = insert x (set ys)"
  by (induction ys) auto

lemma sorted_insert_by:
  assumes tr: "\<And>a b c. lt a b \<Longrightarrow> lt b c \<Longrightarrow> lt a c" and "sorted_wrt lt ys"
    and "\<And>y. y \<in> set ys \<Longrightarrow> lt x y \<or> lt y x"
  shows "sorted_wrt lt (insert_by lt x ys)"
  using assms(2,3) by (induction ys) (auto intro: tr)

lemma ref_less_trans: "ref_less a b \<Longrightarrow> ref_less b c \<Longrightarrow> ref_less a c"
  unfolding ref_less_def
  by (cases "rf_side a"; cases "rf_side b"; cases "rf_side c") (auto split: if_splits)

lemma ref_less_total: "rf_arrival a \<noteq> rf_arrival b \<Longrightarrow> ref_less a b \<or> ref_less b a"
  unfolding ref_less_def by (cases "rf_side a"; cases "rf_side b") (auto split: if_splits)

lemma ref_wf_arrivals: "ref_wf n rs \<Longrightarrow> distinct (map rf_arrival rs)"
  unfolding ref_wf_def by (induction rs) auto

lemma snapshot_sorted:
  assumes "ref_wf n rs"
  shows "set (foldr (insert_by ref_less) rs []) = set rs" "sorted_wrt ref_less (foldr (insert_by ref_less) rs [])"
proof -
  show s: "set (foldr (insert_by ref_less) rs []) = set rs" for rs by (induction rs) auto
  show "sorted_wrt ref_less (foldr (insert_by ref_less) rs [])"
    using ref_wf_arrivals [OF assms]
  proof (induction rs)
    case (Cons r rs)
    have "ref_less r y \<or> ref_less y r" if "y \<in> set rs" for y
      using Cons.prems that ref_less_total [of r y] by (auto simp: image_iff)
    then show ?case using Cons s by (auto intro!: sorted_insert_by intro: ref_less_trans)
  qed simp
qed

text \<open>Two lists in arrival order with the same orders are equal.\<close>

lemma arrival_sorted_unique:
  assumes "sorted_wrt (\<lambda>a b. rf_arrival a < rf_arrival b) xs" "sorted_wrt (\<lambda>a b. rf_arrival a < rf_arrival b) ys"
    and s: "set xs = set ys"
  shows "xs = ys"
proof -
  have sw: "sorted_wrt (<) (map rf_arrival xs)" "sorted_wrt (<) (map rf_arrival ys)"
    using assms by (simp_all add: sorted_wrt_map)
  have "map rf_arrival xs = map rf_arrival ys"
    by (rule strict_sorted_equal) (use sw s in auto)
  moreover have "inj_on rf_arrival (set xs)" using sw(1) strict_sorted_iff distinct_map by blast
  ultimately show ?thesis using s by (simp add: inj_on_map_eq_map)
qed

lemma snapshot_side:
  assumes rel: "ref_rel n R A log"
  shows "map strip (filter (\<lambda>r. rf_side r = sd) (queue_snapshot R)) = spec_orders A sd"
proof (rule ranks_unique [of "is_bid sd" "ref_depth (ref_resting R) sd"])
  note d = ref_relD [OF rel]
  let ?S = "queue_snapshot R" and ?side = "\<lambda>r. rf_side r = sd"
  have S: "set ?S = set (ref_resting R)" "sorted_wrt ref_less ?S"
    using snapshot_sorted [OF d(2)] by (simp_all add: queue_snapshot_def)
  show "ranks (is_bid sd) (ref_depth (ref_resting R) sd) (spec_orders A sd)" by (rule d(1))
  show "ranks (is_bid sd) (ref_depth (ref_resting R) sd) (map strip (filter ?side ?S))"
  proof (rule ranksI)
    have "sorted_wrt (\<lambda>x y. \<not> better (is_bid sd) (rf_price y) (rf_price x)) (filter ?side ?S)"
      by (rule sorted_wrt_mono_rel [OF _ sorted_wrt_filter [OF S(2)]])
        (auto simp: ref_less_def better_def is_bid_def split: if_splits)
    then show "sorted_wrt (\<lambda>x y. \<not> better (is_bid sd) (res_price y) (res_price x)) (map strip (filter ?side ?S))"
      by (simp add: sorted_wrt_map)
    show "filter (\<lambda>r. res_price r = p) (map strip (filter ?side ?S)) = ref_depth (ref_resting R) sd p" for p
    proof -
      let ?at = "\<lambda>r. rf_side r = sd \<and> rf_price r = p"
      have "filter ?at ?S = filter ?at (ref_resting R)"
      proof (rule arrival_sorted_unique)
        show "sorted_wrt (\<lambda>a b. rf_arrival a < rf_arrival b) (filter ?at ?S)"
          by (rule sorted_wrt_mono_rel [OF _ sorted_wrt_filter [OF S(2)]]) (auto simp: ref_less_def)
        show "sorted_wrt (\<lambda>a b. rf_arrival a < rf_arrival b) (filter ?at (ref_resting R))"
          using d(2) by (auto simp: ref_wf_def intro: sorted_wrt_filter)
      qed (simp add: S(1))
      then show ?thesis by (simp add: ref_depth_def filter_map comp_def conj_commute)
    qed
  qed
qed

text \<open>The row of the vector as the order the interface reports.\<close>

definition ref_api :: "ref_order \<Rightarrow> order" where
  "ref_api r = \<lparr>ord_id = rf_id r, ord_owner = rf_owner r, ord_price = rf_price r, ord_qty = rf_qty r, ord_side = rf_side r\<rparr>"

lemma sides_in_order:
  "sorted_wrt ref_less rs \<Longrightarrow> rs = filter (\<lambda>r. rf_side r = Buy) rs @ filter (\<lambda>r. rf_side r = Sell) rs"
proof (induction rs)
  case (Cons r rs)
  show ?case
  proof (cases "rf_side r")
    case Buy
    then show ?thesis using Cons by simp
  next
    case Sell
    have "rf_side y = Sell" if "y \<in> set rs" for y
      using Cons.prems that Sell by (cases "rf_side y") (auto simp: ref_less_def)
    then have "filter (\<lambda>r. rf_side r = Buy) rs = []" "filter (\<lambda>r. rf_side r = Sell) rs = rs"
      by (auto simp: filter_empty_conv filter_id_conv)
    then show ?thesis using Sell by simp
  qed
qed simp

lemma snapshot_refines:
  assumes rel: "ref_rel n R A log"
  shows "map ref_api (queue_snapshot R) = spec_snapshot A"
proof -
  let ?S = "queue_snapshot R"
  have "sorted_wrt ref_less ?S" using snapshot_sorted(2) [OF ref_relD(2) [OF rel]] by (simp add: queue_snapshot_def)
  then have split: "?S = filter (\<lambda>r. rf_side r = Buy) ?S @ filter (\<lambda>r. rf_side r = Sell) ?S"
    by (rule sides_in_order)
  have a: "ref_api r = api_order (rf_side r) (strip r)" for r by (simp add: ref_api_def api_order_def)
  have "map ref_api (filter (\<lambda>r. rf_side r = sd) ?S) = map (api_order sd) (map strip (filter (\<lambda>r. rf_side r = sd) ?S))" for sd
    by (auto simp: a)
  then show ?thesis using snapshot_side [OF rel] by (subst split) (simp add: spec_snapshot_def)
qed

subsection \<open>Queries\<close>

lemma ref_qty_at_refines:
  assumes rel: "ref_rel n R A log"
  shows "ref_qty_at sd p R = (\<Sum>r\<leftarrow>filter (\<lambda>r. res_price r = p) (spec_orders A sd). ucast (res_qty r))"
proof -
  have "foldl (\<lambda>total r. if rf_side r = sd \<and> rf_price r = p then total + ucast (rf_qty r) else total) t rs =
      t + (\<Sum>r\<leftarrow>ref_depth rs sd p. ucast (res_qty r))" for t :: volume and rs
    by (induction rs arbitrary: t) (auto simp: add.assoc)
  then show ?thesis using ranksD(2) [OF ref_relD(1) [OF rel], of p sd] by (simp add: ref_qty_at_def)
qed

text \<open>The scan for the best price, by what it has found after a prefix of the vector.\<close>

definition best_so_far :: "side \<Rightarrow> ref_order list \<Rightarrow> price option \<Rightarrow> bool" where
  "best_so_far sd rs best \<longleftrightarrow>
     (case best of
        None \<Rightarrow> \<forall>r\<in>set rs. rf_side r \<noteq> sd
      | Some q \<Rightarrow> (\<exists>r\<in>set rs. rf_side r = sd \<and> rf_price r = q) \<and>
          (\<forall>r\<in>set rs. rf_side r = sd \<longrightarrow> \<not> better (is_bid sd) (rf_price r) q))"

lemma ref_best_scan: "best_so_far sd (ref_resting R) (ref_best_price sd R)"
proof -
  define f :: "price option \<Rightarrow> ref_order \<Rightarrow> price option" where "f = (\<lambda>best r. if rf_side r \<noteq> sd then best
      else case best of
          None \<Rightarrow> Some (rf_price r)
        | Some q \<Rightarrow> if (if sd = Buy then rf_price r > q else rf_price r < q) then Some (rf_price r) else Some q)"
  have step: "best_so_far sd (us @ [r]) (f best r)" if inv: "best_so_far sd us best" for us r best
  proof (cases best)
    case None
    then show ?thesis using inv by (auto simp: f_def best_so_far_def)
  next
    case (Some q)
    have f: "f best r = (if rf_side r \<noteq> sd then Some q else if better (is_bid sd) (rf_price r) q then Some (rf_price r) else Some q)"
      using Some by (auto simp: f_def better_def is_bid_def)
    show ?thesis
    proof (cases "rf_side r = sd \<and> better (is_bid sd) (rf_price r) q")
      case True
      have "\<not> better (is_bid sd) (rf_price x) (rf_price r)" if "x \<in> set us" "rf_side x = sd" for x
        using inv that True Some better_trans by (fastforce simp: best_so_far_def)
      then show ?thesis using True f by (auto simp: best_so_far_def)
    next
      case False
      then show ?thesis using f inv Some by (auto simp: best_so_far_def)
    qed
  qed
  have "best_so_far sd rs (foldl f None rs)" for rs
    by (induction rs rule: rev_induct) (use step in \<open>simp_all add: best_so_far_def [of sd "[]"]\<close>)
  then show ?thesis by (simp add: ref_best_price_def f_def)
qed

lemma ref_best_price_refines:
  assumes rel: "ref_rel n R A log"
  shows "ref_best_price sd R = map_option res_price (case spec_orders A sd of [] \<Rightarrow> None | r # _ \<Rightarrow> Some r)"
proof (cases "spec_orders A sd")
  case Nil
  then have "rf_side r \<noteq> sd" if "r \<in> set (ref_resting R)" for r using ref_order_iff [OF rel, of "strip r" sd] that by auto
  then have "ref_best_price sd R = None" using ref_best_scan [of sd R] by (auto simp: best_so_far_def split: option.splits)
  then show ?thesis using Nil by simp
next
  case (Cons x xs)
  note iff = ref_order_iff [OF rel, where sd = sd]
  obtain r where r: "r \<in> set (ref_resting R)" "rf_side r = sd" "x = strip r" using iff [of x] Cons by auto
  then obtain q where q: "ref_best_price sd R = Some q" using ref_best_scan [of sd R] by (auto simp: best_so_far_def split: option.splits)
  obtain r' where r': "r' \<in> set (ref_resting R)" "rf_side r' = sd" "rf_price r' = q"
    using ref_best_scan [of sd R] q by (auto simp: best_so_far_def)
  have "\<not> better (is_bid sd) (rf_price r) q" using ref_best_scan [of sd R] q r by (auto simp: best_so_far_def)
  moreover have "strip r' \<in> set (x # xs)" using iff [of "strip r'"] r' Cons by auto
  then have "\<not> better (is_bid sd) q (rf_price r)"
    using ranksD(1) [OF ref_relD(1) [OF rel, of sd]] r'(3) r(3) unfolding Cons
    by (auto dest!: arg_cong [of "strip r'" "strip r" res_price])
  ultimately have "q = rf_price r" using better_total [of q "rf_price r" "is_bid sd"] by blast
  then show ?thesis using q r Cons by simp
qed

subsection \<open>The naive book as a price-time book\<close>

text \<open>The body of the harness loop for the naive book.\<close>

definition ref_step :: "op \<Rightarrow> reference_book \<Rightarrow> exec_report \<times> reference_book" where
  "ref_step x R =
     (case op_what x of
        AddLimit \<Rightarrow> ref_add_limit (op_id x) (op_owner x) (op_side x) (op_price x) (op_qty x) R
      | AddMarket \<Rightarrow> ref_add_market (op_id x) (op_owner x) (op_side x) (op_qty x) R
      | Cancel \<Rightarrow> (case ref_cancel (op_id x) R of (ok, R') \<Rightarrow> (new_report\<lparr>accepted := ok\<rparr>, R'))
      | Modify \<Rightarrow> ref_modify (op_id x) (op_price x) (op_qty x) R)"

lemma ref_step_refines:
  assumes rel: "ref_rel (Suc n) R A log" and st: "spec_step x A = (rep, ts, A')"
  shows "\<exists>R'. ref_step x R = (rep, R') \<and> ref_rel n R' A' (log @ ts)"
proof (cases "op_what x")
  case AddLimit
  then have "spec_submit (op_id x) (op_owner x) (op_side x) (if False then None else Some (op_price x)) (op_qty x) (\<not> False) A = (rep, ts, A')"
    using st by (simp add: spec_step_def)
  from ref_submit_refines [OF rel this] show ?thesis using AddLimit by (simp add: ref_step_def ref_add_limit_def)
next
  case AddMarket
  then have "spec_submit (op_id x) (op_owner x) (op_side x) (if True then None else Some 0) (op_qty x) (\<not> True) A = (rep, ts, A')"
    using st by (simp add: spec_step_def)
  from ref_submit_refines [OF rel this] show ?thesis using AddMarket by (simp add: ref_step_def ref_add_market_def)
next
  case Cancel
  obtain ok A1 where c: "spec_cancel (op_id x) A = (ok, A1)" by (cases "spec_cancel (op_id x) A") auto
  have "ref_rel n R A log" using ref_rel_mono [OF rel] by simp
  from ref_cancel_refines [OF this c] show ?thesis using Cancel c st by (auto simp: ref_step_def spec_step_def)
next
  case Modify
  then have "spec_modify (op_id x) (op_price x) (op_qty x) A = (rep, ts, A')" using st by (simp add: spec_step_def)
  from ref_modify_refines [OF rel this] show ?thesis using Modify by (simp add: ref_step_def)
qed

interpretation reference: price_time_book "\<lambda>x R. Some (ref_step x R)" ref_rel "\<lambda>R. Some (map ref_api (queue_snapshot R))"
proof
  show "\<exists>s'. Some (ref_step x s) = Some (rep, s') \<and> ref_rel n s' A' (log @ ts)"
    if "ref_rel (Suc n) s A log" "spec_step x A = (rep, ts, A')" for n s A log x rep ts A'
    using ref_step_refines [OF that] by auto
qed (simp add: snapshot_refines)

lemma ref_new_rel:
  assumes "n < 2 ^ 64 - 1"
  shows "ref_rel n (ref_new pol) (spec_new pol) []"
  using assms by (simp add: ref_rel_def ref_new_def spec_new_def ranks_Nil_iff ref_wf_def)

end
