(* ===== verification/Differential.thy ===== *)
theory Differential
  imports Book_Refinement Reference_Book
begin

section \<open>Differential testing of the engine against the naive book\<close>

text \<open>
  The harness of \<^verbatim>\<open>tests/diff_harness\<close>: both books are driven by one sequence of operations, and
  everything observable is compared: the report of each operation, the trade stream and the final
  book in queue order. What the harness samples is proved here for all sequences: the two
  interpretations of \<^verbatim>\<open>price_time_book\<close> are put together in one of \<^verbatim>\<open>two_books\<close>. The delta-debugging
  loop that shrinks a failing sequence is modelled with the divergence test as a parameter.
\<close>

subsection \<open>Model of the harness\<close>

record observed =
  obs_trades :: "trade list"
  obs_reports :: "exec_report list"
  obs_queue :: "(64 word \<times> price \<times> order_id \<times> 64 word) list"

definition side_code :: "side \<Rightarrow> 64 word" where
  "side_code sd = (case sd of Buy \<Rightarrow> 0 | Sell \<Rightarrow> 1)"

definition row :: "64 word \<Rightarrow> price \<Rightarrow> order_id \<Rightarrow> quantity \<Rightarrow> 64 word \<times> price \<times> order_id \<times> 64 word" where
  "row sd p k qty = (sd, p, k, ucast qty)"

definition same_report :: "exec_report \<Rightarrow> exec_report \<Rightarrow> bool" where
  "same_report a b \<longleftrightarrow> first_seq a = first_seq b \<and> trade_count a = trade_count b \<and> filled a = filled b \<and>
     remaining a = remaining b \<and> stp_cancelled a = stp_cancelled b \<and> rested a = rested b \<and>
     accepted a = accepted b \<and> stp_halted a = stp_halted b"

definition same_trade :: "trade \<Rightarrow> trade \<Rightarrow> bool" where
  "same_trade x y \<longleftrightarrow> \<not> (tr_seq x \<noteq> tr_seq y \<or> tr_maker_id x \<noteq> tr_maker_id y \<or> tr_taker_id x \<noteq> tr_taker_id y \<or>
     tr_price x \<noteq> tr_price y \<or> tr_qty x \<noteq> tr_qty y \<or> tr_taker_side x \<noteq> tr_taker_side y)"

definition same_observed :: "observed \<Rightarrow> observed \<Rightarrow> bool" where
  "same_observed a b \<longleftrightarrow> list_all2 same_trade (obs_trades a) (obs_trades b) \<and>
     list_all2 same_report (obs_reports a) (obs_reports b) \<and> obs_queue a = obs_queue b"

text \<open>One turn of the engine's loop; a failed assertion of \<^verbatim>\<open>check_invariants()\<close> aborts the run.\<close>

definition checked_step :: "op \<Rightarrow> book \<Rightarrow> (exec_report \<times> book) option" where
  "checked_step x b =
     Option.bind (engine_step x b)
       (\<lambda>(rep, b'). if check_invariants b' = Some True then Some (rep, b') else None)"

definition run_engine :: "op list \<Rightarrow> config \<Rightarrow> observed option" where
  "run_engine ops cfg =
     Option.bind (book_new cfg) (\<lambda>b.
       Option.bind (run_ops checked_step ops b) (\<lambda>(reps, b1).
         Option.bind (drain_trades (trade_out b1)) (\<lambda>(ts, ring).
           Option.bind (for_each_resting (b1\<lparr>trade_out := ring\<rparr>)) (\<lambda>os.
             Some \<lparr>obs_trades = ts, obs_reports = reps,
                   obs_queue = map (\<lambda>x. row (side_code (ord_side x)) (ord_price x) (ord_id x) (ord_qty x)) os\<rparr>))))"

fun reference_loop :: "op list \<Rightarrow> reference_book \<Rightarrow> exec_report list \<times> reference_book" where
  "reference_loop [] R = ([], R)"
| "reference_loop (x # xs) R =
     (case ref_step x R of (rep, R1) \<Rightarrow> case reference_loop xs R1 of (reps, R2) \<Rightarrow> (rep # reps, R2))"

definition run_reference :: "op list \<Rightarrow> self_trade_policy \<Rightarrow> observed" where
  "run_reference ops pol =
     (case reference_loop ops (ref_new pol) of
        (reps, R) \<Rightarrow> \<lparr>obs_trades = trade_log R, obs_reports = reps,
          obs_queue = map (\<lambda>r. row (side_code (rf_side r)) (rf_price r) (rf_id r) (rf_qty r)) (queue_snapshot R)\<rparr>)"

definition diverges :: "op list \<Rightarrow> config \<Rightarrow> bool option" where
  "diverges ops cfg =
     map_option (\<lambda>obs. \<not> same_observed obs (run_reference ops (self_trade cfg))) (run_engine ops cfg)"

subsection \<open>The comparison is equality\<close>

lemma same_report_iff: "same_report a b \<longleftrightarrow> a = b"
  by (auto simp: same_report_def)

lemma same_trade_iff: "same_trade x y \<longleftrightarrow> x = y"
  by (auto simp: same_trade_def)

lemma same_observed_iff: "same_observed a b \<longleftrightarrow> a = b"
  by (auto simp: same_observed_def same_report_iff [abs_def] same_trade_iff [abs_def] list.rel_eq)

subsection \<open>No sequence of operations tells the two books apart\<close>

interpretation checked: price_time_book checked_step "engine_rep c" for_each_resting for c
proof
  fix n b A log x rep ts A'
  assume "engine_rep c (Suc n) b A log" "spec_step x A = (rep, ts, A')"
  from engine.step_law [OF this] obtain b' where b': "engine_step x b = Some (rep, b')" "engine_rep c n b' A' (log @ ts)"
    by blast
  then have "check_invariants b' = Some True" using check_invariants_holds by (auto simp: engine_rep_def)
  then show "\<exists>s'. checked_step x b = Some (rep, s') \<and> engine_rep c n s' A' (log @ ts)"
    using b' by (simp add: checked_step_def)
qed (rule engine.snapshot_law)

interpretation diff: two_books checked_step "engine_rep c" for_each_resting
  "\<lambda>x R. Some (ref_step x R)" ref_rel "\<lambda>R. Some (map ref_api (queue_snapshot R))" for c
  by unfold_locales

lemma reference_loop_run_ops: "run_ops (\<lambda>x R. Some (ref_step x R)) xs R = Some (reference_loop xs R)"
  by (induction xs arbitrary: R) (auto split: prod.splits)

lemma for_each_resting_ring: "for_each_resting (b\<lparr>trade_out := r\<rparr>) = for_each_resting b"
  by (simp add: for_each_resting_def)

lemma engine_matches_reference:
  assumes ops: "length ops \<le> 2 ^ 31" and cfg: "allocatable cfg"
  shows "\<exists>ring. trade_ring_new (trade_capacity cfg) = Some (Inr ring) \<and> unat (trade_capacity cfg) \<le> ring_capacity ring \<and>
    run_engine ops cfg = Some ((run_reference ops (self_trade cfg))\<lparr>obs_trades := take (ring_capacity ring) (obs_trades (run_reference ops (self_trade cfg)))\<rparr>)"
proof -
  obtain b where b: "book_new cfg = Some b" "book_rel b no_orders (spec_new (self_trade cfg))"
      "ring_list (trade_out b) = []" "unat (trade_capacity cfg) \<le> ring_capacity (trade_out b)" "drop_count (trade_out b) = 0"
    using book_new_refines [OF cfg] by blast
  define c where "c = ring_capacity (trade_out b)"
  have "engine_rep c (length ops + 0) b (spec_new (self_trade cfg)) []"
    using b ops book_size_spec(1) [OF b(2)] by (auto simp: engine_rep_def ring_rep_def c_def spec_ids_def spec_new_def)
  moreover have "ref_rel (length ops + 0) (ref_new (self_trade cfg)) (spec_new (self_trade cfg)) []"
    by (rule ref_new_rel) (use ops in simp)
  ultimately obtain reps b1 R A ts where run: "run_ops checked_step ops b = Some (reps, b1)"
      "reference_loop ops (ref_new (self_trade cfg)) = (reps, R)"
      "engine_rep c 0 b1 A ts" "ref_rel 0 R A ts" "for_each_resting b1 = Some (map ref_api (queue_snapshot R))"
    using diff.agree [of c ops 0 b _ "[]"] unfolding reference_loop_run_ops by fastforce
  obtain Q where rel: "book_rel b1 Q A" and rl: "ring_list (trade_out b1) = take c ts"
    using run(3) by (auto simp: engine_rep_def ring_rep_def)
  obtain ring where dr: "drain_trades (trade_out b1) = Some (ring_list (trade_out b1), ring)"
    using drain_trades_returns book_wfD(3) [OF book_relD(1) [OF rel]] by blast
  have "trade_log R = ts" using run(4) by (rule ref_relD(5))
  then show ?thesis
    using b(1,4) book_new_ring [OF b(1)] run dr rl by (intro exI [of _ "trade_out b"])
      (simp add: run_engine_def run_reference_def for_each_resting_ring ref_api_def comp_def c_def)
qed

text \<open>
  (C2) The engine cannot be told apart from the naive book. For every sequence of up to \<open>2 ^ 31\<close>
  operations and every configuration whose storage can exist (self-trade policy, price window, expected orders, ring), if the
  ring is large enough for the trades of the sequence, the harness finds no divergence: every call of the
  engine returns, its invariant check passes after each operation, and reports, trades and final
  queue order are those of the linear-scan reference.
\<close>

theorem no_divergence:
  assumes "length ops \<le> 2 ^ 31" and "allocatable cfg"
    and "length (obs_trades (run_reference ops (self_trade cfg))) \<le> unat (trade_capacity cfg)"
  shows "diverges ops cfg = Some False"
  using engine_matches_reference [OF assms(1,2)] assms(3)
  by (auto simp: diverges_def same_observed_iff)

definition sample_ops :: "op list" where
  "sample_ops =
     [\<lparr>op_what = AddLimit, op_id = 1, op_owner = 1, op_side = Sell, op_price = 101, op_qty = 5\<rparr>,
      \<lparr>op_what = AddLimit, op_id = 2, op_owner = 2, op_side = Sell, op_price = 100, op_qty = 3\<rparr>,
      \<lparr>op_what = AddLimit, op_id = 3, op_owner = 3, op_side = Buy, op_price = 101, op_qty = 6\<rparr>,
      \<lparr>op_what = Modify, op_id = 1, op_owner = 0, op_side = Buy, op_price = 5000, op_qty = 4\<rparr>,
      \<lparr>op_what = AddMarket, op_id = 4, op_owner = 1, op_side = Buy, op_price = 0, op_qty = 1\<rparr>,
      \<lparr>op_what = Cancel, op_id = 9, op_owner = 0, op_side = Buy, op_price = 0, op_qty = 0\<rparr>]"

lemma sample_trades: "length (obs_trades (run_reference sample_ops CancelResting)) = 2"
  by code_simp

theorem no_divergence_witness: "diverges sample_ops default_config = Some False"
proof -
  have "length sample_ops = 6" by (simp add: sample_ops_def)
  then show ?thesis
    using no_divergence [of sample_ops default_config] sample_trades by (simp add: default_config_def allocatable_def)
qed

text \<open>
  (C13) The shape of the price window is invisible: how many levels the flat array has, where it
  starts, and how many orders were provisioned for never changes a single observable of a run,
  also when the ring overflows, as long as the storage of both configurations can exist.
\<close>

theorem window_invisible:
  assumes "length ops \<le> 2 ^ 31" and "allocatable cfg" and "e \<le> 2 ^ 57" and "l < 2 ^ 59"
  shows "run_engine ops (cfg\<lparr>price_levels := l, price_base := pb, expected_orders := e\<rparr>) = run_engine ops cfg \<and>
    run_engine ops cfg \<noteq> None"
  using engine_matches_reference [OF assms(1,2)]
    engine_matches_reference [OF assms(1), of "cfg\<lparr>price_levels := l, price_base := pb, expected_orders := e\<rparr>"] assms(2-4)
  by (auto simp: allocatable_def)

theorem window_invisible_witness:
  "run_engine sample_ops (default_config\<lparr>price_levels := 0, price_base := Some 7, expected_orders := 3\<rparr>) =
     run_engine sample_ops default_config \<and> run_engine sample_ops default_config \<noteq> None"
proof -
  have "length sample_ops = 6" by (simp add: sample_ops_def)
  then show ?thesis
    using window_invisible [where l = 0 and pb = "Some 7" and e = 3 and ops = sample_ops and cfg = default_config]
    by (simp add: default_config_def allocatable_def)
qed

end
