(* ===== verification/Fill_Rules.thy ===== *)
theory Fill_Rules
  imports Price_Time
begin

section \<open>What a sweep does, stated for the client\<close>

text \<open>
  Consequences of the specification that a user of the book cares about: no quantity is created or
  lost, trades are numbered consecutively, no trade is worse than the limit or against the taker's own
  order, and makers are hit in price-time order. Each goes by induction on the sweep (\<open>sweep_induct\<close>).
\<close>

subsection \<open>Accounting\<close>

text \<open>The taker's quantity is what it traded plus what it has left; trades are numbered without gaps.\<close>

lemma sweep_taker_accounting:
  assumes "sweep pol lim os i rep seq = (os', i', rep', ts)"
  shows "unat (ord_qty i) = unat (ord_qty i') + (\<Sum>t\<leftarrow>ts. unat (tr_qty t)) \<and>
    filled rep' = filled rep + (ord_qty i - ord_qty i') \<and>
    trade_count rep' = trade_count rep + of_nat (length ts) \<and>
    map tr_seq ts = map (\<lambda>j. seq + of_nat j) [0..<length ts]"
  using assms
proof (induction rule: sweep_induct)
  case (consume m ms i rep seq os' i' rep' ts)
  have "unat (ord_qty i - fill_qty i m) = unat (ord_qty i) - unat (fill_qty i m)" "unat (fill_qty i m) \<le> unat (ord_qty i)"
    using fill_qty_le(1) [of i m] by (simp_all add: unat_sub word_le_nat_alt)
  moreover have "map (\<lambda>j. seq + of_nat j) [0..<Suc n] = seq # map (\<lambda>j. seq + 1 + of_nat j) [0..<n]" for n
    unfolding upt_conv_Cons [OF zero_less_Suc] map_Suc_upt [symmetric] by simp
  ultimately show ?case using consume by auto
next
  case (part m ms i rep seq)
  then show ?case by simp
qed auto

text \<open>What the resting side loses is what was traded and what self-trade prevention cancelled.\<close>

lemma sweep_book_accounting:
  assumes "sweep pol lim os i rep seq = (os', i', rep', ts)"
  shows "(\<Sum>r\<leftarrow>os. ucast (res_qty r)) =
    (\<Sum>r\<leftarrow>os'. ucast (res_qty r)) + (\<Sum>t\<leftarrow>ts. ucast (tr_qty t)) + (stp_cancelled rep' - stp_cancelled rep :: volume)"
  using assms
proof (induction rule: sweep_induct)
  case (part m ms i rep seq)
  have "(ucast (res_qty m - fill_qty i m) :: volume) = ucast (res_qty m) - ucast (fill_qty i m)"
    using ucast_diff [OF fill_qty_le(2)] .
  then show ?case by simp
qed (auto simp: algebra_simps)

subsection \<open>Every single trade\<close>

lemma sweep_trades:
  assumes "sweep pol lim os i rep seq = (os', i', rep', ts)" and "t \<in> set ts"
  shows "\<exists>m\<in>set os. tr_maker_id t = res_id m \<and> tr_price t = res_price m \<and> tr_qty t \<le> res_qty m \<and>
    (res_qty m \<noteq> 0 \<longrightarrow> tr_qty t \<noteq> 0) \<and> tr_taker_id t = ord_id i \<and> tr_taker_side t = ord_side i \<and>
    crosses (ord_side i) lim (tr_price t) \<and> \<not> own_order pol i m"
  using assms
proof (induction rule: sweep_induct)
  case (consume m ms i rep seq os' i' rep' ts)
  then show ?case using fill_qty_le [of i m] by (cases "t = fill_trade seq i m") auto
next
  case (part m ms i rep seq)
  then show ?case using fill_qty_le [of i m] by auto
qed auto

text \<open>
  Price-time priority: the makers hit are, in order, the first orders of the resting side, passing
  over the taker's own orders where self-trade prevention applies.
\<close>

lemma sweep_priority:
  assumes "sweep pol lim os i rep seq = (os', i', rep', ts)"
  shows "map tr_maker_id ts = map res_id (take (length ts) (filter (\<lambda>m. \<not> own_order pol i m) os))"
  using assms
proof (induction rule: sweep_induct)
  case (cancel m ms i rep seq os' i' rep' ts)
  then have "filter (\<lambda>m. \<not> own_order pol i m) (m # ms) = filter (\<lambda>m. \<not> own_order pol i m) ms"
    unfolding filter.simps by (intro if_not_P) blast
  then show ?case by (simp only: cancel.IH)
next
  case (consume m ms i rep seq os' i' rep' ts)
  then have "filter (\<lambda>m. \<not> own_order pol i m) (m # ms) = m # filter (\<lambda>m. \<not> own_order pol i m) ms" by simp
  then show ?case using consume by simp
qed auto

text \<open>What is left of the resting side: a suffix in the same order, its front order perhaps filled in part.\<close>

lemma sweep_rest:
  assumes "sweep pol lim os i rep seq = (os', i', rep', ts)"
  shows "\<exists>us vs. os = us @ vs \<and> (os' = vs \<or> (\<exists>m ms q. vs = m # ms \<and> q < res_qty m \<and> os' = m\<lparr>res_qty := q\<rparr> # ms))"
  using assms
proof (induction rule: sweep_induct)
  case (cancel m ms i rep seq os' i' rep' ts)
  then show ?case by (metis append_Cons)
next
  case (consume m ms i rep seq os' i' rep' ts)
  then show ?case by (metis append_Cons)
next
  case (part m ms i rep seq)
  have "res_qty m - fill_qty i m < res_qty m"
    using part(1,5) fill_qty_le(2) [of i m] unat_gt_0 [of "ord_qty i"]
    by (simp add: word_less_nat_alt word_le_nat_alt unat_sub)
  then show ?case by (intro exI [of _ "[]"] exI [of _ "m # ms"]) auto
qed (rule exI [of _ "[]"], simp)+

text \<open>Only \<open>CancelIncoming\<close> halts a taker, in front of one of its own orders and with quantity left.\<close>

lemma sweep_halted:
  assumes "sweep pol lim os i rep seq = (os', i', rep', ts)" and "stp_halted rep' \<noteq> stp_halted rep"
  shows "pol = CancelIncoming \<and> ord_qty i' \<noteq> 0 \<and> (\<exists>m ms. os' = m # ms \<and> own_order pol i m)"
  using assms by (induction rule: sweep_induct) auto

text \<open>The number of the first trade.\<close>

lemma sweep_first_seq:
  assumes "sweep pol lim os i rep seq = (os', i', rep', ts)" and "unat (trade_count rep) + length ts < 2 ^ 32"
  shows "first_seq rep' = (if trade_count rep = 0 \<and> ts \<noteq> [] then seq else first_seq rep)"
  using assms
proof (induction rule: sweep_induct)
  case (consume m ms i rep seq os' i' rep' ts)
  have "trade_count rep + 1 \<noteq> 0" "unat (trade_count rep + 1) = unat (trade_count rep) + 1"
    using consume.prems by (auto simp: unat_word_ariths unat_eq_0 [symmetric])
  then show ?case using consume by simp
qed auto

end
