(* ===== verification/Engine.thy ===== *)
theory Engine
  imports Differential Fill_Rules
begin

section \<open>The reachable books of the engine\<close>

text \<open>
  The engine as a state machine: a book is constructed from a configuration, driven by the public
  operations in any order, and its ring is popped by the caller at any time. \<open>reaches cfg n b\<close>: \<open>b\<close>
  is reached with \<open>n\<close> operations. The properties of the engine are stated for every reachable book,
  in terms of what the public interface shows (\<open>book_view\<close>).
\<close>

subsection \<open>State machine and view\<close>

inductive reaches :: "config \<Rightarrow> nat \<Rightarrow> book \<Rightarrow> bool" for cfg where
  constructed: "book_new cfg = Some b \<Longrightarrow> reaches cfg 0 b"
| operated: "reaches cfg n b \<Longrightarrow> engine_step x b = Some (rep, b') \<Longrightarrow> reaches cfg (Suc n) b'"
| popped: "reaches cfg n b \<Longrightarrow> reaches cfg n (b\<lparr>trade_out := snd (ring_pop (trade_out b))\<rparr>)"

inductive_cases reaches_zeroE: "reaches cfg 0 b"

text \<open>The resting orders of one side in the order in which \<^verbatim>\<open>for_each_resting\<close> reports them.\<close>

definition as_resting :: "order \<Rightarrow> resting_order" where
  "as_resting x = \<lparr>res_id = ord_id x, res_price = ord_price x, res_qty = ord_qty x, res_owner = ord_owner x\<rparr>"

definition resting_on :: "side \<Rightarrow> book \<Rightarrow> order list" where
  "resting_on sd b = filter (\<lambda>x. ord_side x = sd) (case for_each_resting b of None \<Rightarrow> [] | Some os \<Rightarrow> os)"

definition book_view :: "book \<Rightarrow> spec_book" where
  "book_view b = \<lparr>spec_orders = \<lambda>sd. map as_resting (resting_on sd b), spec_policy = policy b, spec_seq = next_seq b\<rparr>"

lemma api_order_simps [simp]:
  "ord_id (api_order sd r) = res_id r" "ord_owner (api_order sd r) = res_owner r"
  "ord_price (api_order sd r) = res_price r" "ord_qty (api_order sd r) = res_qty r" "ord_side (api_order sd r) = sd"
  by (simp_all add: api_order_def)

lemma as_resting_api [simp]: "as_resting (api_order sd r) = r"
  by (simp add: as_resting_def)

lemma resting_on_rel:
  assumes "book_rel b Q A"
  shows "resting_on sd b = map (api_order sd) (spec_orders A sd)"
  using for_each_resting_refines [OF assms] by (cases sd) (simp_all add: resting_on_def filter_map comp_def)

lemma resting_on_view: "resting_on sd b = map (api_order sd) (spec_orders (book_view b) sd)"
proof -
  have "api_order sd (as_resting x) = x" if "x \<in> set (resting_on sd b)" for x
  proof -
    have "ord_side x = sd" using that by (auto simp: resting_on_def)
    then show ?thesis by (cases x) (simp add: api_order_def as_resting_def)
  qed
  then show ?thesis by (simp add: book_view_def map_idI)
qed

lemma book_view_rel:
  assumes "book_rel b Q A"
  shows "book_view b = A"
  using book_relD(3,4) [OF assms] resting_on_rel [OF assms] by (simp add: book_view_def comp_def)

subsection \<open>Every reachable book satisfies the invariant\<close>

lemma book_rel_ring:
  assumes "book_rel b Q A" and "ring_inv r"
  shows "book_rel (b\<lparr>trade_out := r\<rparr>) Q A"
proof -
  have "ladder_of sd (b\<lparr>trade_out := r\<rparr>) = ladder_of sd b" for sd by (simp add: ladder_of_def)
  then show ?thesis using assms by (simp add: book_rel_def book_wf_def ladders_wf_def)
qed

lemma reaches_rel:
  assumes "reaches cfg n b" and "n \<le> 2 ^ 31"
  shows "\<exists>Q. book_rel b Q (book_view b) \<and> book_size b \<le> n"
  using assms
proof (induction rule: reaches.induct)
  case (constructed b)
  then obtain b' where b': "book_new cfg = Some b'" "book_rel b' no_orders (spec_new (self_trade cfg))"
    using book_new_refines book_new_allocatable by metis
  then show ?case
    using constructed book_view_rel [OF b'(2)] book_size_spec(1) [OF b'(2)] by (auto simp: spec_ids_def spec_new_def)
next
  case (operated n b x rep b')
  then obtain Q where rel: "book_rel b Q (book_view b)" "book_size b \<le> n" by auto
  obtain rep' ts A' where st: "spec_step x (book_view b) = (rep', ts, A')" by (cases "spec_step x (book_view b)") auto
  have "book_size b < 2 ^ 31" using rel(2) operated.prems by simp
  from engine_step_returns [OF rel(1) this st] obtain Q' where rel': "book_rel b' Q' A'" using operated by auto
  then show ?case
    using book_view_rel [OF rel'] spec_step_length [OF st] rel(2) book_size_spec(1) [OF rel(1)] book_size_spec(1) [OF rel'] by auto
next
  case (popped n b)
  then obtain Q where rel: "book_rel b Q (book_view b)" "book_size b \<le> n" by auto
  have "ring_inv (trade_out b)" using book_wfD(3) [OF book_relD(1) [OF rel(1)]] .
  then have "book_rel (b\<lparr>trade_out := snd (ring_pop (trade_out b))\<rparr>) Q (book_view b)"
    using book_rel_ring [OF rel(1)] ring.pop_inv by blast
  then show ?case using book_view_rel rel(2) by (auto simp: book_size_def)
qed

lemma reachE:
  assumes "reaches cfg n b" and "n < 2 ^ 31"
  obtains Q where "book_rel b Q (book_view b)" "book_size b < 2 ^ 31"
  using reaches_rel [OF assms(1)] assms(2) by force

subsection \<open>What a represented book shows\<close>

lemma view_qty_pos:
  assumes rel: "book_rel b Q A" and r: "r \<in> set (spec_orders A sd)"
  shows "res_qty r > 0"
proof -
  obtain p x where "x \<in> set (Q sd p)" "r = value_at (pool b) x" using spec_order_iff [OF rel] r by blast
  then show ?thesis using book_wfD(2) [OF book_relD(1) [OF rel]] unfolding qtys_pos_def all_slots_def by blast
qed

lemma view_uncrossed:
  assumes rel: "book_rel b Q A" and r: "r \<in> set (spec_orders A Buy)" and s: "s \<in> set (spec_orders A Sell)"
  shows "res_price r < res_price s"
proof -
  note w = book_wfD [OF book_relD(1) [OF rel]]
  obtain p x p' y where xy: "x \<in> set (Q Buy p)" "r = value_at (pool b) x" "y \<in> set (Q Sell p')" "s = value_at (pool b) y"
    using spec_order_iff [OF rel, of r Buy] spec_order_iff [OF rel, of s Sell] r s by blast
  then have "Q Buy p \<noteq> []" "Q Sell p' \<noteq> []" by auto
  then have "p < p'" using w(5) unfolding uncrossed_def by blast
  then show ?thesis using core_wfD(6) [OF w(1) xy(1)] core_wfD(6) [OF w(1) xy(3)] xy(2,4) by simp
qed

subsection \<open>Operations on a reachable book\<close>

lemma step_view:
  assumes r: "reaches cfg n b" and n: "n < 2 ^ 31" and st: "spec_step x (book_view b) = (rep, ts, A')"
  shows "\<exists>b'. engine_step x b = Some (rep, b') \<and> book_view b' = A' \<and> trade_out b' = push_all ts (trade_out b) \<and>
    reaches cfg (Suc n) b'"
proof -
  obtain Q where "book_rel b Q (book_view b)" "book_size b < 2 ^ 31" using reachE [OF r n] .
  from engine_step_returns [OF this st] obtain b' Q' where "engine_step x b = Some (rep, b')"
      "trade_out b' = push_all ts (trade_out b)" "book_rel b' Q' A'" by blast
  then show ?thesis using book_view_rel operated [OF r] by blast
qed

lemma submit_view:
  assumes r: "reaches cfg n b" and n: "n < 2 ^ 31" and lim: "rest \<longrightarrow> lim \<noteq> None"
    and sp: "spec_submit k owner sd lim qty rest (book_view b) = (rep, ts, A')"
  shows "\<exists>b'. submit k owner sd lim qty rest b = ret rep b' \<and> book_view b' = A' \<and> trade_out b' = push_all ts (trade_out b)"
proof -
  obtain Q where "book_rel b Q (book_view b)" "book_size b < 2 ^ 31" using reachE [OF r n] .
  from submit_refines [OF this _ sp] lim show ?thesis using book_view_rel by blast
qed

lemma sweep_flags:
  "sweep pol lim os i rep seq = (os', i', rep', ts) \<Longrightarrow> accepted rep' = accepted rep \<and> rested rep' = rested rep"
  by (induction rule: sweep_induct) (auto simp: record_fill_def Let_def split: if_splits)

lemma sweep_trade_count: "sweep pol lim os i rep seq = (os', i', rep', ts) \<Longrightarrow> length ts \<le> length os"
  by (induction rule: sweep_induct) auto

text \<open>The sweep behind an accepted order that was submitted to a reachable book.\<close>

lemma submit_sweep:
  assumes r: "reaches cfg n b" and n: "n < 2 ^ 31" and lim: "rest \<longrightarrow> lim \<noteq> None"
    and sub: "submit k owner sd lim qty rest b = ret rep b'" and acc: "accepted rep"
  obtains i i' os' rep0 ts where
    "i = \<lparr>ord_id = k, ord_owner = owner, ord_price = (case lim of None \<Rightarrow> 0 | Some p \<Rightarrow> p), ord_qty = qty, ord_side = sd\<rparr>"
    "sweep (policy b) lim (spec_orders (book_view b) (opposite sd)) i new_report (next_seq b) = (os', i', rep0, ts)"
    "trade_out b' = push_all ts (trade_out b)" "next_seq b' = next_seq b + of_nat (length ts)"
    "qty \<noteq> 0" "spec_find k (book_view b) = None" "remaining rep = ord_qty i'"
    "filled rep = filled rep0" "trade_count rep = trade_count rep0" "first_seq rep = first_seq rep0"
    "stp_cancelled rep = stp_cancelled rep0" "stp_halted rep = stp_halted rep0"
    "rested rep \<longleftrightarrow> rest \<and> ord_qty i' > 0 \<and> \<not> stp_halted rep0"
    "spec_orders (book_view b') (opposite sd) = os'"
    "spec_orders (book_view b') sd = (if rested rep
       then rank_insert (is_bid sd) \<lparr>res_id = k, res_price = ord_price i', res_qty = ord_qty i', res_owner = owner\<rparr>
         (spec_orders (book_view b) sd)
       else spec_orders (book_view b) sd)"
proof -
  obtain rep1 ts A' where sp: "spec_submit k owner sd lim qty rest (book_view b) = (rep1, ts, A')"
    by (cases "spec_submit k owner sd lim qty rest (book_view b)") auto
  obtain b1 where b1: "submit k owner sd lim qty rest b = ret rep1 b1" "book_view b1 = A'" "trade_out b1 = push_all ts (trade_out b)"
    using submit_view [OF r n lim sp] by blast
  then have e: "rep1 = rep" "b1 = b'" using sub by auto
  have "\<not> (qty = 0 \<or> spec_find k (book_view b) \<noteq> None)"
    using sp spec_submit_rejected [of qty k "book_view b"] acc e(1) by force
  then have ok: "qty \<noteq> 0" "spec_find k (book_view b) = None" by auto
  define i where "i = \<lparr>ord_id = k, ord_owner = owner, ord_price = (case lim of None \<Rightarrow> 0 | Some p \<Rightarrow> p), ord_qty = qty, ord_side = sd\<rparr>"
  obtain os' i' rep0 us where sw: "sweep (policy b) lim (spec_orders (book_view b) (opposite sd)) i new_report (next_seq b) = (os', i', rep0, us)"
    by (cases "sweep (policy b) lim (spec_orders (book_view b) (opposite sd)) i new_report (next_seq b)") auto
  have v: "spec_policy (book_view b) = policy b" "spec_seq (book_view b) = next_seq b" "spec_seq (book_view b') = next_seq b'"
    by (simp_all add: book_view_def)
  have fl: "\<not> rested rep0" using sweep_flags [OF sw] by (simp add: new_report_def)
  note spec = spec_submit_accepted [OF ok i_def sw [folded v(1,2)] refl refl, of rest, unfolded sp]
  have "A' = book_view b'" using b1(2) e(2) by simp
  then show thesis
    using that [OF i_def sw _ _ ok] spec b1(3) e fl v(2,3) by (auto split: if_splits)
qed

lemma submit_rel:
  assumes r: "reaches cfg n b" and n: "n < 2 ^ 31" and lim: "rest \<longrightarrow> lim \<noteq> None"
    and sub: "submit k owner sd lim qty rest b = ret rep b'"
  shows "\<exists>Q'. book_rel b' Q' (book_view b')"
proof -
  obtain Q where rel: "book_rel b Q (book_view b)" "book_size b < 2 ^ 31" using reachE [OF r n] .
  obtain rep1 ts A' where sp: "spec_submit k owner sd lim qty rest (book_view b) = (rep1, ts, A')"
    by (cases "spec_submit k owner sd lim qty rest (book_view b)") auto
  from submit_refines [OF rel _ sp] lim sub show ?thesis using book_view_rel by fastforce
qed

lemma rank_of_view:
  assumes "reaches cfg n b" and "n < 2 ^ 31"
  shows "\<exists>D. ranks (is_bid sd) D (spec_orders (book_view b) sd)"
  using reachE [OF assms] book_relD(2) unfolding side_rel_def by metis

text \<open>Only the cancellation of resting orders is counted in \<open>stp_cancelled\<close>.\<close>

lemma sweep_cancelled:
  assumes "sweep pol lim os i rep seq = (os', i', rep', ts)" and "stp_cancelled rep' \<noteq> stp_cancelled rep"
  shows "pol = CancelResting \<and> stp_possible pol (ord_owner i)"
  using assms
proof (induction rule: sweep_induct)
  case (cancel m ms i rep seq os' i' rep' ts)
  then show ?case by (cases pol) (auto simp: stp_possible_def)
qed auto

text \<open>Where a new order is inserted.\<close>

lemma rank_insert_split:
  assumes "ranks bid D os"
  obtains us vs where "os = us @ vs" "rank_insert bid r os = us @ r # vs"
    "\<forall>y\<in>set us. \<not> better bid (res_price r) (res_price y)" "\<forall>y\<in>set vs. better bid (res_price r) (res_price y)"
proof -
  let ?N = "\<lambda>x. \<not> better bid (res_price r) (res_price x)"
  have "?N a" if "\<not> better bid (res_price b) (res_price a)" "?N b" for a b
    using that better_trans [of bid "res_price r" "res_price a" "res_price b"]
      better_total [of "res_price a" "res_price b" bid] by metis
  then have "dropWhile ?N os = filter (\<lambda>x. \<not> ?N x) os"
    using sorted_takeWhile_filter [OF ranksD(1) [OF assms], of ?N] by blast
  then have w: "\<forall>y\<in>set (dropWhile ?N os). better bid (res_price r) (res_price y)" by auto
  show thesis
  proof (rule that [of "takeWhile ?N os" "dropWhile ?N os"])
    show "os = takeWhile ?N os @ dropWhile ?N os" by (simp only: takeWhile_dropWhile_id)
    show "rank_insert bid r os = takeWhile ?N os @ r # dropWhile ?N os" by (simp only: rank_insert_def)
    show "\<forall>y\<in>set (takeWhile ?N os). ?N y" using set_takeWhileD by metis
  qed (rule w)
qed

lemma find_skip: "k \<notin> f ` set us \<Longrightarrow> find (\<lambda>x. f x = k) (us @ vs) = find (\<lambda>x. f x = k) vs"
  by (induction us) auto

lemma find_append_Some: "find P us = Some x \<Longrightarrow> find P (us @ vs) = Some x"
  by (induction us) (auto split: if_splits)

end
