(* ===== verification/Flow_Random.thy ===== *)
theory Flow_Random
  imports Engine
begin

section \<open>Random draws, live ids and hashes of the benchmark flow\<close>

text \<open>
  The helpers of \<^verbatim>\<open>bench/flow.cpp\<close>: the class \<^verbatim>\<open>Rng\<close> (xorshift64*) with its 64-bit state passed explicitly,
  the class \<^verbatim>\<open>LivePool\<close> as its vector of ids, and the FNV-1a hashes. A loop that draws until it fails or hits its cap
  is a total function; the cap is what bounds it.
\<close>

unbundle bit_operations_syntax

subsection \<open>Configuration and operations of a flow\<close>

datatype flow_kind = Add | CancelOp | ModifyOp | Marketable

record flow_op =
  fo_id :: order_id
  fo_price :: price
  fo_qty :: quantity
  fo_owner :: participant_id
  fo_kind :: flow_kind
  fo_side :: side
  fo_market :: bool

record flow_config =
  fc_seed :: "64 word"
  fc_ops :: nat
  fc_warmup_ops :: nat
  add_percent :: "32 word"
  cancel_percent :: "32 word"
  modify_percent :: "32 word"
  marketable_percent :: "32 word"
  target_depth :: nat
  start_mid :: price
  mid_step_per_mille :: "32 word"
  near_touch_percent :: "32 word"
  near_decay_percent :: "32 word"
  tail_ticks :: price
  recent_percent :: "32 word"
  recent_decay_percent :: "32 word"
  fc_lot :: quantity
  size_decay_percent :: "32 word"
  fc_owners :: participant_id
  fc_self_trade :: self_trade_policy

definition default_flow :: flow_config where
  "default_flow = \<lparr>fc_seed = 1, fc_ops = 2000000, fc_warmup_ops = 300000, add_percent = 50, cancel_percent = 40,
     modify_percent = 5, marketable_percent = 5, target_depth = 5000, start_mid = 100000, mid_step_per_mille = 10,
     near_touch_percent = 80, near_decay_percent = 50, tail_ticks = 100, recent_percent = 80, recent_decay_percent = 90,
     fc_lot = 100, size_decay_percent = 50, fc_owners = 50, fc_self_trade = CancelResting\<rparr>"

subsection \<open>The generator of random numbers\<close>

definition rng_new :: "64 word \<Rightarrow> 64 word" where
  "rng_new seed = (if seed \<noteq> 0 then seed else 0x9E3779B97F4A7C15)"

definition rng_next :: "64 word \<Rightarrow> 64 word \<times> 64 word" where
  "rng_next s =
     (let s1 = s XOR drop_bit 12 s;
          s2 = s1 XOR push_bit 25 s1;
          s3 = s2 XOR drop_bit 27 s2
      in (s3 * 0x2545F4914F6CDD1D, s3))"

definition below :: "64 word \<Rightarrow> 64 word \<Rightarrow> 64 word \<times> 64 word" where
  "below n s = (if n = 0 then (0, s) else case rng_next s of (r, s') \<Rightarrow> (r mod n, s'))"

definition chance :: "32 word \<Rightarrow> 64 word \<Rightarrow> bool \<times> 64 word" where
  "chance percent s = (case below 100 s of (r, s') \<Rightarrow> (r < ucast percent, s'))"

definition chance_per_mille :: "32 word \<Rightarrow> 64 word \<Rightarrow> bool \<times> 64 word" where
  "chance_per_mille per_mille s = (case below 1000 s of (r, s') \<Rightarrow> (r < ucast per_mille, s'))"

lemma unat_plus_one_less: "n < cap \<Longrightarrow> unat (n + 1) = Suc (unat n)" for n cap :: "32 word"
  using unat_lt32 [of cap] by (simp add: word_less_nat_alt unat_word_ariths)

function geometric_loop :: "32 word \<Rightarrow> 32 word \<Rightarrow> 32 word \<Rightarrow> 64 word \<Rightarrow> 32 word \<times> 64 word" where
  "geometric_loop percent cap n s =
     (if n < cap
      then (case chance percent s of (ok, s') \<Rightarrow> if ok then geometric_loop percent cap (n + 1) s' else (n, s'))
      else (n, s))"
  by pat_completeness auto
termination
  by (relation "measure (\<lambda>(percent, cap, n, s). unat cap - unat n)") (auto simp: unat_plus_one_less word_less_nat_alt)

declare geometric_loop.simps [simp del]

definition geometric :: "32 word \<Rightarrow> 32 word \<Rightarrow> 64 word \<Rightarrow> 32 word \<times> 64 word" where
  "geometric percent cap s = geometric_loop percent cap 0 s"

lemma geometric_loop_le: "n \<le> cap \<Longrightarrow> fst (geometric_loop percent cap n s) \<le> cap"
proof (induction percent cap n s rule: geometric_loop.induct)
  case (1 percent cap n s)
  obtain ok s' where c: "chance percent s = (ok, s')" by (cases "chance percent s")
  have "n < cap \<Longrightarrow> n + 1 \<le> cap" by (simp add: word_le_nat_alt word_less_nat_alt unat_plus_one_less)
  then show ?case using 1 c by (auto simp: geometric_loop.simps [of percent cap n s])
qed

lemma geometric_le: "fst (geometric percent cap s) \<le> cap"
  by (simp add: geometric_def geometric_loop_le)

lemma below_less: "n \<noteq> 0 \<Longrightarrow> fst (below n s) < n"
  by (auto simp: below_def word_mod_less_divisor word_gt_0 split: prod.splits)

subsection \<open>Live ids\<close>

text \<open>The position \<^verbatim>\<open>LivePool::take\<close> draws.\<close>

definition draw_index :: "flow_config \<Rightarrow> nat \<Rightarrow> 64 word \<Rightarrow> nat \<times> 64 word" where
  "draw_index cfg count_ids s =
     (case chance (recent_percent cfg) s of
        (recent, s1) \<Rightarrow>
          if recent
          then (case geometric (recent_decay_percent cfg) (of_nat (min (count_ids - 1) 4294967295)) s1 of
              (k, s2) \<Rightarrow> (count_ids - 1 - unat k, s2))
          else (case below (of_nat count_ids) s1 of (r, s2) \<Rightarrow> (unat r, s2)))"

lemma draw_index_less:
  assumes "0 < count_ids"
  shows "fst (draw_index cfg count_ids s) < count_ids"
proof -
  have "unat (fst (below (of_nat count_ids) s1)) < count_ids" for s1
  proof (cases "(of_nat count_ids :: 64 word) = 0")
    case True
    then show ?thesis using assms by (simp add: below_def)
  next
    case False
    then have "unat (fst (below (of_nat count_ids) s1)) < unat (of_nat count_ids :: 64 word)"
      using below_less [OF False] by (simp add: word_less_nat_alt)
    moreover have "unat (of_nat count_ids :: 64 word) \<le> count_ids" by (simp add: unat_of_nat)
    ultimately show ?thesis by linarith
  qed
  then show ?thesis using assms by (auto simp: draw_index_def split: prod.splits) (metis fst_conv)
qed

function live_take :: "flow_config \<Rightarrow> book \<Rightarrow> order_id list \<Rightarrow> 64 word \<Rightarrow> (order_id option \<times> order_id list \<times> 64 word) option" where
  "live_take cfg b ids s =
     (if ids = [] then Some (None, [], s)
      else (case draw_index cfg (length ids) s of
          (idx, s') \<Rightarrow>
            (case find_order (ids ! idx) b of
               None \<Rightarrow> None
             | Some (Some _) \<Rightarrow> Some (Some (ids ! idx), erase_at idx ids, s')
             | Some None \<Rightarrow> live_take cfg b (erase_at idx ids) s')))"
  by pat_completeness auto
termination
proof (relation "measure (\<lambda>(cfg, b, ids, s). length ids)", goal_cases)
  case (2 cfg b ids s idx s' r)
  then have "idx < length ids" using draw_index_less [of "length ids" cfg s] by (metis fst_conv length_greater_0_conv)
  then show ?case using erase_at_length by auto
qed auto

declare live_take.simps [simp del]

fun live_sweep :: "book \<Rightarrow> order_id list \<Rightarrow> order_id list option" where
  "live_sweep b [] = Some []"
| "live_sweep b (k # ks) =
     Option.bind (find_order k b) (\<lambda>f. map_option (\<lambda>ks'. if f = None then ks' else k # ks') (live_sweep b ks))"

subsection \<open>Hashes\<close>

definition kHashSeed :: "64 word" where
  "kHashSeed = 0xcbf29ce484222325"

definition hash_fold :: "64 word \<Rightarrow> 64 word \<Rightarrow> 64 word" where
  "hash_fold h v = foldl (\<lambda>h i. (h XOR (drop_bit (8 * i) v AND 0xFF)) * 0x100000001b3) h [0..<8]"

definition kind_code :: "flow_kind \<Rightarrow> 64 word" where
  "kind_code k = (case k of Add \<Rightarrow> 0 | CancelOp \<Rightarrow> 1 | ModifyOp \<Rightarrow> 2 | Marketable \<Rightarrow> 3)"

definition hash_op :: "64 word \<Rightarrow> flow_op \<Rightarrow> 64 word" where
  "hash_op h x =
     (let h = hash_fold h (fo_id x);
          h = hash_fold h (fo_price x);
          h = hash_fold h (ucast (fo_qty x));
          h = hash_fold h (ucast (fo_owner x));
          h = hash_fold h (kind_code (fo_kind x));
          h = hash_fold h (side_code (fo_side x))
      in hash_fold h (if fo_market x then 1 else 0))"

definition hash_trade :: "64 word \<Rightarrow> trade \<Rightarrow> 64 word" where
  "hash_trade h t =
     (let h = hash_fold h (tr_seq t);
          h = hash_fold h (tr_maker_id t);
          h = hash_fold h (tr_taker_id t);
          h = hash_fold h (tr_price t);
          h = hash_fold h (ucast (tr_qty t))
      in hash_fold h (side_code (tr_taker_side t)))"

subsection \<open>The random state never gets stuck\<close>

text \<open>A xor-shift step is linear with a trivial kernel, hence injective.\<close>

lemma xor_eq_zero: "x XOR y = 0 \<longleftrightarrow> x = y" for x y :: "64 word"
proof
  assume e: "x XOR y = 0"
  have "bit x n = bit y n" for n using arg_cong [OF e, of "\<lambda>w. bit w n"] by (auto simp: bit_xor_iff)
  then show "x = y" by (simp add: bit_eq_iff)
qed simp

lemma drop_fixed: "x = drop_bit k x \<Longrightarrow> 0 < k \<Longrightarrow> x = 0" for x :: "64 word"
proof (rule bit_word_eqI)
  fix n
  assume e: "x = drop_bit k x" and k: "0 < k" and n: "n < LENGTH(64)"
  have "\<not> bit x n"
  proof (induction "64 - n" arbitrary: n rule: less_induct)
    case less
    have "bit x n \<longleftrightarrow> bit x (k + n)" using arg_cong [OF e, of "\<lambda>w. bit w n"] by (simp add: bit_drop_bit_eq)
    then show ?case
      using less [of "k + n"] k bit_imp_le_length [of x "k + n"] by (cases "k + n < 64") (auto simp: not_less)
  qed
  then show "bit x n = bit 0 n" by simp
qed

lemma push_fixed: "x = push_bit k x \<Longrightarrow> 0 < k \<Longrightarrow> x = 0" for x :: "64 word"
proof (rule bit_word_eqI)
  fix n
  assume e: "x = push_bit k x" and k: "0 < k" and n: "n < LENGTH(64)"
  show "bit x n = bit 0 n"
    using n
  proof (induction n rule: less_induct)
    case (less n)
    have "bit x n \<longleftrightarrow> k \<le> n \<and> bit x (n - k)"
      using arg_cong [OF e, of "\<lambda>w. bit w n"] less.prems by (simp add: bit_push_bit_iff)
    then show ?case using less.IH [of "n - k"] less.prems k by auto
  qed
qed

lemma xorshift_inj:
  fixes x y :: "64 word"
  shows "0 < k \<Longrightarrow> x XOR drop_bit k x = y XOR drop_bit k y \<Longrightarrow> x = y"
    "0 < k \<Longrightarrow> x XOR push_bit k x = y XOR push_bit k y \<Longrightarrow> x = y"
proof -
  have diff: "x XOR y = u XOR v" if e: "x XOR u = y XOR v" for u v
  proof (rule bit_word_eqI)
    show "bit (x XOR y) n = bit (u XOR v) n" for n
      using arg_cong [OF e, of "\<lambda>w. bit w n"] by (auto simp: bit_xor_iff)
  qed
  show "x = y" if k: "0 < k" and e: "x XOR drop_bit k x = y XOR drop_bit k y"
  proof -
    have "x XOR y = drop_bit k (x XOR y)" unfolding drop_bit_xor by (rule diff [OF e])
    then show ?thesis using drop_fixed k xor_eq_zero by blast
  qed
  show "x = y" if k: "0 < k" and e: "x XOR push_bit k x = y XOR push_bit k y"
  proof -
    have "x XOR y = push_bit k (x XOR y)" unfolding push_bit_xor by (rule diff [OF e])
    then show ?thesis using push_fixed k xor_eq_zero by blast
  qed
qed

text \<open>
  The random state is a permutation of the 64-bit words that fixes 0 and is seeded away from it: no seed ever leads into the
  all-zero state, in which xorshift would return 0 forever, and two different states never merge, so every flow is periodic in its
  full state. Draws stay in their range.
\<close>

lemma rng_permutes:
  "bij (\<lambda>s. snd (rng_next s)) \<and> snd (rng_next 0) = 0 \<and> rng_new seed \<noteq> 0 \<and>
   (\<forall>s. s \<noteq> 0 \<longrightarrow> snd (rng_next s) \<noteq> 0) \<and> (\<forall>n s. n \<noteq> 0 \<longrightarrow> fst (below n s) < n) \<and>
   (\<forall>percent cap s. fst (geometric percent cap s) \<le> cap)"
proof -
  have inj: "inj (\<lambda>s. snd (rng_next s))"
  proof (rule injI)
    fix a b
    assume "snd (rng_next a) = snd (rng_next b)"
    note e3 = this [unfolded rng_next_def Let_def snd_conv]
    have e2: "(a XOR drop_bit 12 a) XOR push_bit 25 (a XOR drop_bit 12 a) = (b XOR drop_bit 12 b) XOR push_bit 25 (b XOR drop_bit 12 b)"
      by (rule xorshift_inj(1) [OF _ e3]) simp
    have e1: "a XOR drop_bit 12 a = b XOR drop_bit 12 b" by (rule xorshift_inj(2) [OF _ e2]) simp
    show "a = b" by (rule xorshift_inj(1) [OF _ e1]) simp
  qed
  then have "bij (\<lambda>s. snd (rng_next s))" using finite_UNIV_inj_surj [OF finite inj] inj by (simp add: bij_def)
  moreover have "snd (rng_next 0) = 0" by (simp add: rng_next_def)
  moreover have "snd (rng_next s) \<noteq> 0" if "s \<noteq> 0" for s using injD [OF inj, of s 0] that by (auto simp: rng_next_def)
  ultimately show ?thesis using below_less geometric_le by (auto simp: rng_new_def)
qed

subsection \<open>Draws of live ids\<close>

lemma erase_at_set: "i < length xs \<Longrightarrow> set xs = insert (xs ! i) (set (erase_at i xs))"
proof -
  assume i: "i < length xs"
  have "set xs = set (take i xs @ xs ! i # drop (Suc i) xs)" by (simp only: id_take_nth_drop [OF i, symmetric])
  then show ?thesis by (auto simp: erase_at_def)
qed

lemma live_take_spec:
  assumes "\<And>k. find_order k b \<noteq> None"
  shows "\<exists>r ids' s'. live_take cfg b ids s = Some (r, ids', s') \<and> set ids' \<subseteq> set ids \<and>
    (\<forall>j\<in>set ids. find_order j b \<noteq> Some None \<longrightarrow> j \<in> set ids' \<or> r = Some j) \<and>
    (case r of None \<Rightarrow> ids' = [] | Some k \<Rightarrow> k \<in> set ids \<and> find_order k b \<noteq> Some None)"
  using assms
proof (induction cfg b ids s rule: live_take.induct)
  case (1 cfg b ids s)
  show ?case
  proof (cases "ids = []")
    case True
    then show ?thesis by (simp add: live_take.simps)
  next
    case False
    obtain i s' where d: "draw_index cfg (length ids) s = (i, s')" by (cases "draw_index cfg (length ids) s")
    then have i: "i < length ids" using draw_index_less [of "length ids" cfg s] False by simp
    note es = erase_at_set [OF i]
    show ?thesis
    proof (cases "find_order (ids ! i) b")
      case (Some f)
      show ?thesis
      proof (cases f)
        case None
        obtain r ids' t where "live_take cfg b (erase_at i ids) s' = Some (r, ids', t)" "set ids' \<subseteq> set (erase_at i ids)"
            "\<forall>j\<in>set (erase_at i ids). find_order j b \<noteq> Some None \<longrightarrow> j \<in> set ids' \<or> r = Some j"
            "case r of None \<Rightarrow> ids' = [] | Some k \<Rightarrow> k \<in> set (erase_at i ids) \<and> find_order k b \<noteq> Some None"
          using "1.IH" [OF False d [symmetric] Some None "1.prems"] by blast
        then show ?thesis using False d Some None es by (auto simp: live_take.simps [of cfg b ids s] split: option.splits)
      qed (use False d Some es i in \<open>auto simp: live_take.simps [of cfg b ids s]\<close>)
    qed (use "1.prems" in blast)
  qed
qed

end
