(* ===== verification/Engine_Properties.thy ===== *)
theory Engine_Properties
  imports Engine
begin

section \<open>What the engine guarantees to its clients\<close>

text \<open>
  The properties of the public operations, for every book reachable with fewer than \<open>2 ^ 31\<close>
  operations (a book can then never reach the limit at which \<^verbatim>\<open>insert\<close> throws). They rest on the
  refinement of the price-time specification (\<^verbatim>\<open>Book_Refinement\<close>) and on the rules of a sweep
  (\<^verbatim>\<open>Fill_Rules\<close>).
\<close>

subsection \<open>A sample book for the witnesses\<close>

text \<open>Three resting orders: a bid, and two asks of which the second has the better price.\<close>

definition sample_makers :: "op list" where
  "sample_makers =
     [\<lparr>op_what = AddLimit, op_id = 1, op_owner = 1, op_side = Sell, op_price = 101, op_qty = 5\<rparr>,
      \<lparr>op_what = AddLimit, op_id = 2, op_owner = 2, op_side = Sell, op_price = 100, op_qty = 3\<rparr>,
      \<lparr>op_what = AddLimit, op_id = 3, op_owner = 2, op_side = Buy, op_price = 99, op_qty = 8\<rparr>]"

definition sample_view :: "self_trade_policy \<Rightarrow> spec_book" where
  "sample_view pol = snd (snd (spec_run sample_makers (spec_new pol)))"

lemma reach_run:
  assumes "reaches cfg n b" and "n + length xs < 2 ^ 31" and "spec_run xs (book_view b) = (reps, ts, A)"
  shows "\<exists>b'. reaches cfg (n + length xs) b' \<and> book_view b' = A"
  using assms
proof (induction xs arbitrary: n b reps ts)
  case (Cons x xs)
  obtain rep us A1 where st: "spec_step x (book_view b) = (rep, us, A1)" by (cases "spec_step x (book_view b)") auto
  obtain reps1 vs where rn: "spec_run xs A1 = (reps1, vs, A)" using Cons.prems(3) st by (auto split: prod.splits)
  obtain b1 where b1: "book_view b1 = A1" "reaches cfg (Suc n) b1" using step_view [OF Cons.prems(1) _ st] Cons.prems(2) by auto
  show ?case using Cons.IH [OF b1(2)] Cons.prems(2) rn b1(1) by auto
qed auto

lemma sample_reach: "\<exists>b. reaches (default_config\<lparr>self_trade := pol\<rparr>) 3 b \<and> book_view b = sample_view pol"
proof -
  let ?cfg = "default_config\<lparr>self_trade := pol\<rparr>"
  obtain b where b: "book_new ?cfg = Some b" "book_rel b no_orders (spec_new (self_trade ?cfg))"
    using book_new_refines [of ?cfg] by (auto simp: default_config_def allocatable_def)
  have v: "book_view b = spec_new pol" using book_view_rel [OF b(2)] by simp
  obtain reps ts A where run: "spec_run sample_makers (spec_new pol) = (reps, ts, A)"
    by (cases "spec_run sample_makers (spec_new pol)") auto
  have l: "length sample_makers = 3" by (simp add: sample_makers_def)
  then show ?thesis
    using reach_run [OF constructed [OF b(1)], of sample_makers] run v by (auto simp: sample_view_def)
qed

lemmas sample_eval = spec_step_def spec_submit_def spec_find_def crosses_def stp_possible_def kAnonymous_def
  rank_insert_def better_def is_bid_def new_report_def api_order_def record_fill_def Let_def

lemma sample_view_simps [simp]:
  "spec_orders (sample_view pol) Buy = [\<lparr>res_id = 3, res_price = 99, res_qty = 8, res_owner = 2\<rparr>]"
  "spec_orders (sample_view pol) Sell =
     [\<lparr>res_id = 2, res_price = 100, res_qty = 3, res_owner = 2\<rparr>, \<lparr>res_id = 1, res_price = 101, res_qty = 5, res_owner = 1\<rparr>]"
  "spec_policy (sample_view pol) = pol" "spec_seq (sample_view pol) = 1"
  by (simp_all add: sample_view_def sample_makers_def spec_new_def sample_eval)

lemma sample_default: "\<exists>b. reaches default_config 3 b \<and> book_view b = sample_view CancelResting"
proof -
  have "default_config\<lparr>self_trade := CancelResting\<rparr> = default_config" by (simp add: default_config_def)
  then show ?thesis using sample_reach [of CancelResting] by simp
qed

text \<open>A limit order on the sample book that trades 3 and rests the last 1 of its quantity.\<close>

definition sample_report :: exec_report where
  "sample_report = \<lparr>first_seq = 1, trade_count = 1, filled = 3, remaining = 1, stp_cancelled = 0, rested = True,
     accepted = True, stp_halted = False\<rparr>"

lemma sample_submit:
  "\<exists>b b'. reaches default_config 3 b \<and> book_view b = sample_view CancelResting \<and>
     submit 4 5 Buy (Some 100) 4 True b = ret sample_report b'"
proof -
  obtain b where b: "reaches default_config 3 b" "book_view b = sample_view CancelResting" using sample_default by blast
  have "fst (spec_submit 4 5 Buy (Some 100) 4 True (sample_view CancelResting)) = sample_report"
    by (simp add: sample_eval sample_report_def)
  then obtain ts A' where sp: "spec_submit 4 5 Buy (Some 100) 4 True (book_view b) = (sample_report, ts, A')"
    unfolding b(2) by (cases "spec_submit 4 5 Buy (Some 100) 4 True (sample_view CancelResting)") auto
  then show ?thesis using submit_view [OF b(1) _ _ sp] b by (simp, blast)
qed

subsection \<open>Refinement and invariant\<close>

text \<open>
  (C1) The engine implements price-time priority. Every operation (limit order, market order, cancel,
  modify) on every reachable book returns normally with exactly the report that the specification
  gives, turns the visible book into the specification's next book, and prints exactly the
  specification's trades, in order, to the ring.
\<close>

theorem engine_refines_price_time:
  assumes "reaches cfg n b" and "n < 2 ^ 31"
  shows "\<exists>b'. engine_step x b = Some (fst (spec_step x (book_view b)), b') \<and>
    book_view b' = snd (snd (spec_step x (book_view b))) \<and>
    trade_out b' = fold (\<lambda>t r. snd (ring_push t r)) (fst (snd (spec_step x (book_view b)))) (trade_out b)"
  using step_view [OF assms, of x] by (cases "spec_step x (book_view b)") auto

theorem engine_refines_price_time_witness:
  "\<exists>b b' rep. reaches default_config 3 b \<and>
     engine_step \<lparr>op_what = AddMarket, op_id = 4, op_owner = 5, op_side = Buy, op_price = 0, op_qty = 4\<rparr> b = Some (rep, b') \<and>
     filled rep = 4 \<and> remaining rep = 0 \<and> trade_count rep = 2 \<and>
     spec_orders (book_view b') Sell = [\<lparr>res_id = 1, res_price = 101, res_qty = 4, res_owner = 1\<rparr>]"
proof -
  obtain b where b: "reaches default_config 3 b" "book_view b = sample_view CancelResting" using sample_default by blast
  let ?x = "\<lparr>op_what = AddMarket, op_id = 4, op_owner = 5, op_side = Buy, op_price = 0, op_qty = 4\<rparr>"
  have "fst (spec_step ?x (sample_view CancelResting)) =
      \<lparr>first_seq = 1, trade_count = 2, filled = 4, remaining = 0, stp_cancelled = 0, rested = False, accepted = True, stp_halted = False\<rparr>"
    "spec_orders (snd (snd (spec_step ?x (sample_view CancelResting)))) Sell = [\<lparr>res_id = 1, res_price = 101, res_qty = 4, res_owner = 1\<rparr>]"
    by (simp_all add: sample_eval)
  then show ?thesis using engine_refines_price_time [OF b(1), of ?x] b by auto
qed

text \<open>
  (C3) Every reachable book passes all assertions of \<^verbatim>\<open>check_invariants()\<close> (index, pool, queues, level totals and
  ladders agree), and what it shows is a proper book: ids are unique, no quantity is zero, each side is in
  price priority, and the book is never crossed or locked.
\<close>

theorem reachable_invariant:
  assumes "reaches cfg n b" and "n \<le> 2 ^ 31"
  shows "check_invariants b = Some True \<and> book_size b \<le> n \<and>
    distinct (map ord_id (resting_on Buy b @ resting_on Sell b)) \<and>
    (\<forall>x\<in>set (resting_on Buy b @ resting_on Sell b). ord_qty x > 0) \<and>
    sorted_wrt (\<lambda>x y. ord_price x \<ge> ord_price y) (resting_on Buy b) \<and>
    sorted_wrt (\<lambda>x y. ord_price x \<le> ord_price y) (resting_on Sell b) \<and>
    (\<forall>x\<in>set (resting_on Buy b). \<forall>y\<in>set (resting_on Sell b). ord_price x < ord_price y)"
proof -
  obtain Q where rel: "book_rel b Q (book_view b)" and sz: "book_size b \<le> n" using reaches_rel [OF assms] by blast
  let ?os = "spec_orders (book_view b)"
  have pos: "res_qty r > 0" if "r \<in> set (?os sd)" for r sd using view_qty_pos [OF rel that] .
  have unc: "res_price r < res_price s" if "r \<in> set (?os Buy)" "s \<in> set (?os Sell)" for r s
    using view_uncrossed [OF rel that] .
  have "sorted_wrt (\<lambda>x y. \<not> better (is_bid sd) (res_price y) (res_price x)) (?os sd)" for sd
    using ranksD(1) [OF book_relD(2) [OF rel, unfolded side_rel_def]] .
  from this [of Buy] this [of Sell]
  have "sorted_wrt (\<lambda>x y. res_price x \<ge> res_price y) (?os Buy)" "sorted_wrt (\<lambda>x y. res_price x \<le> res_price y) (?os Sell)"
    by (simp_all add: better_def not_less)
  moreover have "distinct (map res_id (?os Buy @ ?os Sell))" using spec_ids_distinct(1) [OF rel] by (simp add: spec_ids_def)
  ultimately show ?thesis
    using check_invariants_holds [OF rel] sz pos unc by (auto simp: resting_on_rel [OF rel] sorted_wrt_map comp_def)
qed

theorem reachable_invariant_witness:
  "\<exists>b. reaches default_config 3 b \<and> book_view b = sample_view CancelResting \<and> check_invariants b = Some True"
proof -
  obtain b where "reaches default_config 3 b" "book_view b = sample_view CancelResting" using sample_default by blast
  then show ?thesis using reachable_invariant [of default_config 3 b] by auto
qed

subsection \<open>Accounting\<close>

text \<open>
  (C5) No quantity is created or lost by an order: for an accepted order, \<open>filled\<close> plus \<open>remaining\<close> is
  the submitted quantity, \<open>filled\<close> is the sum of the trades it printed, \<open>trade_count\<close> their number, and
  \<open>[first_seq, first_seq + trade_count)\<close> are exactly their sequence numbers, without gaps.
\<close>

theorem fills_conserved:
  assumes r: "reaches cfg n b" and n: "n < 2 ^ 31" and lim: "rest \<longrightarrow> lim \<noteq> None"
    and sub: "submit k owner sd lim qty rest b = ret rep b'" and acc: "accepted rep"
  shows "unat (filled rep) + unat (remaining rep) = unat qty \<and>
    (\<exists>ts. trade_out b' = fold (\<lambda>t r. snd (ring_push t r)) ts (trade_out b) \<and>
       unat (filled rep) = (\<Sum>t\<leftarrow>ts. unat (tr_qty t)) \<and> unat (trade_count rep) = length ts \<and>
       first_seq rep = (if ts = [] then 0 else next_seq b) \<and>
       map tr_seq ts = map (\<lambda>j. next_seq b + of_nat j) [0..<length ts] \<and> next_seq b' = next_seq b + of_nat (length ts))"
proof -
  obtain i i' os' rep0 ts where
    i: "i = \<lparr>ord_id = k, ord_owner = owner, ord_price = (case lim of None \<Rightarrow> 0 | Some p \<Rightarrow> p), ord_qty = qty, ord_side = sd\<rparr>"
    and sw: "sweep (policy b) lim (spec_orders (book_view b) (opposite sd)) i new_report (next_seq b) = (os', i', rep0, ts)"
    and out: "trade_out b' = push_all ts (trade_out b)" "next_seq b' = next_seq b + of_nat (length ts)"
    and rp: "remaining rep = ord_qty i'" "filled rep = filled rep0" "trade_count rep = trade_count rep0" "first_seq rep = first_seq rep0"
    using submit_sweep [OF assms] by metis
  note ac = sweep_taker_accounting [OF sw]
  have q: "unat qty = unat (ord_qty i') + (\<Sum>t\<leftarrow>ts. unat (tr_qty t))" and f: "filled rep = qty - ord_qty i'"
    using ac rp i by (simp_all add: new_report_def)
  have "ord_qty i' \<le> qty" using q by (simp add: word_le_nat_alt)
  then have fl: "unat (filled rep) = unat qty - unat (ord_qty i')" using f by (simp add: unat_sub)
  obtain Q where rel: "book_rel b Q (book_view b)" and sz: "book_size b < 2 ^ 31" using reachE [OF r n] .
  have len: "length ts < 2 ^ 31"
    using sweep_trade_count [OF sw] book_size_spec(1) [OF rel] sz spec_ids_length [of "book_view b" sd] by simp
  then have "unat (trade_count rep) = length ts" using ac rp by (simp add: new_report_def unat_of_nat)
  moreover have "first_seq rep = (if ts = [] then 0 else next_seq b)"
    using sweep_first_seq [OF sw] len rp by (simp add: new_report_def)
  ultimately show ?thesis using q fl out rp(1) ac by (intro conjI exI [of _ ts]) simp_all
qed

theorem fills_conserved_witness:
  "\<exists>b b' ts. reaches default_config 3 b \<and> submit 4 5 Buy (Some 100) 4 True b = ret sample_report b' \<and>
     unat (filled sample_report) + unat (remaining sample_report) = 4 \<and> length ts = 1 \<and>
     trade_out b' = fold (\<lambda>t r. snd (ring_push t r)) ts (trade_out b)"
proof -
  obtain b b' where b: "reaches default_config 3 b" "submit 4 5 Buy (Some 100) 4 True b = ret sample_report b'"
    using sample_submit by blast
  have t: "unat (trade_count sample_report) = 1" "accepted sample_report" "(3::nat) < 2 ^ 31" by (simp_all add: sample_report_def)
  obtain ts where "length ts = 1" "trade_out b' = push_all ts (trade_out b)" "unat (filled sample_report) + unat (remaining sample_report) = 4"
    using fills_conserved [OF b(1) t(3) _ b(2) t(2)] t(1) by auto
  then show ?thesis using b by blast
qed

text \<open>
  (C12) No quantity is lost on the resting side either: what the opposite side of the book loses is exactly
  what the order filled plus what self-trade prevention reports as cancelled (in the 64-bit volumes of
  the code).
\<close>

theorem resting_volume_conserved:
  assumes r: "reaches cfg n b" and n: "n < 2 ^ 31" and lim: "rest \<longrightarrow> lim \<noteq> None"
    and sub: "submit k owner sd lim qty rest b = ret rep b'" and acc: "accepted rep"
  shows "(\<Sum>x\<leftarrow>resting_on (opposite sd) b. ucast (ord_qty x)) =
    (\<Sum>x\<leftarrow>resting_on (opposite sd) b'. ucast (ord_qty x)) + ucast (filled rep) + stp_cancelled rep"
proof -
  obtain i i' os' rep0 ts where
    i: "i = \<lparr>ord_id = k, ord_owner = owner, ord_price = (case lim of None \<Rightarrow> 0 | Some p \<Rightarrow> p), ord_qty = qty, ord_side = sd\<rparr>"
    and sw: "sweep (policy b) lim (spec_orders (book_view b) (opposite sd)) i new_report (next_seq b) = (os', i', rep0, ts)"
    and rp: "filled rep = filled rep0" "stp_cancelled rep = stp_cancelled rep0"
    and os': "spec_orders (book_view b') (opposite sd) = os'"
    using submit_sweep [OF assms] by metis
  note ac = sweep_taker_accounting [OF sw]
  have "unat (filled rep0) = (\<Sum>t\<leftarrow>ts. unat (tr_qty t))"
    using ac i by (auto simp: new_report_def unat_sub word_le_nat_alt)
  moreover have "length ts \<le> 2 ^ 31"
  proof -
    obtain Q where rel: "book_rel b Q (book_view b)" and sz: "book_size b < 2 ^ 31" using reachE [OF r n] .
    then show ?thesis
      using sweep_trade_count [OF sw] book_size_spec(1) [OF rel] spec_ids_length [of "book_view b" sd] by simp
  qed
  note sm = unat_sum_ucast(1) [OF this, of tr_qty]
  ultimately have "(\<Sum>t\<leftarrow>ts. ucast (tr_qty t)) = (ucast (filled rep0) :: volume)"
    using sm by (simp add: word_unat_eq_iff)
  then show ?thesis
    using sweep_book_accounting [OF sw] rp os' by (simp add: resting_on_view comp_def new_report_def)
qed

theorem resting_volume_conserved_witness:
  "\<exists>b b'. reaches default_config 3 b \<and> submit 4 5 Buy (Some 100) 4 True b = ret sample_report b' \<and>
     (8 :: volume) = (\<Sum>x\<leftarrow>resting_on Sell b'. ucast (ord_qty x)) + 3"
proof -
  obtain b b' where b: "reaches default_config 3 b" "book_view b = sample_view CancelResting"
      "submit 4 5 Buy (Some 100) 4 True b = ret sample_report b'"
    using sample_submit by blast
  have "(\<Sum>x\<leftarrow>resting_on Sell b. ucast (ord_qty x)) = (8 :: volume)" by (simp add: resting_on_view b(2))
  moreover have t: "accepted sample_report" "(3::nat) < 2 ^ 31" "filled sample_report = 3" "stp_cancelled sample_report = 0"
    by (simp_all add: sample_report_def)
  ultimately have "(8 :: volume) = (\<Sum>x\<leftarrow>resting_on Sell b'. ucast (ord_qty x)) + 3"
    using resting_volume_conserved [OF b(1) t(2) _ b(3) t(1)] by simp
  then show ?thesis using b by blast
qed

subsection \<open>Priority, limits and self-trade prevention\<close>

text \<open>
  (C4) Price-time priority with limits and self-trade prevention, trade by trade. The makers of an accepted
  order's trades are, in order, the first orders of the opposite side (best price first, oldest first
  within a price), passing over the taker's own orders where the policy prevents self-trades. Each
  trade prints at its maker's price, within the taker's limit, for a positive quantity the maker had,
  and never between orders of one owner unless the policy or an anonymous owner allows it. What is left
  of the side is a suffix of it, its first order at most reduced.
\<close>

theorem trades_follow_priority:
  assumes r: "reaches cfg n b" and n: "n < 2 ^ 31" and lim: "rest \<longrightarrow> lim \<noteq> None"
    and sub: "submit k owner sd lim qty rest b = ret rep b'" and acc: "accepted rep"
  shows "\<exists>ts us vs. trade_out b' = fold (\<lambda>t r. snd (ring_push t r)) ts (trade_out b) \<and>
    map tr_maker_id ts = map ord_id (take (length ts)
      (filter (\<lambda>x. \<not> (stp_possible (policy b) owner \<and> owner = ord_owner x)) (resting_on (opposite sd) b))) \<and>
    (\<forall>t\<in>set ts. \<exists>x\<in>set (resting_on (opposite sd) b). tr_maker_id t = ord_id x \<and> tr_taker_id t = k \<and>
       tr_taker_side t = sd \<and> tr_price t = ord_price x \<and> crosses sd lim (tr_price t) \<and>
       0 < tr_qty t \<and> tr_qty t \<le> ord_qty x \<and> \<not> (stp_possible (policy b) owner \<and> owner = ord_owner x)) \<and>
    resting_on (opposite sd) b = us @ vs \<and>
    (resting_on (opposite sd) b' = vs \<or>
     (\<exists>m ms q. vs = m # ms \<and> q < ord_qty m \<and> resting_on (opposite sd) b' = m\<lparr>ord_qty := q\<rparr> # ms))"
proof -
  obtain i i' os' rep0 ts where
    i: "i = \<lparr>ord_id = k, ord_owner = owner, ord_price = (case lim of None \<Rightarrow> 0 | Some p \<Rightarrow> p), ord_qty = qty, ord_side = sd\<rparr>"
    and sw: "sweep (policy b) lim (spec_orders (book_view b) (opposite sd)) i new_report (next_seq b) = (os', i', rep0, ts)"
    and out: "trade_out b' = push_all ts (trade_out b)" and os': "spec_orders (book_view b') (opposite sd) = os'"
    using submit_sweep [OF assms] by metis
  have ii: "ord_owner i = owner" "ord_id i = k" "ord_side i = sd" by (simp_all add: i)
  obtain Q where rel: "book_rel b Q (book_view b)" using reachE [OF r n] .
  let ?os = "spec_orders (book_view b) (opposite sd)" and ?api = "api_order (opposite sd)"
  have on: "resting_on (opposite sd) b = map ?api ?os" by (rule resting_on_rel [OF rel])
  have on': "resting_on (opposite sd) b' = map ?api os'" using resting_on_view [of "opposite sd" b'] os' by simp
  have "map tr_maker_id ts = map ord_id (take (length ts)
      (filter (\<lambda>x. \<not> (stp_possible (policy b) owner \<and> owner = ord_owner x)) (map ?api ?os)))"
    using sweep_priority [OF sw] ii by (simp add: filter_map take_map comp_def)
  moreover have "\<exists>x\<in>set (map ?api ?os). tr_maker_id t = ord_id x \<and> tr_taker_id t = k \<and>
       tr_taker_side t = sd \<and> tr_price t = ord_price x \<and> crosses sd lim (tr_price t) \<and>
       0 < tr_qty t \<and> tr_qty t \<le> ord_qty x \<and> \<not> (stp_possible (policy b) owner \<and> owner = ord_owner x)"
    if t: "t \<in> set ts" for t
    using sweep_trades [OF sw t] view_qty_pos [OF rel, of _ "opposite sd"] ii by (fastforce simp: word_gt_0)
  moreover obtain us vs where "?os = us @ vs" "os' = vs \<or> (\<exists>m ms q. vs = m # ms \<and> q < res_qty m \<and> os' = m\<lparr>res_qty := q\<rparr> # ms)"
    using sweep_rest [OF sw] by blast
  then have "map ?api ?os = map ?api us @ map ?api vs \<and> (map ?api os' = map ?api vs \<or>
      (\<exists>m ms q. map ?api vs = m # ms \<and> q < ord_qty m \<and> map ?api os' = m\<lparr>ord_qty := q\<rparr> # ms))"
    by (auto simp: api_order_def)
  ultimately show ?thesis unfolding on on' using out by (intro exI [of _ ts] exI [of _ "map ?api us"] exI [of _ "map ?api vs"]) blast
qed

theorem trades_follow_priority_witness:
  "\<exists>b b' ts. reaches default_config 3 b \<and> submit 4 5 Buy (Some 100) 4 True b = ret sample_report b' \<and>
     trade_out b' = fold (\<lambda>t r. snd (ring_push t r)) ts (trade_out b) \<and> list_all (\<lambda>t. tr_price t \<le> 100) ts"
proof -
  obtain b b' where b: "reaches default_config 3 b" "submit 4 5 Buy (Some 100) 4 True b = ret sample_report b'"
    using sample_submit by blast
  have t: "accepted sample_report" "(3::nat) < 2 ^ 31" by (simp_all add: sample_report_def)
  obtain ts where "trade_out b' = push_all ts (trade_out b)" "\<forall>t\<in>set ts. crosses Buy (Some 100) (tr_price t)"
    using trades_follow_priority [OF b(1) t(2) _ b(2) t(1)] by auto
  then have "list_all (\<lambda>t. tr_price t \<le> 100) ts" "trade_out b' = push_all ts (trade_out b)" by (auto simp: crosses_def list_all_iff)
  then show ?thesis using b by blast
qed

text \<open>
  (C11) The outcome of an accepted order under each self-trade policy. It is halted only under
  \<open>CancelIncoming\<close>, and then with quantity left, without resting, and standing in front of one of its
  own orders, which stays in the book; without a policy or for an anonymous owner nothing is halted
  or cancelled; and only \<open>CancelResting\<close> reports cancelled quantity.
\<close>

theorem stp_outcomes:
  assumes r: "reaches cfg n b" and n: "n < 2 ^ 31" and lim: "rest \<longrightarrow> lim \<noteq> None"
    and sub: "submit k owner sd lim qty rest b = ret rep b'" and acc: "accepted rep"
  shows "(stp_halted rep \<longrightarrow> policy b = CancelIncoming \<and> owner \<noteq> kAnonymous \<and> \<not> rested rep \<and> 0 < remaining rep \<and>
       (\<exists>x xs. resting_on (opposite sd) b' = x # xs \<and> ord_owner x = owner)) \<and>
    (stp_cancelled rep \<noteq> 0 \<longrightarrow> policy b = CancelResting \<and> owner \<noteq> kAnonymous)"
proof -
  obtain i i' os' rep0 ts where
    i: "i = \<lparr>ord_id = k, ord_owner = owner, ord_price = (case lim of None \<Rightarrow> 0 | Some p \<Rightarrow> p), ord_qty = qty, ord_side = sd\<rparr>"
    and sw: "sweep (policy b) lim (spec_orders (book_view b) (opposite sd)) i new_report (next_seq b) = (os', i', rep0, ts)"
    and rp: "remaining rep = ord_qty i'" "stp_cancelled rep = stp_cancelled rep0" "stp_halted rep = stp_halted rep0"
      "rested rep \<longleftrightarrow> rest \<and> ord_qty i' > 0 \<and> \<not> stp_halted rep0"
    and os': "spec_orders (book_view b') (opposite sd) = os'"
    using submit_sweep [OF assms] by metis
  have o: "ord_owner i = owner" by (simp add: i)
  have h: "policy b = CancelIncoming \<and> ord_qty i' \<noteq> 0 \<and> (\<exists>m ms. os' = m # ms \<and> own_order (policy b) i m)" if "stp_halted rep"
  proof (rule sweep_halted [OF sw])
    show "stp_halted rep0 \<noteq> stp_halted new_report" using that rp(3) by (simp add: new_report_def)
  qed
  have c: "policy b = CancelResting \<and> owner \<noteq> kAnonymous" if "stp_cancelled rep \<noteq> 0"
    using sweep_cancelled [OF sw] that rp(2) o by (auto simp: new_report_def stp_possible_def)
  have "policy b = CancelIncoming \<and> owner \<noteq> kAnonymous \<and> \<not> rested rep \<and> 0 < remaining rep \<and>
       (\<exists>x xs. resting_on (opposite sd) b' = x # xs \<and> ord_owner x = owner)" if "stp_halted rep"
    using h [OF that] that rp os' o by (auto simp: resting_on_view word_gt_0 stp_possible_def)
  then show ?thesis using c by blast
qed

lemma halted_submit:
  "\<exists>b b' rep. reaches (default_config\<lparr>self_trade := CancelIncoming\<rparr>) 3 b \<and>
     submit 4 1 Buy (Some 101) 4 True b = ret rep b' \<and> accepted rep \<and> stp_halted rep \<and> filled rep = 3"
proof -
  let ?cfg = "default_config\<lparr>self_trade := CancelIncoming\<rparr>"
  obtain b where b: "reaches ?cfg 3 b" "book_view b = sample_view CancelIncoming" using sample_reach by blast
  define s where "s = spec_submit 4 1 Buy (Some 101) 4 True (book_view b)"
  have "accepted (fst s)" "stp_halted (fst s)" "filled (fst s) = 3"
    unfolding s_def b(2) by (simp_all add: sample_eval)
  moreover obtain rep ts A' where sp: "s = (rep, ts, A')" by (cases s) auto
  moreover obtain b' where "submit 4 1 Buy (Some 101) 4 True b = ret rep b'"
    using submit_view [OF b(1) _ _ sp [unfolded s_def]] by (simp, blast)
  ultimately show ?thesis using b(1) by (simp, blast)
qed

theorem stp_outcomes_witness:
  "\<exists>b b' rep. reaches (default_config\<lparr>self_trade := CancelIncoming\<rparr>) 3 b \<and>
     submit 4 1 Buy (Some 101) 4 True b = ret rep b' \<and> stp_halted rep \<and> \<not> rested rep \<and>
     (\<exists>x xs. resting_on Sell b' = x # xs \<and> ord_owner x = 1)"
proof -
  let ?cfg = "default_config\<lparr>self_trade := CancelIncoming\<rparr>"
  obtain b b' rep where b: "reaches ?cfg 3 b" "submit 4 1 Buy (Some 101) 4 True b = ret rep b'" "accepted rep" "stp_halted rep"
    using halted_submit by blast
  have "(3::nat) < 2 ^ 31" by simp
  then have "\<not> rested rep \<and> (\<exists>x xs. resting_on Sell b' = x # xs \<and> ord_owner x = 1)"
    using stp_outcomes [OF b(1) _ _ b(2,3)] b(4) by auto
  then show ?thesis using b by blast
qed

subsection \<open>Resting\<close>

text \<open>
  (C6) When and where an order rests. An accepted order rests exactly when it is a limit order with
  quantity left that was not halted. A resting order is then found under its id with its remaining
  quantity, behind all orders of its side at the same or a better price and in front of all worse ones, and
  the rest of its side is as before; an order that does not rest is not in the book, and its side is unchanged.
\<close>

theorem resting_position:
  assumes r: "reaches cfg n b" and n: "n < 2 ^ 31" and lim: "rest \<longrightarrow> lim \<noteq> None"
    and sub: "submit k owner sd lim qty rest b = ret rep b'" and acc: "accepted rep"
  shows "(rested rep \<longleftrightarrow> rest \<and> 0 < remaining rep \<and> \<not> stp_halted rep) \<and>
    (\<not> rested rep \<longrightarrow> resting_on sd b' = resting_on sd b \<and> find_order k b' = Some None) \<and>
    (rested rep \<longrightarrow>
      (\<exists>x us vs p. lim = Some p \<and> x = \<lparr>ord_id = k, ord_owner = owner, ord_price = p, ord_qty = remaining rep, ord_side = sd\<rparr> \<and>
         find_order k b' = Some (Some x) \<and> resting_on sd b = us @ vs \<and> resting_on sd b' = us @ x # vs \<and>
         (\<forall>y\<in>set us. \<not> better (is_bid sd) p (ord_price y)) \<and> (\<forall>y\<in>set vs. better (is_bid sd) p (ord_price y))))"
proof -
  obtain i i' os' rep0 ts where
    i: "i = \<lparr>ord_id = k, ord_owner = owner, ord_price = (case lim of None \<Rightarrow> 0 | Some p \<Rightarrow> p), ord_qty = qty, ord_side = sd\<rparr>"
    and sw: "sweep (policy b) lim (spec_orders (book_view b) (opposite sd)) i new_report (next_seq b) = (os', i', rep0, ts)"
    and fresh: "spec_find k (book_view b) = None"
    and rp: "remaining rep = ord_qty i'" "stp_halted rep = stp_halted rep0" "rested rep \<longleftrightarrow> rest \<and> ord_qty i' > 0 \<and> \<not> stp_halted rep0"
    and os': "spec_orders (book_view b') (opposite sd) = os'"
    and own: "spec_orders (book_view b') sd = (if rested rep
       then rank_insert (is_bid sd) \<lparr>res_id = k, res_price = ord_price i', res_qty = ord_qty i', res_owner = owner\<rparr>
         (spec_orders (book_view b) sd)
       else spec_orders (book_view b) sd)"
    using submit_sweep [OF assms] by metis
  obtain Q' where rel': "book_rel b' Q' (book_view b')" using submit_rel [OF r n lim sub] by blast
  have fd: "find_order k b' = Some (find (\<lambda>x. ord_id x = k) (resting_on Buy b' @ resting_on Sell b'))"
    using find_order_refines [OF rel'] by (simp add: spec_find_def resting_on_view)
  have no: "k \<notin> res_id ` set (spec_orders (book_view b) sd')" for sd'
    using fresh by (cases sd') (auto simp: spec_find_def find_None_iff)
  then have no': "k \<notin> res_id ` set os'" using sweep_ids [OF sw] by blast
  have other: "k \<notin> ord_id ` set (resting_on (opposite sd) b')" using no' os' by (simp add: resting_on_view image_image)
  have P1: "find_order k b' = Some None" "resting_on sd b' = resting_on sd b" if nr: "\<not> rested rep"
  proof -
    show e: "resting_on sd b' = resting_on sd b" using own nr by (simp add: resting_on_view)
    have "k \<notin> ord_id ` set (resting_on sd b')" using no [of sd] unfolding e by (simp add: resting_on_view image_image)
    then show "find_order k b' = Some None" using fd other by (cases sd) (auto simp: find_None_iff)
  qed
  have P2: "\<exists>x us vs p. lim = Some p \<and> x = \<lparr>ord_id = k, ord_owner = owner, ord_price = p, ord_qty = remaining rep, ord_side = sd\<rparr> \<and>
      find_order k b' = Some (Some x) \<and> resting_on sd b = us @ vs \<and> resting_on sd b' = us @ x # vs \<and>
      (\<forall>y\<in>set us. \<not> better (is_bid sd) p (ord_price y)) \<and> (\<forall>y\<in>set vs. better (is_bid sd) p (ord_price y))" if re: "rested rep"
  proof -
    obtain p where p: "lim = Some p" using lim re rp(3) by auto
    have ip: "ord_price i' = p" using sweep_price [OF sw] i p by simp
    let ?r = "\<lparr>res_id = k, res_price = p, res_qty = ord_qty i', res_owner = owner\<rparr>"
    have ins: "spec_orders (book_view b') sd = rank_insert (is_bid sd) ?r (spec_orders (book_view b) sd)" using own re ip by simp
    obtain us vs where sp: "spec_orders (book_view b) sd = us @ vs" "rank_insert (is_bid sd) ?r (spec_orders (book_view b) sd) = us @ ?r # vs"
        "\<forall>y\<in>set us. \<not> better (is_bid sd) p (res_price y)" "\<forall>y\<in>set vs. better (is_bid sd) p (res_price y)"
    proof -
      obtain D where "ranks (is_bid sd) D (spec_orders (book_view b) sd)" using rank_of_view [OF r n] by blast
      from rank_insert_split [OF this, of ?r] show ?thesis using that by auto
    qed
    have nk: "k \<notin> ord_id ` api_order sd ` set us" "k \<notin> ord_id ` api_order sd ` set vs"
      using no [of sd] sp(1) by (auto simp: image_image)
    have "find (\<lambda>x. ord_id x = k) (resting_on sd b') = Some (api_order sd ?r)"
      using nk(1) by (simp add: resting_on_view ins sp(2) find_skip)
    then have "find_order k b' = Some (Some (api_order sd ?r))"
      using fd other by (cases sd) (simp_all add: find_skip find_append_Some)
    then show ?thesis using p sp ins rp(1)
      by (intro exI [of _ "api_order sd ?r"] exI [of _ "map (api_order sd) us"] exI [of _ "map (api_order sd) vs"] exI [of _ p])
        (simp add: resting_on_view api_order_def)
  qed
  show ?thesis
  proof (intro conjI impI)
    show "rested rep \<longleftrightarrow> rest \<and> 0 < remaining rep \<and> \<not> stp_halted rep" using rp by simp
  qed (rule P1 P2, assumption)+
qed

theorem resting_position_witness:
  "\<exists>b b'. reaches default_config 3 b \<and> submit 4 5 Buy (Some 100) 4 True b = ret sample_report b' \<and>
     find_order 4 b' = Some (Some \<lparr>ord_id = 4, ord_owner = 5, ord_price = 100, ord_qty = 1, ord_side = Buy\<rparr>)"
proof -
  obtain b b' where b: "reaches default_config 3 b" "submit 4 5 Buy (Some 100) 4 True b = ret sample_report b'"
    using sample_submit by blast
  have t: "accepted sample_report" "(3::nat) < 2 ^ 31" "rested sample_report" "remaining sample_report = 1"
    by (simp_all add: sample_report_def)
  then have "find_order 4 b' = Some (Some \<lparr>ord_id = 4, ord_owner = 5, ord_price = 100, ord_qty = 1, ord_side = Buy\<rparr>)"
    using resting_position [OF b(1) t(2) _ b(2) t(1)] by auto
  then show ?thesis using b by blast
qed

subsection \<open>Rejection, cancel and modify\<close>

text \<open>
  (C9) Rejected requests change nothing: an order with quantity zero or with the id of a live order is reported as
  not accepted with its whole quantity remaining, a modify of an unknown id likewise, a cancel of an unknown id answers
  false, and in each case the book is bit for bit the one before the call.
\<close>

theorem rejected_unchanged:
  assumes r: "reaches cfg n b" and n: "n < 2 ^ 31"
  shows "(qty = 0 \<or> find_order k b \<noteq> Some None \<longrightarrow>
       submit k owner sd lim qty rest b = ret (new_report\<lparr>accepted := False, remaining := qty\<rparr>) b) \<and>
    (find_order k b = Some None \<longrightarrow>
       cancel k b = ret False b \<and> modify k p qty b = ret (new_report\<lparr>accepted := False, remaining := qty\<rparr>) b)"
proof -
  obtain Q where rel: "book_rel b Q (book_view b)" using reachE [OF r n] .
  note ix = core_wfD(3) [OF book_relD(5) [OF rel]]
  have f: "ix_find (order_index b) k = Some (ix_map (order_index b) k)" by (rule ix_find_spec [OF ix])
  then have fo: "find_order k b \<noteq> Some None \<longleftrightarrow> ix_map (order_index b) k \<noteq> None" by (auto simp: find_order_def)
  obtain ix' where t: "ix_take (order_index b) k = Some (ix_map (order_index b) k, ix')" using ix_take_spec [OF ix] by blast
  have "submit k owner sd lim qty rest b = ret (new_report\<lparr>accepted := False, remaining := qty\<rparr>) b"
    if "qty = 0 \<or> find_order k b \<noteq> Some None"
    using that f fo by (auto simp: submit_def ix_contains_def)
  moreover have "cancel k b = ret False b \<and> modify k p qty b = ret (new_report\<lparr>accepted := False, remaining := qty\<rparr>) b"
    if "find_order k b = Some None"
    using that f fo t by (simp add: cancel_def modify_def)
  ultimately show ?thesis by blast
qed

theorem rejected_unchanged_witness:
  "\<exists>b. reaches default_config 3 b \<and> submit 2 9 Sell None 7 False b = ret (new_report\<lparr>accepted := False, remaining := 7\<rparr>) b \<and>
     cancel 77 b = ret False b"
proof -
  obtain b where b: "reaches default_config 3 b" "book_view b = sample_view CancelResting" using sample_default by blast
  have n: "(3::nat) < 2 ^ 31" by simp
  obtain Q where "book_rel b Q (book_view b)" using reachE [OF b(1) n] .
  then have "find_order 2 b \<noteq> Some None" "find_order 77 b = Some None"
    using find_order_refines b(2) by (simp_all add: spec_find_def)
  then show ?thesis using rejected_unchanged [OF b(1) n] b(1) by blast
qed

text \<open>
  (C8) A cancel of a live order answers true, takes exactly that order out of the book, leaves all other orders
  with their quantities and priorities, and prints nothing.
\<close>

theorem cancel_removes_exactly:
  assumes r: "reaches cfg n b" and n: "n < 2 ^ 31"
  shows "\<exists>b'. cancel k b = ret (find_order k b \<noteq> Some None) b' \<and> find_order k b' = Some None \<and>
    (\<forall>j. j \<noteq> k \<longrightarrow> find_order j b' = find_order j b) \<and>
    (\<forall>sd. resting_on sd b' = filter (\<lambda>x. ord_id x \<noteq> k) (resting_on sd b)) \<and>
    trade_out b' = trade_out b \<and> next_seq b' = next_seq b \<and> check_invariants b' = Some True"
proof -
  obtain Q where rel: "book_rel b Q (book_view b)" using reachE [OF r n] .
  let ?A = "snd (spec_cancel k (book_view b))"
  obtain b' Q' where b': "cancel k b = ret (fst (spec_cancel k (book_view b))) b'" "trade_out b' = trade_out b" "book_rel b' Q' ?A"
    using cancel_refines [OF rel] by blast
  have v: "book_view b' = ?A" by (rule book_view_rel [OF b'(3)])
  have fst: "fst (spec_cancel k (book_view b)) \<longleftrightarrow> find_order k b \<noteq> Some None"
    using find_order_refines [OF rel] by (simp add: spec_cancel_def)
  have on: "resting_on sd b' = filter (\<lambda>x. ord_id x \<noteq> k) (resting_on sd b)" for sd
    unfolding resting_on_view v by (simp add: spec_cancel_def filter_map comp_def)
  have fo: "find_order j c = Some (find (\<lambda>x. ord_id x = j) (resting_on Buy c @ resting_on Sell c))" if "book_rel c R (book_view c)" for j c R
    using find_order_refines [OF that] by (simp add: spec_find_def resting_on_view)
  have rel': "book_rel b' Q' (book_view b')" using b'(3) v by simp
  have "find (\<lambda>x. ord_id x = j) (filter (\<lambda>x. ord_id x \<noteq> k) os) = (if j = k then None else find (\<lambda>x. ord_id x = j) os)" for j and os :: "order list"
    by (induction os) auto
  then have "find_order j b' = (if j = k then Some None else find_order j b)" for j
    unfolding fo [OF rel] fo [OF rel'] on filter_append [symmetric] by (simp del: filter_append)
  moreover have "next_seq b' = next_seq b" using arg_cong [OF v, of spec_seq] by (simp add: book_view_def spec_cancel_def)
  ultimately show ?thesis using b' fst on check_invariants_holds [OF rel'] by auto
qed

theorem cancel_removes_exactly_witness:
  "\<exists>b b'. reaches default_config 3 b \<and> cancel 2 b = ret True b' \<and> map ord_id (resting_on Sell b') = [1]"
proof -
  obtain b where b: "reaches default_config 3 b" "book_view b = sample_view CancelResting" using sample_default by blast
  have n: "(3::nat) < 2 ^ 31" by simp
  obtain Q where "book_rel b Q (book_view b)" using reachE [OF b(1) n] .
  then have f: "find_order 2 b \<noteq> Some None" using find_order_refines b(2) by (simp add: spec_find_def)
  obtain b' where c: "cancel 2 b = ret (find_order 2 b \<noteq> Some None) b'"
      "\<forall>sd. resting_on sd b' = filter (\<lambda>x. ord_id x \<noteq> 2) (resting_on sd b)"
    using cancel_removes_exactly [OF b(1) n, of 2] by blast
  have "map ord_id (resting_on Sell b') = [1]" using c(2) by (simp add: resting_on_view [of Sell b] b(2))
  then show ?thesis using b(1) c(1) f by (intro exI [of _ b] exI [of _ b']) simp
qed

text \<open>
  (C10) A modify of a live order is a cancel followed by a limit order with the same id, owner and side at the
  new price and quantity, hence with a new queue position; to quantity zero it is just the cancel.
\<close>

theorem modify_is_cancel_add:
  assumes r: "reaches cfg n b" and n: "n < 2 ^ 31" and f: "find_order k b = Some (Some x)"
  shows "\<exists>b1. cancel k b = ret True b1 \<and>
    modify k p qty b = (if qty = 0 then ret new_report b1 else add_limit k (ord_owner x) (ord_side x) p qty b1)"
proof -
  obtain Q where rel: "book_rel b Q (book_view b)" using reachE [OF r n] .
  have fx: "ix_find (order_index b) k = Some (ix_map (order_index b) k)"
    by (rule ix_find_spec [OF core_wfD(3) [OF book_relD(5) [OF rel]]])
  obtain e where e: "ix_map (order_index b) k = Some e" "x = api_order (side_of e) (value_at (pool b) (slot_of e))"
    using f fx by (auto simp: find_order_def)
  obtain b' where c: "cancel k b = ret (fst (spec_cancel k (book_view b))) b'" using cancel_refines [OF rel] by blast
  have "spec_find k (book_view b) = Some x" using find_order_refines [OF rel, of k] f by simp
  then have "fst (spec_cancel k (book_view b))" by (simp add: spec_cancel_def)
  then have "cancel k b = ret True b'" using c by simp
  then show ?thesis using fx e by (intro exI [of _ b']) (simp add: modify_def Let_def)
qed

theorem modify_is_cancel_add_witness:
  "\<exists>b b1. reaches default_config 3 b \<and> cancel 2 b = ret True b1 \<and> modify 2 99 6 b = add_limit 2 2 Sell 99 6 b1"
proof -
  obtain b where b: "reaches default_config 3 b" "book_view b = sample_view CancelResting" using sample_default by blast
  have n: "(3::nat) < 2 ^ 31" by simp
  obtain Q where "book_rel b Q (book_view b)" using reachE [OF b(1) n] .
  then have "find_order 2 b = Some (Some \<lparr>ord_id = 2, ord_owner = 2, ord_price = 100, ord_qty = 3, ord_side = Sell\<rparr>)"
    using find_order_refines b(2) by (simp add: spec_find_def api_order_def)
  from modify_is_cancel_add [OF b(1) n this, of 99 6] show ?thesis using b(1) by auto
qed

subsection \<open>Queries\<close>

text \<open>
  (C7) All queries answer from one book: on a reachable book, \<^verbatim>\<open>for_each_resting\<close> returns the orders in book order, and
  \<^verbatim>\<open>size\<close>, \<^verbatim>\<open>empty\<close>, \<^verbatim>\<open>find\<close>, \<^verbatim>\<open>order_count_at\<close>, \<^verbatim>\<open>qty_at\<close>, \<^verbatim>\<open>best_bid\<close> and \<^verbatim>\<open>best_ask\<close> are what that list says. In particular
  the 64-bit level totals, which are kept incrementally, are the true sums of the 32-bit quantities: they never wrap.
\<close>

theorem queries_agree:
  assumes r: "reaches cfg n b" and n: "n \<le> 2 ^ 31"
  shows "for_each_resting b = Some (resting_on Buy b @ resting_on Sell b) \<and>
    book_size b = length (resting_on Buy b @ resting_on Sell b) \<and>
    (book_empty b \<longleftrightarrow> resting_on Buy b @ resting_on Sell b = []) \<and>
    find_order k b = Some (find (\<lambda>x. ord_id x = k) (resting_on Buy b @ resting_on Sell b)) \<and>
    order_count_at sd p b = Some (length (filter (\<lambda>x. ord_price x = p) (resting_on sd b))) \<and>
    unat (qty_at sd p b) = (\<Sum>x\<leftarrow>filter (\<lambda>x. ord_price x = p) (resting_on sd b). unat (ord_qty x)) \<and>
    best_bid b = (case resting_on Buy b of [] \<Rightarrow> None | x # _ \<Rightarrow> Some (ord_price x)) \<and>
    best_ask b = (case resting_on Sell b of [] \<Rightarrow> None | x # _ \<Rightarrow> Some (ord_price x))"
proof -
  obtain Q where rel: "book_rel b Q (book_view b)" using reaches_rel [OF assms] by blast
  let ?os = "spec_orders (book_view b)"
  have sz: "book_size b = length (?os Buy) + length (?os Sell)" "book_size b \<le> 2 ^ 31"
    using book_size_spec [OF rel] by (simp_all add: spec_ids_def)
  have "length (filter (\<lambda>r. res_price r = p) (?os sd)) \<le> 2 ^ 31"
  proof -
    have "length (?os sd) \<le> 2 ^ 31" using sz by (cases sd) auto
    then show ?thesis using le_trans [OF length_filter_le] by blast
  qed
  from unat_sum_ucast(1) [OF this, of res_qty]
  have q: "unat (qty_at sd p b) = (\<Sum>r\<leftarrow>filter (\<lambda>r. res_price r = p) (?os sd). unat (res_qty r))"
    using qty_at_refines [OF rel, of sd p] by simp
  have bb: "best_bid b = map_option res_price (case ?os Buy of [] \<Rightarrow> None | r # _ \<Rightarrow> Some r)"
    "best_ask b = map_option res_price (case ?os Sell of [] \<Rightarrow> None | r # _ \<Rightarrow> Some r)"
    using best_price_refines [OF rel, of Buy] best_price_refines [OF rel, of Sell]
    by (simp_all add: best_bid_def best_ask_def ladder_of_def)
  have "book_empty b \<longleftrightarrow> ?os Buy = [] \<and> ?os Sell = []" using sz(1) by (auto simp: book_empty_def book_size_def)
  then show ?thesis
    unfolding resting_on_view
    using for_each_resting_refines [OF rel] sz q bb order_count_at_refines [OF rel, of sd p] find_order_refines [OF rel, of k]
    by (simp add: spec_find_def filter_map comp_def split: list.splits)
qed

theorem queries_agree_witness:
  "\<exists>b. reaches default_config 3 b \<and> unat (qty_at Sell 101 b) = 5 \<and> best_bid b = Some 99 \<and> best_ask b = Some 100 \<and> book_size b = 3"
proof -
  obtain b where b: "reaches default_config 3 b" "book_view b = sample_view CancelResting" using sample_default by blast
  have "(3::nat) \<le> 2 ^ 31" by simp
  from queries_agree [OF b(1) this, of 1 Sell 101] show ?thesis
    unfolding resting_on_view b(2) using b(1) by (intro exI [of _ b]) simp
qed

subsection \<open>Construction\<close>

text \<open>
  (C22) Every outcome of the constructor, whatever memory the system grants. It returns only for \<open>expected_orders \<le> 2 ^ 57\<close>,
  \<open>price_levels < 2 ^ 59\<close> and \<open>trade_capacity \<le> 2 ^ 57\<close>, and then gives an empty book of the configured policy that passes
  all its checks, with a ring of at least the requested capacity. It throws \<^verbatim>\<open>length_error\<close> only where one of the three is larger
  (a vector of the pool, the ladders, the index or the ring above \<^verbatim>\<open>max_size()\<close>), \<^verbatim>\<open>bad_alloc\<close> only where the system refuses a block,
  and nothing else. It does not return only where the other two are in bounds and the capacity is above \<open>2 ^ 63\<close>: then the doubling
  loop of the ring never ends. Where the system grants everything, these are the exact conditions.
\<close>

theorem book_new_returns_iff:
  "(case book_init grants cfg of
      None \<Rightarrow> expected_orders cfg \<le> 2 ^ 57 \<and> price_levels cfg < 2 ^ 59 \<and> 2 ^ 63 < trade_capacity cfg
    | Some (Inl e) \<Rightarrow>
        e = Length_error \<and> (2 ^ 57 < expected_orders cfg \<or> 2 ^ 59 \<le> price_levels cfg \<or>
          2 ^ 57 < trade_capacity cfg \<and> trade_capacity cfg \<le> 2 ^ 63) \<or>
        e = Bad_alloc \<and> (\<exists>bytes<2 ^ 64. 0 < bytes \<and> \<not> grants bytes)
    | Some (Inr b) \<Rightarrow> expected_orders cfg \<le> 2 ^ 57 \<and> price_levels cfg < 2 ^ 59 \<and> trade_capacity cfg \<le> 2 ^ 57 \<and>
        for_each_resting b = Some [] \<and> book_empty b \<and> check_invariants b = Some True \<and>
        policy b = self_trade cfg \<and> next_seq b = 1 \<and> ring_list (trade_out b) = [] \<and>
        unat (trade_capacity cfg) \<le> ring_capacity (trade_out b)) \<and>
   (book_new cfg \<noteq> None \<longleftrightarrow> expected_orders cfg \<le> 2 ^ 57 \<and> price_levels cfg < 2 ^ 59 \<and> trade_capacity cfg \<le> 2 ^ 57) \<and>
   (book_init (\<lambda>_. True) cfg = None \<longleftrightarrow>
      expected_orders cfg \<le> 2 ^ 57 \<and> price_levels cfg < 2 ^ 59 \<and> 2 ^ 63 < trade_capacity cfg)"
proof -
  have empty: "for_each_resting b = Some [] \<and> book_empty b \<and> check_invariants b = Some True \<and> policy b = self_trade cfg \<and>
      next_seq b = 1 \<and> ring_list (trade_out b) = [] \<and> unat (trade_capacity cfg) \<le> ring_capacity (trade_out b)"
    if b: "book_init grants cfg = Some (Inr b)" for b
  proof -
    note rel = book_init_refines [OF b]
    have e: "spec_orders (spec_new (self_trade cfg)) sd = []" for sd by (simp add: spec_new_def)
    have "book_size b = 0" using book_size_spec(1) [OF rel(2)] by (simp add: spec_ids_def e)
    then show ?thesis
      using for_each_resting_refines [OF rel(2)] check_invariants_holds [OF rel(2)] book_relD(3,4) [OF rel(2)] rel(4,5)
      by (simp add: e book_size_def book_empty_def) (simp add: spec_new_def)
  qed
  have "book_init (\<lambda>_. True) cfg = None \<longleftrightarrow> expected_orders cfg \<le> 2 ^ 57 \<and> price_levels cfg < 2 ^ 59 \<and> 2 ^ 63 < trade_capacity cfg"
    using book_init_outcome [where grants = "\<lambda>_. True" and cfg = cfg] by (auto simp: allocatable_def dest: less_le_trans split: option.splits sum.splits)
  then show ?thesis
    using book_init_outcome [where grants = grants and cfg = cfg] empty book_new_iff [of cfg]
    by (auto simp: allocatable_def split: option.split sum.split)
qed

theorem book_new_returns_iff_witness:
  "book_new default_config \<noteq> None \<and> book_init (\<lambda>_. True) (default_config\<lparr>trade_capacity := 2 ^ 63 + 1\<rparr>) = None \<and>
   book_init (\<lambda>_. True) (default_config\<lparr>expected_orders := 2 ^ 62\<rparr>) = Some (Inl Length_error) \<and>
   book_init (\<lambda>_. False) default_config = Some (Inl Bad_alloc)"
proof -
  note at = book_new_returns_iff [where cfg = "default_config\<lparr>expected_orders := 2 ^ 62\<rparr>" and grants = "\<lambda>_. True"]
    book_new_returns_iff [where cfg = default_config and grants = "\<lambda>_. False"]
    book_new_returns_iff [where cfg = "default_config\<lparr>trade_capacity := 2 ^ 63 + 1\<rparr>"]
  have "book_init (\<lambda>_. False) default_config = Some (Inl Bad_alloc)"
    by (simp add: book_init_def default_config_def kDefaultPoolSlots_def take_vector_def take_block_def vector_max_def
        kSlotBytes_def arena_request_def)
  then show ?thesis using at by (auto simp: default_config_def split: option.splits sum.splits)
qed

text \<open>
  (C30) The limit of \<open>2 ^ 31\<close> resting orders. When the pool hands out slot \<open>2 ^ 31\<close> or above, \<^verbatim>\<open>insert\<close> throws
  \<^verbatim>\<open>length_error\<close>; the id is not indexed, but by then the price level has been opened and the slot taken, and neither is
  undone: the pool counts one order more than the index.
\<close>

theorem insert_at_limit_throws:
  assumes "is_placed (ladder_of sd b)" and "acquire zero_resting (pool b) = ret slot P" and "2 ^ 31 \<le> slot"
  shows "\<exists>b'. insert_order sd ord b = throw Length_error b' \<and> order_index b' = order_index b \<and>
    ladder_of sd b' = ladder_open (is_bid sd) (ord_price ord) (ladder_of sd b) \<and>
    pool_size (pool b') = pool_size (pool b) + 1"
proof -
  let ?b = "set_ladder sd (ladder_open (is_bid sd) (ord_price ord) (ladder_of sd b)) b\<lparr>pool := P\<rparr>"
  have "insert_order sd ord b = throw Length_error ?b"
    using assms(1-3) by (simp add: insert_order_def Let_def)
  moreover have "pool_size P = pool_size (pool b) + 1" using acquire_live [OF assms(2)] by (simp add: pool_size_def)
  ultimately show ?thesis by (intro exI [of _ ?b]) (cases sd; simp add: set_ladder_def ladder_of_def)
qed

definition full_book :: book where
  "full_book = \<lparr>pool = \<lparr>slots = replicate (2 ^ 31 + 1) (new_slot zero_resting), pool_used = 2 ^ 31, pool_live = 2 ^ 31,
       free_head = kNoSlot, pool_growths = 0\<rparr>,
     bids = ladder_place 0 (ladder_new 4), asks = ladder_place 0 (ladder_new 4),
     order_index = \<lparr>table = replicate 16 zero_entry, ix_mask = 15, ix_bits = 4, ix_count = 0, ix_growths = 0\<rparr>,
     trade_out = \<lparr>buffer = [zero_trade], ring_mask = 0, ring_head = 0, ring_tail = 0, drop_count = 0\<rparr>,
     policy = Allow, next_seq = 1\<rparr>"

theorem insert_at_limit_throws_witness:
  "\<exists>b'. insert_order Buy \<lparr>ord_id = 9, ord_owner = 1, ord_price = 2, ord_qty = 1, ord_side = Buy\<rparr> full_book = throw Length_error b' \<and>
     pool_size (pool b') = 2 ^ 31 + 1"
proof -
  define P where "P = hand_out (of_nat (2 ^ 31)) (pool full_book\<lparr>pool_used := 2 ^ 31 + 1\<rparr>)"
  have "acquire zero_resting (pool full_book) = ret (of_nat (2 ^ 31)) P"
    by (simp add: acquire_def full_book_def P_def Let_def)
  moreover have "pool_size (pool full_book) = 2 ^ 31" by (simp add: pool_size_def full_book_def)
  moreover have "is_placed (ladder_of Buy full_book)" by (simp add: full_book_def ladder_of_def ladder_place_def Let_def)
  ultimately obtain b' where "insert_order Buy \<lparr>ord_id = 9, ord_owner = 1, ord_price = 2, ord_qty = 1, ord_side = Buy\<rparr> full_book =
      throw Length_error b'" "pool_size (pool b') = 2 ^ 31 + 1"
    using insert_at_limit_throws [of Buy full_book "of_nat (2 ^ 31)" P "\<lparr>ord_id = 9, ord_owner = 1, ord_price = 2, ord_qty = 1, ord_side = Buy\<rparr>"]
    by auto
  then show ?thesis by blast
qed

end
