(* ===== verification/Flow.thy ===== *)
theory Flow
  imports Flow_Random Engine_Properties "HOL-Library.Monad_Syntax"
begin

section \<open>The flow generator of the benchmark (\<^verbatim>\<open>flow::Generator\<close>)\<close>

text \<open>
  \<^verbatim>\<open>bench/flow.cpp\<close> from \<^verbatim>\<open>apply\<close> to \<^verbatim>\<open>generate\<close>. The generator drives its own copy of the engine; its members are the
  fields of a record that every operation takes and returns, and draws are made in the order in which the code makes
  them. An operation is \<open>None\<close> when a call of the engine does not return normally; that this never happens is part
  of what is proved. Counters of type \<^verbatim>\<open>std::size_t\<close> are natural numbers.
\<close>

subsection \<open>Model\<close>

definition apply_op :: "flow_op \<Rightarrow> book \<Rightarrow> (exec_report \<times> book) option" where
  "apply_op x b =
     (case fo_kind x of
        Add \<Rightarrow> returned (add_limit (fo_id x) (fo_owner x) (fo_side x) (fo_price x) (fo_qty x) b)
      | CancelOp \<Rightarrow> map_option (\<lambda>(ok, b'). (new_report\<lparr>accepted := ok\<rparr>, b')) (returned (cancel (fo_id x) b))
      | ModifyOp \<Rightarrow> returned (modify (fo_id x) (fo_price x) (fo_qty x) b)
      | Marketable \<Rightarrow>
          if fo_market x then returned (add_market (fo_id x) (fo_owner x) (fo_side x) (fo_qty x) b)
          else returned (add_limit (fo_id x) (fo_owner x) (fo_side x) (fo_price x) (fo_qty x) b))"

record flow_stats =
  st_count :: "flow_kind \<Rightarrow> nat"
  market_orders :: nat
  st_trades :: nat
  depth_min :: nat
  depth_max :: nat
  spread_p50 :: price
  spread_p99 :: price
  flow_hash :: "64 word"
  st_trade_hash :: "64 word"

record flow =
  fl_ops :: "flow_op list"
  fl_build :: nat
  fl_warmup :: nat
  fl_stats :: flow_stats

definition timed_begin :: "flow \<Rightarrow> nat" where
  "timed_begin f = fl_build f + fl_warmup f"

definition timed_count :: "flow \<Rightarrow> nat" where
  "timed_count f = length (fl_ops f) - timed_begin f"

record generator =
  g_cfg :: flow_config
  g_rng :: "64 word"
  g_book :: book
  g_live :: "order_id list"
  g_mid :: price
  g_next_id :: order_id
  g_timing :: bool
  g_trade_hash :: "64 word"
  g_spread_hist :: "nat list"
  g_out :: flow
  g_steps :: nat

definition kTradeCapacity :: "64 word" where
  "kTradeCapacity = 4096"

definition random_side :: "64 word \<Rightarrow> side \<times> 64 word" where
  "random_side s = (case chance 50 s of (c, s') \<Rightarrow> (if c then Buy else Sell, s'))"

definition random_owner :: "flow_config \<Rightarrow> 64 word \<Rightarrow> participant_id \<times> 64 word" where
  "random_owner cfg s = (case below (ucast (fc_owners cfg)) s of (r, s') \<Rightarrow> (ucast (1 + r), s'))"

definition random_qty :: "flow_config \<Rightarrow> 64 word \<Rightarrow> quantity \<times> 64 word" where
  "random_qty cfg s = (case geometric (size_decay_percent cfg) 19 s of (k, s') \<Rightarrow> (fc_lot cfg * (1 + k), s'))"

definition walk_mid :: "generator \<Rightarrow> generator" where
  "walk_mid g =
     (case chance 50 (g_rng g) of
        (up, s) \<Rightarrow>
          (if up then g\<lparr>g_rng := s, g_mid := g_mid g + 1\<rparr>
           else if g_mid g > tail_ticks (g_cfg g) + 1 then g\<lparr>g_rng := s, g_mid := g_mid g - 1\<rparr>
           else g\<lparr>g_rng := s\<rparr>))"

definition random_offset :: "flow_config \<Rightarrow> 64 word \<Rightarrow> price \<times> 64 word" where
  "random_offset cfg s =
     (case chance (near_touch_percent cfg) s of
        (near, s1) \<Rightarrow>
          if near
          then (case geometric (near_decay_percent cfg) (ucast (tail_ticks cfg)) s1 of (k, s2) \<Rightarrow> (ucast k, s2))
          else below (tail_ticks cfg + 1) s1)"

definition passive_price :: "side \<Rightarrow> generator \<Rightarrow> price \<times> 64 word" where
  "passive_price sd g =
     (case random_offset (g_cfg g) (g_rng g) of
        (off, s) \<Rightarrow>
          if sd = Buy
          then (let p = g_mid g - off in
                ((case best_ask (g_book g) of None \<Rightarrow> p | Some ask \<Rightarrow> if p \<ge> ask then ask - 1 else p), s))
          else (let p = g_mid g + 1 + off in
                ((case best_bid (g_book g) of None \<Rightarrow> p | Some bid \<Rightarrow> if p \<le> bid then bid + 1 else p), s)))"

text \<open>Applying an operation and draining the ring into a hash, as the generator and the benchmark both do.\<close>

definition drive :: "flow_op \<Rightarrow> book \<times> 64 word \<Rightarrow> ((book \<times> 64 word) \<times> nat) option" where
  "drive x s =
     (case s of (b, h) \<Rightarrow>
        do {
          (rep, b1) \<leftarrow> apply_op x b;
          (ts, ring) \<leftarrow> drain_trades (trade_out b1);
          Some ((b1\<lparr>trade_out := ring\<rparr>, foldl hash_trade h ts), length ts)
        })"

definition emit :: "flow_op \<Rightarrow> generator \<Rightarrow> generator option" where
  "emit x g =
     do {
       ((b, h), fills) \<leftarrow> drive x (g_book g, g_trade_hash g);
       let out = (g_out g)\<lparr>fl_ops := fl_ops (g_out g) @ [x]\<rparr>;
       let st = fl_stats out;
       let st' = st\<lparr>st_count := (st_count st)(fo_kind x := st_count st (fo_kind x) + 1), st_trades := st_trades st + fills,
                  market_orders := market_orders st + (if fo_kind x = Marketable \<and> fo_market x then 1 else 0)\<rparr>;
       Some (g\<lparr>g_book := b, g_trade_hash := h, g_out := (if g_timing g then out\<lparr>fl_stats := st'\<rparr> else out)\<rparr>)
     }"

definition gen_add :: "side \<Rightarrow> generator \<Rightarrow> generator option" where
  "gen_add sd g =
     (let k = g_next_id g;
          g1 = g\<lparr>g_next_id := k + 1\<rparr>;
          (p, s1) = passive_price sd g1;
          (q, s2) = random_qty (g_cfg g) s1;
          (o', s3) = random_owner (g_cfg g) s2
      in do {
        g2 \<leftarrow> emit \<lparr>fo_id = k, fo_price = p, fo_qty = q, fo_owner = o', fo_kind = Add, fo_side = sd, fo_market = False\<rparr>
                (g1\<lparr>g_rng := s3\<rparr>);
        Some (g2\<lparr>g_live := g_live g2 @ [k]\<rparr>)
      })"

text \<open>\<^verbatim>\<open>add(random_side())\<close>\<close>

definition gen_add_random :: "generator \<Rightarrow> generator option" where
  "gen_add_random g = (case random_side (g_rng g) of (sd, s) \<Rightarrow> gen_add sd (g\<lparr>g_rng := s\<rparr>))"

definition gen_cancel :: "generator \<Rightarrow> generator option" where
  "gen_cancel g =
     do {
       (r, ids, s) \<leftarrow> live_take (g_cfg g) (g_book g) (g_live g) (g_rng g);
       let g1 = g\<lparr>g_live := ids, g_rng := s\<rparr>;
       case r of
         None \<Rightarrow> gen_add_random g1
       | Some k \<Rightarrow> emit \<lparr>fo_id = k, fo_price = 0, fo_qty = 0, fo_owner = 0, fo_kind = CancelOp, fo_side = Buy, fo_market = False\<rparr> g1
     }"

definition gen_modify :: "generator \<Rightarrow> generator option" where
  "gen_modify g =
     do {
       (r, ids, s) \<leftarrow> live_take (g_cfg g) (g_book g) (g_live g) (g_rng g);
       let g1 = g\<lparr>g_live := ids, g_rng := s\<rparr>;
       case r of
         None \<Rightarrow> gen_add_random g1
       | Some k \<Rightarrow>
           do {
             f \<leftarrow> find_order k (g_book g1);
             x \<leftarrow> f;
             let sd = ord_side x;
             let (p, s1) = passive_price sd g1;
             let (q, s2) = random_qty (g_cfg g) s1;
             g2 \<leftarrow> emit \<lparr>fo_id = k, fo_price = p, fo_qty = q, fo_owner = 0, fo_kind = ModifyOp, fo_side = sd, fo_market = False\<rparr>
                     (g1\<lparr>g_rng := s2\<rparr>);
             Some (g2\<lparr>g_live := g_live g2 @ [k]\<rparr>)
           }
     }"

function takes_loop :: "32 word \<Rightarrow> nat \<Rightarrow> 64 word \<Rightarrow> nat \<times> 64 word" where
  "takes_loop pull takes s =
     (if takes < 64
      then (case chance_per_mille (min pull 950) s of (c, s') \<Rightarrow> if c then takes_loop pull (takes + 1) s' else (takes, s'))
      else (takes, s))"
  by pat_completeness auto
termination
  by (relation "measure (\<lambda>(pull, takes, s). 64 - takes)") auto

declare takes_loop.simps [simp del]

fun sum_qty :: "flow_config \<Rightarrow> nat \<Rightarrow> quantity \<Rightarrow> 64 word \<Rightarrow> quantity \<times> 64 word" where
  "sum_qty cfg 0 q s = (q, s)"
| "sum_qty cfg (Suc n) q s = (case random_qty cfg s of (r, s') \<Rightarrow> sum_qty cfg n (q + r) s')"

definition take_pull :: "flow_config \<Rightarrow> nat \<Rightarrow> 32 word" where
  "take_pull cfg depth =
     (if depth = 0 then 0
      else ucast (1000 - min 1000 ((500 * of_nat (target_depth cfg)) div of_nat depth) :: 64 word))"

definition marketable :: "generator \<Rightarrow> generator option" where
  "marketable g =
     (let (sd, s1) = random_side (g_rng g);
          depth = book_size (g_book g);
          pull = take_pull (g_cfg g) depth;
          (takes, s2) = takes_loop pull 1 s1;
          (qty, s3) = sum_qty (g_cfg g) takes 0 s2;
          touch = (if sd = Buy then best_ask (g_book g) else best_bid (g_book g));
          (market, s4) = (case touch of None \<Rightarrow> (True, s3) | Some _ \<Rightarrow> chance 50 s3);
          (p, s5) =
            (if market then (0, s4)
             else (case below 3 s4 of
                 (through, s5) \<Rightarrow>
                   ((case touch of None \<Rightarrow> 0 | Some t \<Rightarrow> if sd = Buy then t + through else t - through), s5)));
          k = g_next_id g;
          (o', s6) = random_owner (g_cfg g) s5
      in do {
        g1 \<leftarrow> emit \<lparr>fo_id = k, fo_price = p, fo_qty = qty, fo_owner = o', fo_kind = Marketable, fo_side = sd, fo_market = market\<rparr>
                (g\<lparr>g_rng := s6, g_next_id := k + 1\<rparr>);
        if market then Some g1
        else do {
          f \<leftarrow> find_order k (g_book g1);
          Some (if f = None then g1 else g1\<lparr>g_live := g_live g1 @ [k]\<rparr>)
        }
      })"

definition gen_step :: "generator \<Rightarrow> generator option" where
  "gen_step g =
     (let (moved, s1) = chance_per_mille (mid_step_per_mille (g_cfg g)) (g_rng g);
          g0 = g\<lparr>g_rng := s1\<rparr>;
          g1 = (if moved then walk_mid g0 else g0);
          cfg = g_cfg g;
          (roll, s2) = below 100 (g_rng g1);
          g2 = g1\<lparr>g_rng := s2\<rparr>
      in do {
        g3 \<leftarrow> (if roll < ucast (add_percent cfg) then gen_add_random g2
               else if roll < ucast (add_percent cfg + cancel_percent cfg) then gen_cancel g2
               else if roll < ucast (add_percent cfg + cancel_percent cfg + modify_percent cfg) then gen_modify g2
               else marketable g2);
        let g4 = g3\<lparr>g_steps := g_steps g3 + 1\<rparr>;
        if g_steps g4 mod 65536 = 0
        then map_option (\<lambda>ids. g4\<lparr>g_live := ids\<rparr>) (live_sweep (g_book g4) (g_live g4))
        else Some g4
      })"

definition sample_spread :: "generator \<Rightarrow> generator" where
  "sample_spread g =
     (case (best_bid (g_book g), best_ask (g_book g)) of
        (Some bid, Some ask) \<Rightarrow>
          (let i = min (unat (ask - bid)) (length (g_spread_hist g) - 1) in
           g\<lparr>g_spread_hist := (g_spread_hist g)[i := g_spread_hist g ! i + 1]\<rparr>)
      | _ \<Rightarrow> g)"

fun percentile_scan :: "nat list \<Rightarrow> nat \<Rightarrow> nat \<Rightarrow> nat \<Rightarrow> nat option" where
  "percentile_scan [] s seen rank = None"
| "percentile_scan (n # ns) s seen rank = (if seen + n \<ge> rank then Some s else percentile_scan ns (s + 1) (seen + n) rank)"

definition spread_percentile :: "nat list \<Rightarrow> nat \<Rightarrow> nat" where
  "spread_percentile hist percent =
     (let total_count = sum_list hist in
      if total_count = 0 then 0
      else let rank = (total_count * percent + 99) div 100 in
        case percentile_scan hist 0 0 rank of Some s \<Rightarrow> s | None \<Rightarrow> length hist - 1)"

fun gen_repeat :: "nat \<Rightarrow> (generator \<Rightarrow> generator option) \<Rightarrow> generator \<Rightarrow> generator option" where
  "gen_repeat 0 f g = Some g"
| "gen_repeat (Suc n) f g = Option.bind (f g) (gen_repeat n f)"

text \<open>One turn of the timed loop.\<close>

definition timed_step :: "generator \<Rightarrow> generator option" where
  "timed_step g =
     do {
       g1 \<leftarrow> gen_step g;
       let depth = book_size (g_book g1);
       let st = fl_stats (g_out g1);
       let g2 = g1\<lparr>g_out := (g_out g1)\<lparr>fl_stats := st\<lparr>depth_min := min (depth_min st) depth, depth_max := max (depth_max st) depth\<rparr>\<rparr>\<rparr>;
       Some (sample_spread g2)
     }"

definition gen_run :: "generator \<Rightarrow> flow option" where
  "gen_run g =
     do {
       let cfg = g_cfg g;
       g1 \<leftarrow> gen_repeat (target_depth cfg) gen_add_random g;
       let g2 = g1\<lparr>g_out := (g_out g1)\<lparr>fl_build := length (fl_ops (g_out g1))\<rparr>\<rparr>;
       g3 \<leftarrow> gen_repeat (fc_warmup_ops cfg) gen_step g2;
       let out = g_out g3;
       let g4 = g3\<lparr>g_out := out\<lparr>fl_warmup := length (fl_ops out) - fl_build out,
                  fl_stats := (fl_stats out)\<lparr>depth_min := book_size (g_book g3)\<rparr>\<rparr>, g_timing := True\<rparr>;
       g5 \<leftarrow> gen_repeat (fc_ops cfg) timed_step g4;
       let out = g_out g5;
       Some (out\<lparr>fl_stats := (fl_stats out)\<lparr>spread_p50 := of_nat (spread_percentile (g_spread_hist g5) 50),
                spread_p99 := of_nat (spread_percentile (g_spread_hist g5) 99),
                flow_hash := foldl hash_op kHashSeed (fl_ops out), st_trade_hash := g_trade_hash g5\<rparr>\<rparr>)
     }"

definition empty_flow :: flow where
  "empty_flow = \<lparr>fl_ops = [], fl_build = 0, fl_warmup = 0, fl_stats = \<lparr>st_count = \<lambda>_. 0, market_orders = 0, st_trades = 0,
     depth_min = 0, depth_max = 0, spread_p50 = 0, spread_p99 = 0, flow_hash = 0, st_trade_hash = 0\<rparr>\<rparr>"

text \<open>The configuration of the generator's own book, with the defaults of \<^verbatim>\<open>lob::Config\<close>.\<close>

definition shadow_config :: "flow_config \<Rightarrow> config" where
  "shadow_config cfg = default_config\<lparr>self_trade := fc_self_trade cfg, trade_capacity := kTradeCapacity\<rparr>"

definition generator_new :: "flow_config \<Rightarrow> (string + generator) option" where
  "generator_new cfg =
     do {
       b \<leftarrow> book_new (shadow_config cfg);
       let g = \<lparr>g_cfg = cfg, g_rng = rng_new (fc_seed cfg), g_book = b, g_live = [], g_mid = start_mid cfg, g_next_id = 1,
                g_timing = False, g_trade_hash = kHashSeed, g_spread_hist = replicate 65 0, g_out = empty_flow, g_steps = 0\<rparr>;
       Some (if add_percent cfg + cancel_percent cfg + modify_percent cfg + marketable_percent cfg \<noteq> 100
             then Inl ''flow mix must sum to 100%''
             else if start_mid cfg \<le> tail_ticks cfg + 1
             then Inl ''start_mid must sit above the deepest tail price''
             else Inr g)
     }"

text \<open>
  An operation has 32 bytes; \<^verbatim>\<open>run()\<close> reserves room for all of them first, and \<^verbatim>\<open>reserve\<close> throws \<^verbatim>\<open>length_error\<close> above
  \<^verbatim>\<open>max_size()\<close>. The sum is a 64-bit one.
\<close>

definition kOpBytes :: nat where
  "kOpBytes = 32"

definition reserve_fails :: "flow_config \<Rightarrow> bool" where
  "reserve_fails cfg \<longleftrightarrow> unat (of_nat (target_depth cfg + fc_warmup_ops cfg + fc_ops cfg) :: 64 word) > vector_max kOpBytes"

definition generate :: "flow_config \<Rightarrow> (string + flow) option" where
  "generate cfg =
     Option.bind (generator_new cfg)
       (\<lambda>r. case r of Inl e \<Rightarrow> Some (Inl e)
           | Inr g \<Rightarrow> if reserve_fails cfg then Some (Inl ''vector::reserve'') else map_option Inr (gen_run g))"

end
