(* ===== verification/Flow_Replay.thy ===== *)
theory Flow_Replay
  imports Flow
begin

section \<open>Driving the engine with a flow\<close>

text \<open>
  What applying an operation and draining the ring does (\<open>drive\<close>), in terms of the price-time specification. The
  trade hash of a driven book depends on the specification's book alone, which is why a flow replays on any other
  configuration of the engine. The number of trades per operation is bounded by the number of lots it asks for.
\<close>

subsection \<open>A drained book and its specification\<close>

definition as_op :: "flow_op \<Rightarrow> op" where
  "as_op x = \<lparr>op_what = (case fo_kind x of Add \<Rightarrow> AddLimit | CancelOp \<Rightarrow> Cancel | ModifyOp \<Rightarrow> Modify
       | Marketable \<Rightarrow> if fo_market x then AddMarket else AddLimit),
     op_id = fo_id x, op_owner = fo_owner x, op_side = fo_side x, op_price = fo_price x, op_qty = fo_qty x\<rparr>"

lemma apply_op_step: "apply_op x b = engine_step (as_op x) b"
  by (simp add: apply_op_def engine_step_def as_op_def split: flow_kind.split)

text \<open>The book \<open>b\<close> shows \<open>A\<close>, has room for \<open>n\<close> more operations, and its ring of capacity \<open>c\<close> is empty with \<open>d\<close> drops.\<close>

definition drained :: "nat \<Rightarrow> nat \<Rightarrow> book \<Rightarrow> spec_book \<Rightarrow> 64 word \<Rightarrow> bool" where
  "drained c n b A d \<longleftrightarrow> (\<exists>Q. book_rel b Q A) \<and> book_size b + n \<le> 2 ^ 31 \<and> ring_list (trade_out b) = [] \<and>
     ring_capacity (trade_out b) = c \<and> drop_count (trade_out b) = d"

type_synonym hashed = "spec_book \<times> 64 word \<times> 64 word"

definition spec_drive :: "nat \<Rightarrow> hashed \<Rightarrow> flow_op \<Rightarrow> hashed" where
  "spec_drive c s x =
     (case s of (A, h, d) \<Rightarrow>
        (case spec_step (as_op x) A of
           (rep, ts, A') \<Rightarrow> (A', foldl hash_trade h (take c ts), d + of_nat (length ts - c))))"

lemma drainedE:
  assumes "drained c n b A d"
  obtains Q where "book_rel b Q A" "ring_inv (trade_out b)"
  using assms book_wfD(3) book_relD(1) unfolding drained_def by blast

lemma drive_returns:
  assumes dr: "drained c (Suc n) b A d" and st: "spec_step (as_op x) A = (rep, ts, A')"
  shows "\<exists>b' fills. drive x (b, h) = Some ((b', foldl hash_trade h (take c ts)), fills) \<and>
    drained c n b' A' (d + of_nat (length ts - c))"
proof -
  obtain Q where rel: "book_rel b Q A" and inv: "ring_inv (trade_out b)" using drainedE [OF dr] .
  have room: "book_size b < 2 ^ 31" using dr by (simp add: drained_def)
  from engine_step_returns [OF rel room st] obtain b1 Q' where b1: "engine_step (as_op x) b = Some (rep, b1)"
      "trade_out b1 = push_all ts (trade_out b)" "book_rel b1 Q' A'" by blast
  note burst = ring.push_many [OF inv, of ts]
  obtain r where r: "drain_trades (trade_out b1) = Some (ring_list (trade_out b1), r)" "ring_inv r" "ring_list r = []"
      "ring_capacity r = ring_capacity (trade_out b1)" "drop_count r = drop_count (trade_out b1)"
    using drain_trades_returns [of "trade_out b1"] burst b1(2) by auto
  have "book_size b1 + n \<le> 2 ^ 31"
    using spec_step_length [OF st] dr book_size_spec(1) [OF rel] book_size_spec(1) [OF b1(3)] by (simp add: drained_def)
  then have "drained c n (b1\<lparr>trade_out := r\<rparr>) A' (d + of_nat (length ts - c))"
    using book_rel_ring [OF b1(3) r(2)] r burst b1(2) dr by (auto simp: drained_def book_size_def)
  then show ?thesis using b1(1,2) r(1) burst dr by (auto simp: drive_def apply_op_step drained_def)
qed

text \<open>The sequence of operations of a flow, driven in order.\<close>

fun drive_all :: "flow_op list \<Rightarrow> book \<times> 64 word \<Rightarrow> (book \<times> 64 word) option" where
  "drive_all [] s = Some s"
| "drive_all (x # xs) s = Option.bind (drive x s) (\<lambda>(s', fills). drive_all xs s')"

lemma drive_all_returns:
  assumes "drained c (length xs + n) b A d" and "foldl (spec_drive c) (A, h, d) xs = (A', h', d')"
  shows "\<exists>b'. drive_all xs (b, h) = Some (b', h') \<and> drained c n b' A' d'"
  using assms
proof (induction xs arbitrary: b A h d)
  case (Cons x xs)
  obtain rep ts A1 where st: "spec_step (as_op x) A = (rep, ts, A1)" by (cases "spec_step (as_op x) A") auto
  from drive_returns [OF Cons.prems(1) [simplified] st] obtain b1 fills where b1:
    "drive x (b, h) = Some ((b1, foldl hash_trade h (take c ts)), fills)" "drained c (length xs + n) b1 A1 (d + of_nat (length ts - c))"
    by fastforce
  from Cons.IH [OF b1(2)] Cons.prems(2) st show ?case by (auto simp: spec_drive_def b1(1))
qed simp

lemma drained_new:
  assumes "allocatable cfg"
  obtains b ring where "book_new cfg = Some b" "trade_ring_new (trade_capacity cfg) = Some (Inr ring)"
    "unat (trade_capacity cfg) \<le> ring_capacity ring" "n \<le> 2 ^ 31 \<Longrightarrow> drained (ring_capacity ring) n b (spec_new (self_trade cfg)) 0"
proof -
  obtain b where b: "book_new cfg = Some b" "book_rel b no_orders (spec_new (self_trade cfg))"
      "ring_list (trade_out b) = []" "unat (trade_capacity cfg) \<le> ring_capacity (trade_out b)" "drop_count (trade_out b) = 0"
    using book_new_refines [OF assms] by blast
  then show thesis
    using that [OF b(1) book_new_ring [OF b(1)] b(4)] book_size_spec(1) [OF b(2)]
b(2,3,5) by (auto simp: drained_def spec_ids_def spec_new_def)
qed

subsection \<open>Trades are counted by lots\<close>

text \<open>
  When every quantity in the book and the taker's own are multiples of the lot, so is every fill: an operation of \<open>k\<close>
  lots makes at most \<open>k\<close> trades.
\<close>

abbreviation lot_order :: "nat \<Rightarrow> resting_order \<Rightarrow> bool" where
  "lot_order u r \<equiv> u dvd unat (res_qty r) \<and> res_qty r \<noteq> 0"

definition in_lots :: "nat \<Rightarrow> spec_book \<Rightarrow> bool" where
  "in_lots u A \<longleftrightarrow> (\<forall>sd. \<forall>r\<in>set (spec_orders A sd). lot_order u r)"

lemma unat_fill: "unat (fill_qty i m) = min (unat (ord_qty i)) (unat (res_qty m))"
  by (simp add: fill_qty_def min_def word_le_nat_alt)

lemma sweep_lots:
  assumes "sweep pol lim os i rep seq = (os', i', rep', ts)" and "0 < u"
    and "u dvd unat (ord_qty i)" and "\<forall>r\<in>set os. lot_order u r"
  shows "u dvd unat (ord_qty i') \<and> (\<forall>r\<in>set os'. lot_order u r) \<and>
    u * length ts + unat (ord_qty i') \<le> unat (ord_qty i)"
  using assms
proof (induction rule: sweep_induct)
  case (consume m ms i rep seq os' i' rep' ts)
  have q: "unat (ord_qty i - fill_qty i m) = unat (ord_qty i) - unat (res_qty m)" "unat (res_qty m) \<le> unat (ord_qty i)"
    using fill_qty_le [of i m] consume(4) by (simp_all add: unat_sub word_le_nat_alt)
  have "u dvd unat (res_qty m)" "0 < unat (res_qty m)" using consume.prems by (simp_all add: unat_gt_0)
  then have "u \<le> unat (res_qty m)" by (rule dvd_imp_le)
  moreover have "u dvd unat (ord_qty i) - unat (res_qty m)" using consume.prems by (intro dvd_diff_nat) simp_all
  ultimately have "u dvd unat (ord_qty i') \<and> (\<forall>r\<in>set os'. lot_order u r) \<and>
      u * length ts + unat (ord_qty i') \<le> unat (ord_qty i) - unat (res_qty m)"
    using consume.IH consume.prems(1,3) q(1) by simp
  moreover from this have "u + u * length ts + unat (ord_qty i') \<le> unat (ord_qty i)"
    using \<open>u \<le> unat (res_qty m)\<close> q(2) by linarith
  ultimately show ?case by simp
next
  case (part m ms i rep seq)
  have q: "unat (res_qty m - fill_qty i m) = unat (res_qty m) - unat (ord_qty i)"
    using fill_qty_le(2) [of i m] part(5) by (simp add: unat_sub word_le_nat_alt)
  have "u dvd unat (ord_qty i)" "0 < unat (ord_qty i)" using part(1) part.prems(2) by (simp_all add: unat_gt_0)
  then have "u \<le> unat (ord_qty i)" by (rule dvd_imp_le)
  moreover have "u dvd unat (res_qty m) - unat (ord_qty i)" using part.prems by (intro dvd_diff_nat) simp_all
  moreover have "res_qty m - fill_qty i m \<noteq> 0" using part(4) by simp
  ultimately show ?case using part(5) part.prems q by simp
qed auto

lemma rank_insert_set: "set (rank_insert bid x ys) = insert x (set ys)"
proof -
  have "set (takeWhile P zs) \<union> set (dropWhile P zs) = set zs" for P :: "resting_order \<Rightarrow> bool" and zs
    by (metis set_append takeWhile_dropWhile_id)
  then show ?thesis unfolding rank_insert_def by (metis Un_insert_right list.simps(15) set_append)
qed

lemma spec_submit_lots:
  assumes sp: "spec_submit k owner sd lim qty rest A = (rep, ts, A')" and u: "0 < u" "u dvd unat qty" "in_lots u A"
  shows "in_lots u A' \<and> u * length ts \<le> unat qty"
proof (cases "qty = 0 \<or> spec_find k A \<noteq> None")
  case True
  then show ?thesis using sp spec_submit_rejected [OF True] u(3) by auto
next
  case False
  define i where "i = \<lparr>ord_id = k, ord_owner = owner, ord_price = (case lim of None \<Rightarrow> 0 | Some p \<Rightarrow> p),
    ord_qty = qty, ord_side = sd\<rparr>"
  obtain os i1 r us where sw: "sweep (spec_policy A) lim (spec_orders A (opposite sd)) i new_report (spec_seq A) = (os, i1, r, us)"
    by (cases "sweep (spec_policy A) lim (spec_orders A (opposite sd)) i new_report (spec_seq A)") auto
  have qi: "ord_qty i = qty" by (simp add: i_def)
  have d: "u dvd unat (ord_qty i)" using u(2) qi by metis
  have l: "u dvd unat (ord_qty i1)" "\<forall>r\<in>set os. lot_order u r" "u * length us + unat (ord_qty i1) \<le> unat qty"
    using sweep_lots [OF sw u(1) d] u(3) qi unfolding in_lots_def by metis+
  define A1 where "A1 = A\<lparr>spec_orders := (spec_orders A)(opposite sd := os), spec_seq := spec_seq A + of_nat (length us)\<rparr>"
  let ?x = "\<lparr>res_id = k, res_price = ord_price i1, res_qty = ord_qty i1, res_owner = owner\<rparr>"
  have A1: "in_lots u A1" using u(3) l(2) by (auto simp: in_lots_def A1_def)
  have "\<forall>r\<in>set (rank_insert (is_bid sd) ?x (spec_orders A1 sd)). lot_order u r" if "ord_qty i1 > 0"
    using l(1) that A1 unfolding rank_insert_set in_lots_def by (simp add: word_gt_0)
  then have "in_lots u (A1\<lparr>spec_orders := (spec_orders A1)(sd := rank_insert (is_bid sd) ?x (spec_orders A1 sd))\<rparr>)" if "ord_qty i1 > 0"
    using A1 that by (simp add: in_lots_def)
  moreover have "ts = us" "A' = A1 \<or> ord_qty i1 > 0 \<and> A' = A1\<lparr>spec_orders := (spec_orders A1)(sd := rank_insert (is_bid sd) ?x (spec_orders A1 sd))\<rparr>"
    using spec_submit_accepted [OF _ _ i_def sw A1_def refl, of rest] False unfolding sp by (metis Pair_inject)+
  ultimately show ?thesis using A1 l(3) by auto
qed

lemma spec_cancel_lots: "in_lots u A \<Longrightarrow> in_lots u (snd (spec_cancel k A))"
  unfolding in_lots_def spec_cancel_def by simp blast

lemma spec_step_lots:
  assumes st: "spec_step x A = (rep, ts, A')" and u: "0 < u" "u dvd unat (op_qty x)" "in_lots u A"
  shows "in_lots u A' \<and> u * length ts \<le> unat (op_qty x)"
proof (cases "op_what x")
  case Cancel
  then show ?thesis using st spec_cancel_lots [OF u(3), of "op_id x"] by (auto simp: spec_step_def split: prod.splits)
next
  case Modify
  note c = spec_cancel_lots [OF u(3), of "op_id x"]
  show ?thesis
  proof (cases "spec_find (op_id x) A = None \<or> op_qty x = 0")
    case True
    then show ?thesis using st Modify u(3) c by (auto simp: spec_step_def spec_modify_def split: option.splits)
  next
    case False
    then obtain y where "spec_find (op_id x) A = Some y" by auto
    with False have "spec_submit (op_id x) (ord_owner y) (ord_side y) (Some (op_price x)) (op_qty x) True
        (snd (spec_cancel (op_id x) A)) = (rep, ts, A')"
      using st Modify by (auto simp: spec_step_def spec_modify_def)
    then show ?thesis using spec_submit_lots [OF _ u(1,2) c] by blast
  qed
qed (use st spec_submit_lots [OF _ u] in \<open>auto simp: spec_step_def\<close>)

text \<open>A flow whose operations ask for at most \<open>c\<close> lots each never drops a trade.\<close>

lemma no_drops:
  assumes "list_all (\<lambda>x. u dvd unat (fo_qty x) \<and> unat (fo_qty x) \<le> u * c) xs" and "0 < u" and "in_lots u A"
  shows "\<exists>A' h'. foldl (spec_drive c) (A, h, d) xs = (A', h', d) \<and> in_lots u A'"
  using assms
proof (induction xs arbitrary: A h)
  case (Cons x xs)
  obtain rep ts A1 where st: "spec_step (as_op x) A = (rep, ts, A1)" by (cases "spec_step (as_op x) A") auto
  have q: "op_qty (as_op x) = fo_qty x" by (simp add: as_op_def)
  have A1: "in_lots u A1" "u * length ts \<le> u * c"
    using spec_step_lots [OF st Cons.prems(2)] Cons.prems(1,3) q by auto
  then have "length ts \<le> c" using Cons.prems(2) by simp
  then have "spec_drive c (A, h, d) x = (A1, foldl hash_trade h (take c ts), d)" by (simp add: spec_drive_def st)
  then show ?case using Cons.IH [OF _ Cons.prems(2) A1(1)] Cons.prems(1) by simp
qed simp

end
