(* ===== verification/Flow_Properties.thy ===== *)
theory Flow_Properties
  imports Flow_Replay
begin

section \<open>Correctness of the flow generator\<close>

text \<open>
  The generator's book is at every moment the book that its own operations produce, so that a recorded flow replays
  to the same trades. Each turn of its three loops emits exactly one operation; that is the contract
  \<^verbatim>\<open>generator_step\<close>, interpreted for the depth-building adds, the warm-up and the timed steps.
\<close>

subsection \<open>What one turn does\<close>

definition whole_lots :: "flow_config \<Rightarrow> nat \<Rightarrow> quantity \<Rightarrow> bool" where
  "whole_lots cfg n q \<longleftrightarrow> (\<exists>k\<le>n. q = fc_lot cfg * of_nat k)"

abbreviation lots_op :: "flow_config \<Rightarrow> flow_op \<Rightarrow> bool" where
  "lots_op cfg x \<equiv> whole_lots cfg 1280 (fo_qty x)"

lemma whole_lots_mono: "whole_lots cfg m q \<Longrightarrow> m \<le> n \<Longrightarrow> whole_lots cfg n q"
  unfolding whole_lots_def using le_trans by blast

lemma whole_lots_zero [simp]: "whole_lots cfg n 0"
  unfolding whole_lots_def by (rule exI [of _ 0]) simp

lemma whole_lots_add: "whole_lots cfg m p \<Longrightarrow> whole_lots cfg n q \<Longrightarrow> whole_lots cfg (m + n) (p + q)"
proof -
  assume "whole_lots cfg m p" "whole_lots cfg n q"
  then obtain j k where "j \<le> m" "p = fc_lot cfg * of_nat j" "k \<le> n" "q = fc_lot cfg * of_nat k"
    unfolding whole_lots_def by blast
  then have "j + k \<le> m + n \<and> p + q = fc_lot cfg * of_nat (j + k)" by (simp add: distrib_left)
  then show ?thesis unfolding whole_lots_def by blast
qed

abbreviation kind_count :: "flow_kind \<Rightarrow> flow_op list \<Rightarrow> nat" where
  "kind_count k xs \<equiv> length (filter (\<lambda>x. fo_kind x = k) xs)"

definition gen_inv :: "nat \<Rightarrow> nat \<Rightarrow> generator \<Rightarrow> bool" where
  "gen_inv c n g \<longleftrightarrow> (\<exists>A d. drained c n (g_book g) A d \<and>
     foldl (spec_drive c) (spec_new (fc_self_trade (g_cfg g)), kHashSeed, 0) (fl_ops (g_out g)) = (A, g_trade_hash g, d))"

text \<open>\<open>g'\<close> has emitted \<open>k\<close> more operations than \<open>g\<close>.\<close>

definition emits :: "nat \<Rightarrow> generator \<Rightarrow> generator \<Rightarrow> bool" where
  "emits k g g' \<longleftrightarrow> g_cfg g' = g_cfg g \<and> g_timing g' = g_timing g \<and> fl_build (g_out g') = fl_build (g_out g) \<and>
     fl_warmup (g_out g') = fl_warmup (g_out g) \<and>
     (\<exists>xs. fl_ops (g_out g') = fl_ops (g_out g) @ xs \<and> length xs = k \<and> list_all (lots_op (g_cfg g)) xs \<and>
        st_count (fl_stats (g_out g')) =
          (\<lambda>j. st_count (fl_stats (g_out g)) j + (if g_timing g then kind_count j xs else 0)))"

lemma emits_refl [simp]: "emits 0 g g"
  by (simp add: emits_def fun_eq_iff)

lemma emitsE:
  assumes "emits k g g'"
  obtains xs where "fl_ops (g_out g') = fl_ops (g_out g) @ xs" "length xs = k" "list_all (lots_op (g_cfg g)) xs"
    "st_count (fl_stats (g_out g')) = (\<lambda>j. st_count (fl_stats (g_out g)) j + (if g_timing g then kind_count j xs else 0))"
  using assms unfolding emits_def by blast

lemma emits_trans:
  assumes "emits j g g1" and "emits k g1 g2"
  shows "emits (j + k) g g2"
proof -
  have f: "g_cfg g1 = g_cfg g" "g_timing g1 = g_timing g" using assms by (simp_all add: emits_def)
  obtain xs where xs: "fl_ops (g_out g1) = fl_ops (g_out g) @ xs" "length xs = j" "list_all (lots_op (g_cfg g)) xs"
    "st_count (fl_stats (g_out g1)) = (\<lambda>j. st_count (fl_stats (g_out g)) j + (if g_timing g then kind_count j xs else 0))"
    using emitsE [OF assms(1)] .
  obtain ys where ys: "fl_ops (g_out g2) = fl_ops (g_out g1) @ ys" "length ys = k" "list_all (lots_op (g_cfg g)) ys"
    "st_count (fl_stats (g_out g2)) = (\<lambda>j. st_count (fl_stats (g_out g1)) j + (if g_timing g then kind_count j ys else 0))"
    using emitsE [OF assms(2)] unfolding f .
  have "fl_ops (g_out g2) = fl_ops (g_out g) @ (xs @ ys) \<and> length (xs @ ys) = j + k \<and> list_all (lots_op (g_cfg g)) (xs @ ys) \<and>
    st_count (fl_stats (g_out g2)) = (\<lambda>j. st_count (fl_stats (g_out g)) j + (if g_timing g then kind_count j (xs @ ys) else 0))"
    using xs ys by (simp add: fun_eq_iff)
  then show ?thesis using assms unfolding emits_def by auto
qed

lemma gen_inv_frame [simp]:
  "gen_inv c n (g\<lparr>g_rng := s\<rparr>) = gen_inv c n g" "gen_inv c n (g\<lparr>g_live := ids\<rparr>) = gen_inv c n g"
  "gen_inv c n (g\<lparr>g_next_id := k\<rparr>) = gen_inv c n g" "gen_inv c n (g\<lparr>g_mid := p\<rparr>) = gen_inv c n g"
  "gen_inv c n (g\<lparr>g_steps := m\<rparr>) = gen_inv c n g" "gen_inv c n (g\<lparr>g_spread_hist := xs\<rparr>) = gen_inv c n g"
  by (simp_all add: gen_inv_def)

lemma emits_frame [simp]:
  "emits k (g\<lparr>g_rng := s\<rparr>) g' = emits k g g'" "emits k (g\<lparr>g_live := ids\<rparr>) g' = emits k g g'"
  "emits k (g\<lparr>g_next_id := j\<rparr>) g' = emits k g g'" "emits k (g\<lparr>g_mid := p\<rparr>) g' = emits k g g'"
  "emits k g (g'\<lparr>g_live := ids\<rparr>) = emits k g g'" "emits k g (g'\<lparr>g_steps := m\<rparr>) = emits k g g'"
  "emits k g (g'\<lparr>g_spread_hist := xs\<rparr>) = emits k g g'"
  by (simp_all add: emits_def)

lemma gen_inv_mono: "gen_inv c n g \<Longrightarrow> m \<le> n \<Longrightarrow> gen_inv c m g"
  by (fastforce simp: gen_inv_def drained_def)

lemma emit_returns:
  assumes inv: "gen_inv c (Suc n) g" and x: "lots_op (g_cfg g) x"
  shows "\<exists>g'. emit x g = Some g' \<and> gen_inv c n g' \<and> emits 1 g g'"
proof -
  obtain A d where dr: "drained c (Suc n) (g_book g) A d"
    and run: "foldl (spec_drive c) (spec_new (fc_self_trade (g_cfg g)), kHashSeed, 0) (fl_ops (g_out g)) = (A, g_trade_hash g, d)"
    using inv by (auto simp: gen_inv_def)
  obtain rep ts A' where st: "spec_step (as_op x) A = (rep, ts, A')" by (cases "spec_step (as_op x) A") auto
  from drive_returns [OF dr st, of "g_trade_hash g"] obtain b fills where b:
    "drive x (g_book g, g_trade_hash g) = Some ((b, foldl hash_trade (g_trade_hash g) (take c ts)), fills)"
    "drained c n b A' (d + of_nat (length ts - c))" by blast
  define g' where "g' = the (emit x g)"
  have e: "emit x g = Some g'" by (simp add: g'_def emit_def b(1) Let_def)
  have "spec_drive c (A, g_trade_hash g, d) x = (A', foldl hash_trade (g_trade_hash g) (take c ts), d + of_nat (length ts - c))"
    by (simp add: spec_drive_def st)
  then have "gen_inv c n g'" using b(2) run by (auto simp: gen_inv_def g'_def emit_def b(1) Let_def)
  moreover have "emits 1 g g'" using x
    by (auto simp: emits_def g'_def emit_def b(1) Let_def fun_eq_iff)
  ultimately show ?thesis using e by blast
qed

lemma gen_inv_find:
  assumes "gen_inv c n g"
  shows "find_order k (g_book g) \<noteq> None"
  using assms find_order_refines by (fastforce simp: gen_inv_def drained_def)

subsection \<open>Quantities are whole lots\<close>

lemma random_qty_lots:
  assumes "random_qty cfg s = (q, s')"
  shows "whole_lots cfg 20 q"
proof -
  obtain k where g: "geometric (size_decay_percent cfg) 19 s = (k, s')" "q = fc_lot cfg * (1 + k)"
    using assms by (auto simp: random_qty_def split: prod.splits)
  have "k \<le> 19" using geometric_le [of "size_decay_percent cfg" 19 s] g(1) by simp
  then have "Suc (unat k) \<le> 20" by (simp add: word_le_nat_alt)
  moreover have "q = fc_lot cfg * of_nat (Suc (unat k))" using g(2) by simp
  ultimately show ?thesis unfolding whole_lots_def by blast
qed

lemma sum_qty_lots: "sum_qty cfg n p s = (q, s') \<Longrightarrow> whole_lots cfg m p \<Longrightarrow> whole_lots cfg (m + 20 * n) q"
proof (induction n arbitrary: m p s)
  case (Suc n)
  obtain r s1 where r: "random_qty cfg s = (r, s1)" by (cases "random_qty cfg s")
  have "whole_lots cfg (m + 20) (p + r)" using Suc.prems(2) random_qty_lots [OF r] by (rule whole_lots_add)
  from Suc.IH [OF _ this] show ?case using Suc.prems(1) r by (simp add: add.assoc)
qed simp

lemma takes_loop_le: "takes \<le> 64 \<Longrightarrow> takes_loop pull takes s = (n, s') \<Longrightarrow> n \<le> 64"
proof (induction pull takes s rule: takes_loop.induct)
  case (1 pull takes s)
  obtain c s1 where "chance_per_mille (min pull 950) s = (c, s1)" by (cases "chance_per_mille (min pull 950) s")
  then show ?case using 1 by (auto simp: takes_loop.simps [of pull takes s] split: if_splits)
qed

lemma marketable_qty:
  assumes "takes_loop pull 1 s = (n, s1)" and "sum_qty cfg n 0 s1 = (q, s2)"
  shows "whole_lots cfg 1280 q"
  using whole_lots_mono [OF sum_qty_lots [OF assms(2), of 0]] takes_loop_le [OF _ assms(1)] by simp

lemma random_qty_lots_op: "random_qty cfg s = (q, s') \<Longrightarrow> whole_lots cfg 1280 q"
  by (rule whole_lots_mono [OF random_qty_lots]) simp_all

subsection \<open>Each operation of the generator returns and emits one operation\<close>

lemma gen_add_returns:
  assumes "gen_inv c (Suc n) g"
  shows "\<exists>g'. gen_add sd g = Some g' \<and> gen_inv c n g' \<and> emits 1 g g'"
proof -
  let ?k = "g_next_id g"
  obtain p s1 where p: "passive_price sd (g\<lparr>g_next_id := ?k + 1\<rparr>) = (p, s1)" by (cases "passive_price sd (g\<lparr>g_next_id := ?k + 1\<rparr>)")
  obtain q s2 where q: "random_qty (g_cfg g) s1 = (q, s2)" by (cases "random_qty (g_cfg g) s1")
  obtain ow s3 where o': "random_owner (g_cfg g) s2 = (ow, s3)" by (cases "random_owner (g_cfg g) s2")
  let ?x = "\<lparr>fo_id = ?k, fo_price = p, fo_qty = q, fo_owner = ow, fo_kind = Add, fo_side = sd, fo_market = False\<rparr>"
  have "\<exists>g'. emit ?x (g\<lparr>g_next_id := ?k + 1, g_rng := s3\<rparr>) = Some g' \<and> gen_inv c n g' \<and> emits 1 (g\<lparr>g_next_id := ?k + 1, g_rng := s3\<rparr>) g'"
    by (rule emit_returns) (use assms random_qty_lots_op [OF q] in simp_all)
  then show ?thesis by (auto simp: gen_add_def Let_def p q o')
qed

lemma gen_add_random_returns:
  assumes "gen_inv c (Suc n) g"
  shows "\<exists>g'. gen_add_random g = Some g' \<and> gen_inv c n g' \<and> emits 1 g g'"
proof -
  obtain sd s where "random_side (g_rng g) = (sd, s)" by (cases "random_side (g_rng g)")
  then show ?thesis using gen_add_returns [of c n "g\<lparr>g_rng := s\<rparr>" sd] assms by (simp add: gen_add_random_def)
qed

lemma gen_take:
  assumes "gen_inv c n g"
  obtains r ids s where "live_take (g_cfg g) (g_book g) (g_live g) (g_rng g) = Some (r, ids, s)"
    "r = None \<or> (\<exists>k x. r = Some k \<and> find_order k (g_book g) = Some (Some x))"
proof -
  obtain r ids s where t: "live_take (g_cfg g) (g_book g) (g_live g) (g_rng g) = Some (r, ids, s)"
    "case r of None \<Rightarrow> ids = [] | Some k \<Rightarrow> k \<in> set (g_live g) \<and> find_order k (g_book g) \<noteq> Some None"
    using live_take_spec [OF gen_inv_find [OF assms], of "g_cfg g" "g_live g" "g_rng g"] by blast
  have "\<exists>x. find_order k (g_book g) = Some (Some x)" if "r = Some k" for k
    using t(2) that gen_inv_find [OF assms, of k] by (cases "find_order k (g_book g)") auto
  then show thesis using that [OF t(1)] by (cases r) auto
qed

lemma gen_cancel_returns:
  assumes inv: "gen_inv c (Suc n) g"
  shows "\<exists>g'. gen_cancel g = Some g' \<and> gen_inv c n g' \<and> emits 1 g g'"
proof -
  obtain r ids s where t: "live_take (g_cfg g) (g_book g) (g_live g) (g_rng g) = Some (r, ids, s)" using gen_take [OF inv] by blast
  let ?g = "g\<lparr>g_live := ids, g_rng := s\<rparr>"
  have i: "gen_inv c (Suc n) ?g" using inv by simp
  show ?thesis
  proof (cases r)
    case None
    then show ?thesis using gen_add_random_returns [OF i] t by (simp add: gen_cancel_def)
  next
    case (Some k)
    have "\<exists>g'. emit \<lparr>fo_id = k, fo_price = 0, fo_qty = 0, fo_owner = 0, fo_kind = CancelOp, fo_side = Buy, fo_market = False\<rparr> ?g = Some g' \<and>
        gen_inv c n g' \<and> emits 1 ?g g'"
      by (rule emit_returns [OF i]) simp
    then show ?thesis using t Some by (simp add: gen_cancel_def)
  qed
qed

lemma gen_modify_returns:
  assumes inv: "gen_inv c (Suc n) g"
  shows "\<exists>g'. gen_modify g = Some g' \<and> gen_inv c n g' \<and> emits 1 g g'"
proof -
  obtain r ids s where t: "live_take (g_cfg g) (g_book g) (g_live g) (g_rng g) = Some (r, ids, s)"
    "r = None \<or> (\<exists>k x. r = Some k \<and> find_order k (g_book g) = Some (Some x))" using gen_take [OF inv] by blast
  let ?g = "g\<lparr>g_live := ids, g_rng := s\<rparr>"
  have i: "gen_inv c (Suc n) ?g" using inv by simp
  show ?thesis
  proof (cases r)
    case None
    then show ?thesis using gen_add_random_returns [OF i] t(1) by (simp add: gen_modify_def)
  next
    case (Some k)
    then obtain x where x: "find_order k (g_book g) = Some (Some x)" using t(2) by auto
    obtain p s1 where p: "passive_price (ord_side x) ?g = (p, s1)" by (cases "passive_price (ord_side x) ?g")
    obtain q s2 where q: "random_qty (g_cfg g) s1 = (q, s2)" by (cases "random_qty (g_cfg g) s1")
    let ?x = "\<lparr>fo_id = k, fo_price = p, fo_qty = q, fo_owner = 0, fo_kind = ModifyOp, fo_side = ord_side x, fo_market = False\<rparr>"
    have "\<exists>g'. emit ?x (?g\<lparr>g_rng := s2\<rparr>) = Some g' \<and> gen_inv c n g' \<and> emits 1 (?g\<lparr>g_rng := s2\<rparr>) g'"
      by (rule emit_returns) (use i random_qty_lots_op [OF q] in simp_all)
    then show ?thesis using t(1) Some x p q by (auto simp: gen_modify_def Let_def)
  qed
qed

lemma marketable_returns:
  assumes inv: "gen_inv c (Suc n) g"
  shows "\<exists>g'. marketable g = Some g' \<and> gen_inv c n g' \<and> emits 1 g g'"
proof -
  obtain sd s1 where sd: "random_side (g_rng g) = (sd, s1)" by (cases "random_side (g_rng g)")
  obtain m s2 where m: "takes_loop (take_pull (g_cfg g) (book_size (g_book g))) 1 s1 = (m, s2)"
    by (cases "takes_loop (take_pull (g_cfg g) (book_size (g_book g))) 1 s1")
  obtain q s3 where q: "sum_qty (g_cfg g) m 0 s2 = (q, s3)" by (cases "sum_qty (g_cfg g) m 0 s2")
  define touch where "touch = (if sd = Buy then best_ask (g_book g) else best_bid (g_book g))"
  obtain mk s4 where mk: "(case touch of None \<Rightarrow> (True, s3) | Some _ \<Rightarrow> chance 50 s3) = (mk, s4)"
    by (cases "case touch of None \<Rightarrow> (True, s3) | Some _ \<Rightarrow> chance 50 s3")
  obtain p s5 where p: "(if mk then (0, s4) else (case below 3 s4 of (through, s5) \<Rightarrow>
      ((case touch of None \<Rightarrow> 0 | Some t \<Rightarrow> if sd = Buy then t + through else t - through), s5))) = (p, s5)"
    by (cases "if mk then (0, s4) else (case below 3 s4 of (through, s5) \<Rightarrow>
      ((case touch of None \<Rightarrow> 0 | Some t \<Rightarrow> if sd = Buy then t + through else t - through), s5))")
  obtain ow s6 where ow: "random_owner (g_cfg g) s5 = (ow, s6)" by (cases "random_owner (g_cfg g) s5")
  let ?x = "\<lparr>fo_id = g_next_id g, fo_price = p, fo_qty = q, fo_owner = ow, fo_kind = Marketable, fo_side = sd, fo_market = mk\<rparr>"
  let ?g = "g\<lparr>g_rng := s6, g_next_id := g_next_id g + 1\<rparr>"
  have "lots_op (g_cfg ?g) ?x" using marketable_qty [OF m q] by simp
  then obtain g1 where g1: "emit ?x ?g = Some g1" "gen_inv c n g1" "emits 1 g g1"
    using emit_returns [of c n ?g ?x] inv by auto
  obtain f where f: "find_order (g_next_id g) (g_book g1) = Some f" using gen_inv_find [OF g1(2)] by blast
  have "marketable g = Some (if mk \<or> f = None then g1 else g1\<lparr>g_live := g_live g1 @ [g_next_id g]\<rparr>)"
    unfolding marketable_def Let_def sd prod.case m q touch_def [symmetric] mk p ow by (simp add: g1(1) f)
  then show ?thesis using g1 by simp
qed

subsection \<open>The loops\<close>

lemma live_sweep_returns:
  assumes "\<And>k. find_order k b \<noteq> None"
  shows "\<exists>ids'. live_sweep b ids = Some ids' \<and> set ids' = {k \<in> set ids. find_order k b \<noteq> Some None}"
proof (induction ids)
  case (Cons k ids)
  obtain f where "find_order k b = Some f" using assms [of k] by blast
  then show ?case using Cons by (cases f) auto
qed simp

locale generator_step =
  fixes turn :: "generator \<Rightarrow> generator option"
  assumes turn_law: "gen_inv c (Suc n) g \<Longrightarrow> \<exists>g'. turn g = Some g' \<and> gen_inv c n g' \<and> emits 1 g g'"
begin

lemma loop_law:
  assumes "gen_inv c (k + n) g"
  shows "\<exists>g'. gen_repeat k turn g = Some g' \<and> gen_inv c n g' \<and> emits k g g'"
  using assms
proof (induction k arbitrary: g)
  case (Suc k)
  then obtain g1 where g1: "turn g = Some g1" "gen_inv c (k + n) g1" "emits 1 g g1" using turn_law [of c "k + n" g] by auto
  then obtain g2 where "gen_repeat k turn g1 = Some g2" "gen_inv c n g2" "emits k g1 g2" using Suc.IH by blast
  then show ?case using g1 emits_trans [OF g1(3), of k g2] by simp
qed simp

end

interpretation building: generator_step gen_add_random
  by unfold_locales (rule gen_add_random_returns)

lemma walk_mid_frame [simp]: "gen_inv c n (walk_mid g) = gen_inv c n g" "emits k (walk_mid g) g' = emits k g g'"
  "g_cfg (walk_mid g) = g_cfg g"
  by (simp_all add: walk_mid_def split: prod.split)

interpretation mixed: generator_step gen_step
proof
  fix c n g
  assume inv: "gen_inv c (Suc n) g"
  obtain moved s1 where m: "chance_per_mille (mid_step_per_mille (g_cfg g)) (g_rng g) = (moved, s1)"
    by (cases "chance_per_mille (mid_step_per_mille (g_cfg g)) (g_rng g)")
  define g1 where "g1 = (if moved then walk_mid (g\<lparr>g_rng := s1\<rparr>) else g\<lparr>g_rng := s1\<rparr>)"
  obtain roll s2 where r: "below 100 (g_rng g1) = (roll, s2)" by (cases "below 100 (g_rng g1)")
  let ?g = "g1\<lparr>g_rng := s2\<rparr>" and ?cfg = "g_cfg g"
  have i: "gen_inv c (Suc n) ?g" and e: "emits k ?g g' = emits k g g'" for k g' using inv by (simp_all add: g1_def)
  have "\<exists>g3. (if roll < ucast (add_percent ?cfg) then gen_add_random ?g
      else if roll < ucast (add_percent ?cfg + cancel_percent ?cfg) then gen_cancel ?g
      else if roll < ucast (add_percent ?cfg + cancel_percent ?cfg + modify_percent ?cfg) then gen_modify ?g
      else marketable ?g) = Some g3 \<and> gen_inv c n g3 \<and> emits 1 g g3"
    using gen_add_random_returns [OF i] gen_cancel_returns [OF i] gen_modify_returns [OF i] marketable_returns [OF i] unfolding e
    by (simp split: if_split)
  then obtain g3 where g3: "(if roll < ucast (add_percent ?cfg) then gen_add_random ?g
      else if roll < ucast (add_percent ?cfg + cancel_percent ?cfg) then gen_cancel ?g
      else if roll < ucast (add_percent ?cfg + cancel_percent ?cfg + modify_percent ?cfg) then gen_modify ?g
      else marketable ?g) = Some g3" "gen_inv c n g3" "emits 1 g g3" by blast
  let ?g4 = "g3\<lparr>g_steps := g_steps g3 + 1\<rparr>"
  obtain ids where "live_sweep (g_book ?g4) (g_live ?g4) = Some ids"
    using live_sweep_returns [of "g_book ?g4" "g_live ?g4"] gen_inv_find [OF g3(2)] by auto
  then have "gen_step g = Some (if g_steps ?g4 mod 65536 = 0 then ?g4\<lparr>g_live := ids\<rparr> else ?g4)"
    unfolding gen_step_def Let_def m prod.case g1_def [symmetric] r g3(1) by simp
  then show "\<exists>g'. gen_step g = Some g' \<and> gen_inv c n g' \<and> emits 1 g g'" using g3(2,3) by simp
qed

lemma sample_spread_frame [simp]: "gen_inv c n (sample_spread g) = gen_inv c n g" "emits k g' (sample_spread g) = emits k g' g"
  by (simp_all add: sample_spread_def Let_def split: option.split)

interpretation timed: generator_step timed_step
proof
  fix c n g
  assume "gen_inv c (Suc n) g"
  then obtain g1 where g1: "gen_step g = Some g1" "gen_inv c n g1" "emits 1 g g1" using mixed.turn_law by blast
  then show "\<exists>g'. timed_step g = Some g' \<and> gen_inv c n g' \<and> emits 1 g g'"
    by (simp add: timed_step_def Let_def) (simp add: gen_inv_def emits_def)
qed

subsection \<open>The whole run\<close>

lemma gen_run_returns:
  assumes inv: "gen_inv c (target_depth (g_cfg g) + fc_warmup_ops (g_cfg g) + fc_ops (g_cfg g)) g"
    and fresh: "g_out g = empty_flow" "\<not> g_timing g"
  shows "\<exists>f A d. gen_run g = Some f \<and>
    length (fl_ops f) = target_depth (g_cfg g) + fc_warmup_ops (g_cfg g) + fc_ops (g_cfg g) \<and>
    fl_build f = target_depth (g_cfg g) \<and> fl_warmup f = fc_warmup_ops (g_cfg g) \<and>
    st_count (fl_stats f) = (\<lambda>k. kind_count k (drop (target_depth (g_cfg g) + fc_warmup_ops (g_cfg g)) (fl_ops f))) \<and>
    flow_hash (fl_stats f) = foldl hash_op kHashSeed (fl_ops f) \<and> list_all (lots_op (g_cfg g)) (fl_ops f) \<and>
    foldl (spec_drive c) (spec_new (fc_self_trade (g_cfg g)), kHashSeed, 0) (fl_ops f) = (A, st_trade_hash (fl_stats f), d)"
proof -
  let ?T = "target_depth (g_cfg g)" and ?W = "fc_warmup_ops (g_cfg g)" and ?N = "fc_ops (g_cfg g)"
  obtain g1 where g1: "gen_repeat ?T gen_add_random g = Some g1" "gen_inv c (?W + ?N) g1" "emits ?T g g1"
    using building.loop_law [of c ?T "?W + ?N" g] inv by (auto simp: add.assoc)
  define g2 where "g2 = g1\<lparr>g_out := (g_out g1)\<lparr>fl_build := length (fl_ops (g_out g1))\<rparr>\<rparr>"
  have "gen_inv c (?W + ?N) g2" using g1(2) by (simp add: g2_def gen_inv_def)
  then obtain g3 where g3: "gen_repeat ?W gen_step g2 = Some g3" "gen_inv c ?N g3" "emits ?W g2 g3" using mixed.loop_law by blast
  let ?out = "g_out g3"
  define g4 where "g4 = g3\<lparr>g_out := ?out\<lparr>fl_warmup := length (fl_ops ?out) - fl_build ?out,
                  fl_stats := (fl_stats ?out)\<lparr>depth_min := book_size (g_book g3)\<rparr>\<rparr>, g_timing := True\<rparr>"
  have "gen_inv c (?N + 0) g4" using g3(2) by (simp add: g4_def gen_inv_def)
  then obtain g5 where g5: "gen_repeat ?N timed_step g4 = Some g5" "gen_inv c 0 g5" "emits ?N g4 g5" using timed.loop_law by blast
  obtain A d where run: "foldl (spec_drive c) (spec_new (fc_self_trade (g_cfg g5)), kHashSeed, 0) (fl_ops (g_out g5)) = (A, g_trade_hash g5, d)"
    using g5(2) by (auto simp: gen_inv_def)
  obtain xs where "fl_ops (g_out g1) = xs" "length xs = ?T" "list_all (lots_op (g_cfg g)) xs" "st_count (fl_stats (g_out g1)) = (\<lambda>_. 0)"
    using emitsE [OF g1(3)] fresh by (auto simp: empty_flow_def)
  moreover have "g_cfg g1 = g_cfg g" "\<not> g_timing g1" using g1(3) fresh by (simp_all add: emits_def)
  ultimately have e3: "g_cfg g3 = g_cfg g" "\<not> g_timing g3" "st_count (fl_stats (g_out g3)) = (\<lambda>_. 0)" "length (fl_ops (g_out g3)) = ?T + ?W"
      "fl_build (g_out g3) = ?T" "list_all (lots_op (g_cfg g)) (fl_ops (g_out g3))"
    using g3(3) by (auto simp: emits_def g2_def)
  then have e5: "g_cfg g5 = g_cfg g" "fl_build (g_out g5) = ?T" "fl_warmup (g_out g5) = ?W" "length (fl_ops (g_out g5)) = ?T + ?W + ?N"
      "list_all (lots_op (g_cfg g)) (fl_ops (g_out g5))"
      "st_count (fl_stats (g_out g5)) = (\<lambda>k. kind_count k (drop (?T + ?W) (fl_ops (g_out g5))))"
    using g5(3) by (auto simp: emits_def g4_def)
  show ?thesis
    using g1(1) g3(1) g5(1) run e5 unfolding g2_def g4_def
    by (simp add: gen_run_def Let_def)
qed

subsection \<open>Properties\<close>

lemma kTradeCapacity_le: "kTradeCapacity \<le> 2 ^ 57" "unat kTradeCapacity = 4096"
  by (simp_all add: kTradeCapacity_def)

lemma generate_valid:
  assumes mix: "add_percent cfg + cancel_percent cfg + modify_percent cfg + marketable_percent cfg = 100"
    and start: "tail_ticks cfg + 1 < start_mid cfg"
    and bound: "target_depth cfg + fc_warmup_ops cfg + fc_ops cfg \<le> 2 ^ 31"
    and ring: "trade_ring_new kTradeCapacity = Some (Inr ring)"
  shows "\<exists>f A d. generate cfg = Some (Inr f) \<and> length (fl_ops f) = target_depth cfg + fc_warmup_ops cfg + fc_ops cfg \<and>
    fl_build f = target_depth cfg \<and> fl_warmup f = fc_warmup_ops cfg \<and>
    st_count (fl_stats f) = (\<lambda>k. kind_count k (drop (timed_begin f) (fl_ops f))) \<and>
    flow_hash (fl_stats f) = foldl hash_op kHashSeed (fl_ops f) \<and> list_all (lots_op cfg) (fl_ops f) \<and>
    foldl (spec_drive (ring_capacity ring)) (spec_new (fc_self_trade cfg), kHashSeed, 0) (fl_ops f) = (A, st_trade_hash (fl_stats f), d)"
proof -
  have c: "allocatable (shadow_config cfg)" "trade_capacity (shadow_config cfg) = kTradeCapacity"
      "self_trade (shadow_config cfg) = fc_self_trade cfg"
    using kTradeCapacity_le by (simp_all add: shadow_config_def default_config_def allocatable_def)
  obtain b where b: "book_new (shadow_config cfg) = Some b"
      "drained (ring_capacity ring) (target_depth cfg + fc_warmup_ops cfg + fc_ops cfg) b (spec_new (fc_self_trade cfg)) 0"
    using drained_new [OF c(1), of "target_depth cfg + fc_warmup_ops cfg + fc_ops cfg"] c(2,3) kTradeCapacity_le ring bound
    by auto
  define g where "g = \<lparr>g_cfg = cfg, g_rng = rng_new (fc_seed cfg), g_book = b, g_live = [], g_mid = start_mid cfg, g_next_id = 1,
                g_timing = False, g_trade_hash = kHashSeed, g_spread_hist = replicate 65 0, g_out = empty_flow, g_steps = 0\<rparr>"
  have "gen_inv (ring_capacity ring) (target_depth cfg + fc_warmup_ops cfg + fc_ops cfg) g"
    using b(2) by (simp add: gen_inv_def g_def empty_flow_def)
  from gen_run_returns [of "ring_capacity ring" g] this obtain f A d where f: "gen_run g = Some f"
      "length (fl_ops f) = target_depth cfg + fc_warmup_ops cfg + fc_ops cfg"
      "fl_build f = target_depth cfg" "fl_warmup f = fc_warmup_ops cfg"
      "st_count (fl_stats f) = (\<lambda>k. kind_count k (drop (timed_begin f) (fl_ops f)))"
      "flow_hash (fl_stats f) = foldl hash_op kHashSeed (fl_ops f)" "list_all (lots_op cfg) (fl_ops f)"
      "foldl (spec_drive (ring_capacity ring)) (spec_new (fc_self_trade cfg), kHashSeed, 0) (fl_ops f) = (A, st_trade_hash (fl_stats f), d)"
    by (auto simp: g_def timed_begin_def)
  have "generator_new cfg = Some (Inr g)" using b(1) mix start by (simp add: generator_new_def g_def)
  moreover have "\<not> reserve_fails cfg"
    using bound unat_of_nat [of "target_depth cfg + fc_warmup_ops cfg + fc_ops cfg", where 'a = 64]
    by (simp add: reserve_fails_def vector_max_def kOpBytes_def del: of_nat_add)
  ultimately have "generate cfg = Some (Inr f)" using f(1) by (simp add: generate_def)
  then show ?thesis using f by blast
qed

lemma kTradeCapacity_ring: obtains ring where "trade_ring_new kTradeCapacity = Some (Inr ring)" "4096 \<le> ring_capacity ring"
  using drained_new [of "default_config\<lparr>trade_capacity := kTradeCapacity\<rparr>"] kTradeCapacity_le
  by (auto simp: default_config_def allocatable_def)

text \<open>
  (C31) For every configuration whose mix adds up to 100, whose start price lies above the deepest tail price and that asks
  for at most \<open>2 ^ 31\<close> operations, \<^verbatim>\<open>generate\<close> returns: no engine call on the way fails. The flow has exactly
  \<^verbatim>\<open>target_depth\<close> building adds, then \<^verbatim>\<open>warmup_ops\<close> warm-up operations, then \<^verbatim>\<open>ops\<close> timed ones (one operation per turn of each
  loop, also where a cancel or modify finds nothing live), the count of each kind is the number of timed operations of it, and the
  flow hash is the hash of the operations.
\<close>

theorem generate_returns:
  assumes "add_percent cfg + cancel_percent cfg + modify_percent cfg + marketable_percent cfg = 100"
    and "tail_ticks cfg + 1 < start_mid cfg"
    and "target_depth cfg + fc_warmup_ops cfg + fc_ops cfg \<le> 2 ^ 31"
  shows "\<exists>f. generate cfg = Some (Inr f) \<and> length (fl_ops f) = target_depth cfg + fc_warmup_ops cfg + fc_ops cfg \<and>
    fl_build f = target_depth cfg \<and> fl_warmup f = fc_warmup_ops cfg \<and> timed_count f = fc_ops cfg \<and>
    (\<forall>k. st_count (fl_stats f) k = length (filter (\<lambda>x. fo_kind x = k) (drop (timed_begin f) (fl_ops f)))) \<and>
    flow_hash (fl_stats f) = foldl hash_op kHashSeed (fl_ops f)"
proof -
  obtain ring where "trade_ring_new kTradeCapacity = Some (Inr ring)" using kTradeCapacity_ring .
  from generate_valid [OF assms this] show ?thesis by (fastforce simp: timed_count_def timed_begin_def)
qed

theorem generate_returns_witness:
  "\<exists>f. generate default_flow = Some (Inr f) \<and> length (fl_ops f) = 2305000 \<and> fl_build f = 5000 \<and> timed_count f = 2000000"
  using generate_returns [of default_flow] by (auto simp: default_flow_def)

text \<open>
  (C33) An invalid configuration is rejected before anything is generated, the mix first: the two exceptions of the
  constructor, with their messages. The check of the start price adds in 64 bits: with the largest
  \<^verbatim>\<open>tail_ticks\<close> the sum wraps to 0 and every start price but 0 is accepted, although all of them lie below the deepest tail.
\<close>

theorem generate_rejects:
  "let mix = add_percent cfg + cancel_percent cfg + modify_percent cfg + marketable_percent cfg in
    (mix \<noteq> 100 \<longrightarrow> generate cfg = Some (Inl ''flow mix must sum to 100%'')) \<and>
    (mix = 100 \<and> start_mid cfg \<le> tail_ticks cfg + 1 \<longrightarrow>
       generate cfg = Some (Inl ''start_mid must sit above the deepest tail price'')) \<and>
    (mix = 100 \<and> tail_ticks cfg = - 1 \<and> start_mid cfg \<noteq> 0 \<and> target_depth cfg + fc_warmup_ops cfg + fc_ops cfg \<le> 2 ^ 31 \<longrightarrow>
       start_mid cfg \<le> tail_ticks cfg \<and> (\<exists>f. generate cfg = Some (Inr f)))"
proof -
  let ?mix = "add_percent cfg + cancel_percent cfg + modify_percent cfg + marketable_percent cfg"
  have c: "allocatable (shadow_config cfg)"
    using kTradeCapacity_le by (simp add: shadow_config_def default_config_def allocatable_def)
  obtain b where b: "book_new (shadow_config cfg) = Some b" using drained_new [OF c] .
  obtain ring where ring: "trade_ring_new kTradeCapacity = Some (Inr ring)" using kTradeCapacity_ring .
  have "\<exists>f. generate cfg = Some (Inr f)" if "?mix = 100" "tail_ticks cfg = - 1" "start_mid cfg \<noteq> 0"
    "target_depth cfg + fc_warmup_ops cfg + fc_ops cfg \<le> 2 ^ 31"
    using generate_valid [OF _ _ that(4) ring] that(1-3) by (auto simp: word_gt_0)
  then show ?thesis using b by (simp add: generate_def generator_new_def Let_def)
qed

theorem generate_rejects_witness:
  "generate (default_flow\<lparr>add_percent := 51\<rparr>) = Some (Inl ''flow mix must sum to 100%'') \<and>
   generate (default_flow\<lparr>start_mid := 101\<rparr>) = Some (Inl ''start_mid must sit above the deepest tail price'') \<and>
   (\<exists>f. generate (default_flow\<lparr>tail_ticks := - 1\<rparr>) = Some (Inr f))"
  using generate_rejects [of "default_flow\<lparr>add_percent := 51\<rparr>"] generate_rejects [of "default_flow\<lparr>start_mid := 101\<rparr>"]
    generate_rejects [of "default_flow\<lparr>tail_ticks := - 1\<rparr>"]
  by (simp add: default_flow_def Let_def)

lemma touch_of_view:
  assumes "book_rel b Q A"
  shows "(if sd = Buy then best_ask b else best_bid b) =
    map_option res_price (case spec_orders A (opposite sd) of [] \<Rightarrow> None | r # _ \<Rightarrow> Some r)"
  using best_price_refines [OF assms, of "opposite sd"]
  by (cases sd) (simp_all add: best_ask_def best_bid_def ladder_of_def is_bid_def)

lemma passive_price_behind:
  assumes pp: "passive_price sd g = (p, s)" and touch: "(if sd = Buy then best_ask (g_book g) else best_bid (g_book g)) = Some t"
    and edge: "best_ask (g_book g) \<noteq> Some 0" "best_bid (g_book g) \<noteq> Some (- 1)"
  shows "\<not> crosses sd (Some p) t"
proof -
  obtain off s' where off: "random_offset (g_cfg g) (g_rng g) = (off, s')" by (cases "random_offset (g_cfg g) (g_rng g)")
  have lt: "t - 1 < t" if "t \<noteq> 0" for t :: price using that unat_gt_0 [of t] by (simp add: word_less_nat_alt unat_minus_one)
  have gt: "t < t + 1" if "t \<noteq> - 1" for t :: price
    using lt [of "t + 1"] that by (simp add: eq_neg_iff_add_eq_0)
  show ?thesis
  proof (cases sd)
    case Buy
    then have "p < t" using pp touch edge(1) off lt [of t] by (auto simp: passive_price_def Let_def not_le split: if_splits)
    then show ?thesis using Buy by (simp add: crosses_def)
  next
    case Sell
    then have "t < p" using pp touch edge(2) off gt [of t] by (auto simp: passive_price_def Let_def not_le split: if_splits)
    then show ?thesis using Sell by (simp add: crosses_def)
  qed
qed

text \<open>
  (C32) The generator's passive orders are passive. A limit order at the price that \<^verbatim>\<open>passive_price\<close> draws returns, prints
  no trade, cancels nothing, leaves the other side as it is, and rests with its whole quantity when its id is new and its quantity is not 0;
  so only \<^verbatim>\<open>marketable()\<close> crosses. The two edges of the price range are excluded: one below an ask of 0 and one above a
  bid of \<open>2 ^ 64 - 1\<close> wrap around.
\<close>

theorem passive_orders_rest:
  assumes "reaches cfg n (g_book g)" and "n < 2 ^ 31" and "passive_price sd g = (p, s)"
    and "best_ask (g_book g) \<noteq> Some 0" and "best_bid (g_book g) \<noteq> Some (- 1)"
    and "qty \<noteq> 0" and "find_order k (g_book g) = Some None"
  shows "\<exists>rep b'. add_limit k owner sd p qty (g_book g) = ret rep b' \<and> accepted rep \<and> rested rep \<and> trade_count rep = 0 \<and>
    filled rep = 0 \<and> remaining rep = qty \<and> stp_cancelled rep = 0 \<and> \<not> stp_halted rep \<and>
    trade_out b' = trade_out (g_book g) \<and> resting_on (opposite sd) b' = resting_on (opposite sd) (g_book g)"
proof -
  let ?b = "g_book g" and ?os = "spec_orders (book_view (g_book g)) (opposite sd)"
  obtain Q where rel: "book_rel ?b Q (book_view ?b)" using reachE [OF assms(1,2)] .
  define i where "i = \<lparr>ord_id = k, ord_owner = owner, ord_price = (case Some p of None \<Rightarrow> 0 | Some p \<Rightarrow> p), ord_qty = qty, ord_side = sd\<rparr>"
  have "?os = [] \<or> \<not> crosses (ord_side i) (Some p) (res_price (hd ?os))"
    using touch_of_view [OF rel, of sd] passive_price_behind [OF assms(3) _ assms(4,5)]
    by (cases ?os) (auto simp: i_def)
  then have sw: "sweep (spec_policy (book_view ?b)) (Some p) ?os i new_report (spec_seq (book_view ?b)) = (?os, i, new_report, [])"
    by (cases ?os) (simp_all add: i_def)
  have f: "spec_find k (book_view ?b) = None" using find_order_refines [OF rel, of k] assms(7) by simp
  have pos: "ord_qty i > 0" using assms(6) by (simp add: i_def word_gt_0)
  note sp = spec_submit_accepted [OF assms(6) f i_def sw refl refl, of True]
  obtain rep ts A' where r: "spec_submit k owner sd (Some p) qty True (book_view ?b) = (rep, ts, A')"
    by (cases "spec_submit k owner sd (Some p) qty True (book_view ?b)") auto
  obtain b' where b': "submit k owner sd (Some p) qty True ?b = ret rep b'" "book_view b' = A'" "trade_out b' = push_all ts (trade_out ?b)"
    using submit_view [OF assms(1,2) _ r] by auto
  have "ts = []" "spec_orders A' (opposite sd) = ?os" "accepted rep \<and> rested rep \<and> trade_count rep = 0 \<and> filled rep = 0 \<and>
      remaining rep = qty \<and> stp_cancelled rep = 0 \<and> \<not> stp_halted rep"
    using sp pos unfolding r by (auto simp: new_report_def i_def)
  then show ?thesis using b' by (auto simp: add_limit_def resting_on_view)
qed

text \<open>On the sample book, whose asks start at 100, with the mid at 100: a bid drawn there rests.\<close>

theorem passive_orders_rest_witness:
  "\<exists>g p s rep b'. best_ask (g_book g) = Some 100 \<and> passive_price Buy g = (p, s) \<and>
     add_limit 9 5 Buy p 10 (g_book g) = ret rep b' \<and> rested rep \<and> trade_count rep = 0"
proof -
  obtain b where b: "reaches default_config 3 b" "book_view b = sample_view CancelResting" using sample_default by blast
  define g where "g = \<lparr>g_cfg = default_flow, g_rng = rng_new 1, g_book = b, g_live = [], g_mid = 100, g_next_id = 9,
                g_timing = False, g_trade_hash = kHashSeed, g_spread_hist = [], g_out = empty_flow, g_steps = 0\<rparr>"
  have g: "g_book g = b" by (simp add: g_def)
  obtain Q where rel: "book_rel b Q (book_view b)" using reachE [OF b(1)] by auto
  have t: "best_ask b = Some 100" "best_bid b = Some 99"
    using touch_of_view [OF rel, of Buy] touch_of_view [OF rel, of Sell] b(2) by simp_all
  have f: "find_order 9 b = Some None" using find_order_refines [OF rel, of 9] b(2) by (simp add: spec_find_def)
  obtain p s where p: "passive_price Buy g = (p, s)" by (cases "passive_price Buy g")
  from passive_orders_rest [of default_config 3 g Buy p s 10 9 5] show ?thesis using b(1) t f g p by auto
qed

subsection \<open>The spread statistics\<close>

lemma percentile_scan_spec:
  assumes "percentile_scan ns s seen rank = r" and "seen < rank"
  shows "case r of None \<Rightarrow> seen + sum_list ns < rank
    | Some p \<Rightarrow> s \<le> p \<and> p - s < length ns \<and> rank \<le> seen + sum_list (take (Suc (p - s)) ns) \<and> seen + sum_list (take (p - s) ns) < rank"
  using assms
proof (induction ns arbitrary: s seen)
  case (Cons n ns)
  show ?case
  proof (cases "seen + n \<ge> rank")
    case True
    then show ?thesis using Cons.prems by auto
  next
    case False
    then have "percentile_scan ns (s + 1) (seen + n) rank = r" using Cons.prems(1) by simp
    from Cons.IH [OF this] False show ?thesis
      by (auto simp: take_Cons' Suc_diff_Suc Suc_le_eq split: option.splits)
  qed
qed auto

text \<open>
  The spread percentiles are nearest-rank percentiles of the histogram: at least \<^verbatim>\<open>percent\<close> per cent of the
  sampled spreads are at most the reported one, and fewer than that are below it, so it is the least bucket with that
  property; the fall-back after the loop is never taken.
\<close>

lemma spread_percentile_nearest_rank:
  assumes "0 < percent" and "percent \<le> 100" and "0 < sum_list hist"
  shows "spread_percentile hist percent < length hist \<and>
    sum_list hist * percent \<le> 100 * sum_list (take (Suc (spread_percentile hist percent)) hist) \<and>
    100 * sum_list (take (spread_percentile hist percent) hist) < sum_list hist * percent"
proof -
  define rank where "rank = (sum_list hist * percent + 99) div 100"
  have pos: "0 < sum_list hist * percent" using assms(1,3) by simp
  then have r: "0 < rank" unfolding rank_def by linarith
  have up: "sum_list hist * percent \<le> 100 * k" if "rank \<le> k" for k using that unfolding rank_def by linarith
  have low: "100 * k < sum_list hist * percent" if "k < rank" for k using that unfolding rank_def by linarith
  have "rank \<le> sum_list hist" using mult_le_mono2 [OF assms(2), of "sum_list hist"] unfolding rank_def by linarith
  then obtain p where p: "percentile_scan hist 0 0 rank = Some p"
    using percentile_scan_spec [of hist 0 0 rank] r by (cases "percentile_scan hist 0 0 rank") auto
  then have "spread_percentile hist percent = p"
    unfolding spread_percentile_def Let_def rank_def [symmetric] if_not_P [OF less_imp_neq [OF assms(3), THEN not_sym]] by simp
  moreover have "p < length hist" "rank \<le> sum_list (take (Suc p) hist)" "sum_list (take p hist) < rank"
    using percentile_scan_spec [OF p r] by simp_all
  ultimately show ?thesis using up low by simp
qed

lemma spread_percentile_nearest_rank_witness:
  "spread_percentile [0, 7, 2, 1, 0] 50 = 1 \<and> spread_percentile [0, 7, 2, 1, 0] 99 = 3 \<and>
   100 * sum_list (take (spread_percentile [0, 7, 2, 1, 0] 99) [0, 7, 2, 1, 0]) < sum_list [0, 7, 2, 1, 0] * (99 :: nat)"
proof -
  have "spread_percentile [0, 7, 2, 1, 0] 50 = 1" "spread_percentile [0, 7, 2, 1, 0] 99 = 3"
    by (simp_all add: spread_percentile_def)
  then show ?thesis using spread_percentile_nearest_rank [of 99 "[0, 7, 2, 1, 0]"] by simp
qed

end
