(* ===== verification/Text_Numbers.thy ===== *)
theory Text_Numbers
  imports Lob_Prelude
begin

section \<open>Numbers as text\<close>

text \<open>
  What the programs around the engine use of the C and C++ library to print and read decimal numbers: \<^verbatim>\<open>std::to_string\<close>,
  \<^verbatim>\<open>strtoull\<close> and \<^verbatim>\<open>atoi\<close>, and that a printed number is read back.
\<close>

subsection \<open>Printing\<close>

text \<open>\<^verbatim>\<open>std::to_string\<close> of an unsigned number; \<^verbatim>\<open>operator<<\<close> and \<^verbatim>\<open>printf\<close> print the same digits.\<close>

fun to_string :: "nat \<Rightarrow> string" where
  "to_string n = (if n < 10 then [char_of (48 + n)] else to_string (n div 10) @ [char_of (48 + n mod 10)])"

declare to_string.simps [simp del]

text \<open>The end of a line.\<close>

definition eol :: string where
  "eol = [CHR 0x0A]"

subsection \<open>Reading\<close>

definition of_digits :: "string \<Rightarrow> nat" where
  "of_digits s = foldl (\<lambda>a c. 10 * a + (of_char c - 48)) 0 s"

definition is_space :: "char \<Rightarrow> bool" where
  "is_space c \<longleftrightarrow> (of_char c :: nat) = 32 \<or> 9 \<le> (of_char c :: nat) \<and> (of_char c :: nat) \<le> 13"

definition is_digit :: "char \<Rightarrow> bool" where
  "is_digit c \<longleftrightarrow> 48 \<le> (of_char c :: nat) \<and> (of_char c :: nat) < 58"

text \<open>The sign and the magnitude of the longest number at the start of a string, after spaces; zero when there is none.\<close>

definition signed_digits :: "string \<Rightarrow> bool \<times> nat" where
  "signed_digits s =
     (case dropWhile is_space s of
        [] \<Rightarrow> (False, 0)
      | c # cs \<Rightarrow>
          if c = CHR ''-'' then (True, of_digits (takeWhile is_digit cs))
          else if c = CHR ''+'' then (False, of_digits (takeWhile is_digit cs))
          else (False, of_digits (takeWhile is_digit (c # cs))))"

text \<open>\<^verbatim>\<open>strtoull(s, nullptr, 10)\<close> saturates, and negates a number with a minus sign in 64 bits.\<close>

definition strtoull :: "string \<Rightarrow> 64 word" where
  "strtoull s = (case signed_digits s of (neg, n) \<Rightarrow>
     if n \<ge> 2 ^ 64 then - 1 else if neg then - of_nat n else of_nat n)"

text \<open>\<^verbatim>\<open>atoi\<close> is undefined for a number that is not an \<^verbatim>\<open>int\<close>.\<close>

definition atoi :: "string \<Rightarrow> int option" where
  "atoi s = (case signed_digits s of (neg, n) \<Rightarrow>
     let i = (if neg then - int n else int n) in if - (2 ^ 31) \<le> i \<and> i < 2 ^ 31 then Some i else None)"

subsection \<open>A printed number is read back\<close>

lemma unat_of_nat64: "n < 2 ^ 64 \<Longrightarrow> unat (of_nat n :: 64 word) = n"
  by (simp add: unat_of_nat)

lemma to_string_digits: "to_string n \<noteq> [] \<and> (\<forall>c\<in>set (to_string n). 48 \<le> (of_char c :: nat) \<and> of_char c < (58 :: nat))"
proof (induction n rule: to_string.induct)
  case (1 n)
  have "48 \<le> (of_char (char_of (48 + d) :: char) :: nat) \<and> of_char (char_of (48 + d) :: char) < (58 :: nat)" if "d < 10" for d :: nat
    using that by simp
  from this [of n] this [of "n mod 10"] 1 show ?case by (subst (1 2) to_string.simps) auto
qed

lemma of_digits_to_string: "of_digits (to_string n) = n"
proof (induction n rule: to_string.induct)
  case (1 n)
  show ?case
  proof (cases "n < 10")
    case True
    then show ?thesis by (subst to_string.simps) (simp add: of_digits_def)
  next
    case False
    then show ?thesis using 1 by (subst to_string.simps) (simp add: of_digits_def)
  qed
qed

lemma signed_digits_to_string: "signed_digits (to_string n) = (False, n)"
proof -
  have digits: "\<forall>c\<in>set (to_string n). is_digit c" "to_string n \<noteq> []"
    using to_string_digits [of n] by (auto simp: is_digit_def)
  obtain c cs where c: "to_string n = c # cs" using digits(2) by (cases "to_string n") auto
  have "is_digit c" using digits(1) c by simp
  then have "\<not> is_space c" "c \<noteq> CHR ''-''" "c \<noteq> CHR ''+''" by (auto simp: is_digit_def is_space_def)
  moreover have "takeWhile is_digit (c # cs) = to_string n" using digits(1) c by (simp add: takeWhile_eq_all_conv)
  ultimately show ?thesis using of_digits_to_string [of n] by (simp add: signed_digits_def c)
qed

lemma strtoull_to_string [simp]: "n < 2 ^ 64 \<Longrightarrow> strtoull (to_string n) = of_nat n"
  by (simp add: strtoull_def signed_digits_to_string)

lemma atoi_to_string [simp]: "n < 2 ^ 31 \<Longrightarrow> atoi (to_string n) = Some (int n)"
  by (simp add: atoi_def signed_digits_to_string)

end
