(* ===== verification/Bench.thy ===== *)
theory Bench
  imports Flow_Properties Text_Numbers
begin

section \<open>The latency benchmark (\<^verbatim>\<open>bench/bench_main.cpp\<close>)\<close>

text \<open>
  The measuring part of the benchmark: the class \<^verbatim>\<open>Bench\<close>, its percentiles and what the report prints of them. The
  time-stamp counter is a parameter \<open>clock\<close>: its \<open>k\<close>-th reading is \<open>clock k\<close>, and every operation that reads it takes and
  returns the number of readings made so far. Pinning and page-fault counters do not touch the book or the samples; they, the
  CSV dump and the printing are in \<^verbatim>\<open>Bench_Host\<close>, \<^verbatim>\<open>Bench_Dump\<close> and \<^verbatim>\<open>Bench_Report\<close>.
\<close>

subsection \<open>Model: clock and samples\<close>

definition clock_step :: "(nat \<Rightarrow> 64 word) \<Rightarrow> nat \<Rightarrow> nat" where
  "clock_step clock k = unat (clock (k + 1) - clock k)"

definition clock_resolution :: "(nat \<Rightarrow> 64 word) \<Rightarrow> nat \<Rightarrow> nat" where
  "clock_resolution clock k =
     (let g = foldl (\<lambda>g i. gcd g (clock_step clock (k + 2 * i))) 0 [0..<100000] in if g = 0 then 1 else g)"

text \<open>\<^verbatim>\<open>std::nth_element\<close> followed by a read of the middle element; an empty vector has none.\<close>

definition median :: "64 word list \<Rightarrow> 64 word option" where
  "median v = (if v = [] then None else Some (sort v ! (length v div 2)))"

definition timer_overhead :: "(nat \<Rightarrow> 64 word) \<Rightarrow> nat \<Rightarrow> 64 word option" where
  "timer_overhead clock k = median (map (\<lambda>i. clock (k + 2 * i + 1) - clock (k + 2 * i)) [0..<200000])"

definition net_ticks :: "64 word \<Rightarrow> 64 word \<Rightarrow> 64 word \<Rightarrow> 64 word" where
  "net_ticks overhead t0 t1 = (let dt = t1 - t0 in if dt > overhead then dt - overhead else 0)"

subsection \<open>Model: percentiles and rows of the report\<close>

definition kPointPpm :: "nat list" where
  "kPointPpm = [500000, 990000, 999000, 999900, 1000000]"

definition kPoints :: nat where
  "kPoints = 5"

definition kKinds :: nat where
  "kKinds = 4"

definition kRows :: nat where
  "kRows = kKinds + 2"

definition kAllRow :: nat where
  "kAllRow = 0"

definition kSpinRow :: nat where
  "kSpinRow = kRows - 1"

definition kind_name :: "flow_kind \<Rightarrow> string" where
  "kind_name k = (case k of Add \<Rightarrow> ''add'' | CancelOp \<Rightarrow> ''cancel'' | ModifyOp \<Rightarrow> ''modify'' | Marketable \<Rightarrow> ''marketable'')"

definition kinds :: "flow_kind list" where
  "kinds = [Add, CancelOp, ModifyOp, Marketable]"

definition row_name :: "nat \<Rightarrow> string" where
  "row_name r =
     (if r = kAllRow then ''all'' else if r = kSpinRow then ''(spin)''
      else if r - 1 < length kinds then kind_name (kinds ! (r - 1)) else ''?'')"

text \<open>The points, and the vector, which is sorted in place.\<close>

definition percentiles :: "64 word list \<Rightarrow> 64 word list \<times> 64 word list" where
  "percentiles v =
     (if v = [] then (replicate kPoints 0, v)
      else let w = sort v in
        (map (\<lambda>ppm. let rank = (length w * ppm + 999999) div 1000000 in w ! (if rank = 0 then 0 else rank - 1)) kPointPpm, w))"

subsection \<open>Model: one run\<close>

record bench =
  bn_flow :: flow
  bn_book_cfg :: config
  bn_overhead :: "64 word"
  bn_samples :: "64 word list"
  bn_spin :: "64 word list"
  bn_by_kind :: "flow_kind \<Rightarrow> 64 word list"

record run_result =
  rr_rows :: "64 word list list"
  rr_trade_hash :: "64 word"
  rr_dropped :: "64 word"
  rr_window_base :: "price option"
  rr_opened_outside :: "64 word"
  rr_growths :: "64 word"

definition bench_new :: "flow \<Rightarrow> config \<Rightarrow> bench" where
  "bench_new f cfg = \<lparr>bn_flow = f, bn_book_cfg = cfg, bn_overhead = 0,
     bn_samples = replicate (max (fl_build f) (max (fl_warmup f) (timed_count f))) 0,
     bn_spin = replicate (timed_count f) 0, bn_by_kind = (\<lambda>_. [])\<rparr>"

definition set_overhead :: "64 word \<Rightarrow> bench \<Rightarrow> bench" where
  "set_overhead ticks be = be\<lparr>bn_overhead := ticks\<rparr>"

definition timed_call :: "flow_op \<Rightarrow> book \<Rightarrow> book option" where
  "timed_call x b =
     (case fo_kind x of
        Add \<Rightarrow> map_option snd (returned (add_limit (fo_id x) (fo_owner x) (fo_side x) (fo_price x) (fo_qty x) b))
      | CancelOp \<Rightarrow> map_option snd (returned (cancel (fo_id x) b))
      | ModifyOp \<Rightarrow> map_option snd (returned (modify (fo_id x) (fo_price x) (fo_qty x) b))
      | Marketable \<Rightarrow>
          if fo_market x then map_option snd (returned (add_market (fo_id x) (fo_owner x) (fo_side x) (fo_qty x) b))
          else map_option snd (returned (add_limit (fo_id x) (fo_owner x) (fo_side x) (fo_price x) (fo_qty x) b)))"

record timing =
  tm_book :: book
  tm_hash :: "64 word"
  tm_samples :: "64 word list"
  tm_reads :: nat

text \<open>The loop over the operations still to do, the next sample going to position \<open>j\<close>.\<close>

fun time_loop :: "(nat \<Rightarrow> 64 word) \<Rightarrow> 64 word \<Rightarrow> flow_op list \<Rightarrow> nat \<Rightarrow> timing \<Rightarrow> timing option" where
  "time_loop clock overhead [] j s = Some s"
| "time_loop clock overhead (x # xs) j s =
     do {
       let k = tm_reads s;
       b \<leftarrow> timed_call x (tm_book s);
       let samples = (tm_samples s)[j := net_ticks overhead (clock k) (clock (k + 1))];
       (ts, ring) \<leftarrow> drain_trades (trade_out b);
       time_loop clock overhead xs (j + 1)
         \<lparr>tm_book = b\<lparr>trade_out := ring\<rparr>, tm_hash = foldl hash_trade (tm_hash s) ts, tm_samples = samples, tm_reads = k + 2\<rparr>
     }"

definition time_ops :: "(nat \<Rightarrow> 64 word) \<Rightarrow> bench \<Rightarrow> nat \<Rightarrow> nat \<Rightarrow> timing \<Rightarrow> timing option" where
  "time_ops clock be start stop s = time_loop clock (bn_overhead be) (drop start (take stop (fl_ops (bn_flow be)))) 0 s"

text \<open>\<^verbatim>\<open>while (ticks_begin() - t0 < win) {}\<close>: the number of readings when it ends.\<close>

partial_function (option) spin_wait :: "(nat \<Rightarrow> 64 word) \<Rightarrow> 64 word \<Rightarrow> 64 word \<Rightarrow> nat \<Rightarrow> nat option" where
  "spin_wait clock t0 win k = (if clock k - t0 < win then spin_wait clock t0 win (k + 1) else Some (k + 1))"

fun spin_loop :: "(nat \<Rightarrow> 64 word) \<Rightarrow> 64 word \<Rightarrow> 64 word \<Rightarrow> nat \<Rightarrow> nat \<Rightarrow> (64 word list \<times> nat) option" where
  "spin_loop clock overhead win 0 k = Some ([], k)"
| "spin_loop clock overhead win (Suc n) k =
     do {
       k1 \<leftarrow> spin_wait clock (clock k) win (k + 1);
       (rest, k2) \<leftarrow> spin_loop clock overhead win n (k1 + 1);
       Some (net_ticks overhead (clock k) (clock k1) # rest, k2)
     }"

text \<open>The samples of the timed operations, sorted into one vector per kind.\<close>

definition split_kinds :: "flow_op list \<Rightarrow> 64 word list \<Rightarrow> flow_kind \<Rightarrow> 64 word list" where
  "split_kinds xs samples k = map snd (filter (\<lambda>(x, s). fo_kind x = k) (zip xs samples))"

text \<open>The rows of a run: all operations, each kind, the spin samples.\<close>

definition bench_rows :: "(flow_kind \<Rightarrow> 64 word list) \<Rightarrow> 64 word list \<Rightarrow> 64 word list \<Rightarrow> 64 word list list" where
  "bench_rows by_kind timed spin =
     fst (percentiles timed) # map (\<lambda>k. fst (percentiles (by_kind k))) kinds @ [fst (percentiles spin)]"

text \<open>What a run measures: the book after it, its trade hash, the vector of samples, the timed ones, and the spin samples, in the order taken.\<close>

record measured =
  ms_book :: book
  ms_hash :: "64 word"
  ms_samples :: "64 word list"
  ms_timed :: "64 word list"
  ms_spin :: "64 word list"

definition bench_measure :: "(nat \<Rightarrow> 64 word) \<Rightarrow> bench \<Rightarrow> measured option" where
  "bench_measure clock be =
     do {
       let f = bn_flow be;
       b \<leftarrow> book_new (bn_book_cfg be);
       s1 \<leftarrow> time_ops clock be 0 (fl_build f) \<lparr>tm_book = b, tm_hash = kHashSeed, tm_samples = bn_samples be, tm_reads = 0\<rparr>;
       s2 \<leftarrow> time_ops clock be (fl_build f) (timed_begin f) s1;
       s3 \<leftarrow> time_ops clock be (timed_begin f) (length (fl_ops f)) s2;
       let timed = take (timed_count f) (tm_samples s3);
       win \<leftarrow> median timed;
       (spin, k) \<leftarrow> spin_loop clock (bn_overhead be) win (length (bn_spin be)) (tm_reads s3);
       Some \<lparr>ms_book = tm_book s3, ms_hash = tm_hash s3, ms_samples = tm_samples s3, ms_timed = timed, ms_spin = spin\<rparr>
     }"

text \<open>What it returns, and the vectors that it leaves sorted.\<close>

definition bench_result :: "bench \<Rightarrow> measured \<Rightarrow> run_result \<times> bench" where
  "bench_result be m =
     (let f = bn_flow be; b = ms_book m; by_kind = split_kinds (drop (timed_begin f) (fl_ops f)) (ms_timed m) in
      (\<lparr>rr_rows = bench_rows by_kind (ms_timed m) (ms_spin m),
         rr_trade_hash = ms_hash m, rr_dropped = drop_count (trade_out b), rr_window_base = price_window_base b,
         rr_opened_outside = levels_opened_outside_window b,
         rr_growths = pool_growths (pool b) + ix_growths (order_index b)\<rparr>,
       be\<lparr>bn_samples := ms_samples m, bn_spin := snd (percentiles (ms_spin m)),
          bn_by_kind := (\<lambda>k. snd (percentiles (by_kind k)))\<rparr>))"

definition bench_run :: "(nat \<Rightarrow> 64 word) \<Rightarrow> bench \<Rightarrow> (run_result \<times> bench) option" where
  "bench_run clock be = map_option (bench_result be) (bench_measure clock be)"

subsection \<open>Model: the report and the check of the trade stream\<close>

text \<open>The loop that inserts a comma before every third digit from the right.\<close>

fun group_loop :: "nat \<Rightarrow> string \<Rightarrow> string" where
  "group_loop i s = (if i > 0 then group_loop (i - 3) (take i s @ '','' @ drop i s) else s)"

declare group_loop.simps [simp del]

definition grouped :: "nat \<Rightarrow> string" where
  "grouped n = (let s = to_string n in group_loop (length s - 3) s)"

text \<open>The middle of one cell over all runs, the lower one for an even number of them.\<close>

definition across_runs :: "run_result list \<Rightarrow> nat \<Rightarrow> nat \<Rightarrow> 64 word option" where
  "across_runs runs row_index point =
     (let v = sort (map (\<lambda>r. rr_rows r ! row_index ! point) runs) in
      if v = [] then None else Some (v ! ((length v - 1) div 2)))"

definition run_accepted :: "flow \<Rightarrow> run_result \<Rightarrow> bool" where
  "run_accepted f res \<longleftrightarrow> \<not> (rr_trade_hash res \<noteq> st_trade_hash (fl_stats f) \<or> rr_dropped res \<noteq> 0)"

definition bench_config :: "flow_config \<Rightarrow> bool \<Rightarrow> 64 word \<Rightarrow> config" where
  "bench_config cfg sys_alloc levels = default_config\<lparr>self_trade := fc_self_trade cfg, trade_capacity := kTradeCapacity,
     pool_nodes := \<not> sys_alloc,
     expected_orders := 2 * of_nat (target_depth cfg), price_levels := levels\<rparr>"

text \<open>The runs of \<^verbatim>\<open>main\<close>, each on a fresh book and with a clock of its own; a run whose trades differ ends the program with 1.\<close>

fun bench_runs :: "(nat \<Rightarrow> 64 word) list \<Rightarrow> bench \<Rightarrow> (nat + run_result list) option" where
  "bench_runs [] be = Some (Inr [])"
| "bench_runs (clock # clocks) be =
     do {
       (res, be') \<leftarrow> bench_run clock be;
       if \<not> run_accepted (bn_flow be) res then Some (Inl 1)
       else do {
         r \<leftarrow> bench_runs clocks be';
         Some (case r of Inl e \<Rightarrow> Inl e | Inr rs \<Rightarrow> Inr (res # rs))
       }
     }"

subsection \<open>A timed pass drives the book\<close>

lemma timed_call_apply: "timed_call x b = map_option snd (apply_op x b)"
  by (simp add: timed_call_def apply_op_def option.map_comp comp_def case_prod_unfold split: flow_kind.split)

text \<open>Whatever the clock shows, a pass leaves the book and the hash that \<open>drive_all\<close> leaves.\<close>

lemma time_loop_drives:
  assumes "drive_all xs (tm_book s, tm_hash s) = Some (b, h)"
  shows "\<exists>s'. time_loop clock overhead xs j s = Some s' \<and> tm_book s' = b \<and> tm_hash s' = h \<and>
    length (tm_samples s') = length (tm_samples s)"
  using assms
proof (induction xs arbitrary: j s)
  case (Cons x xs)
  obtain rep b1 where a: "apply_op x (tm_book s) = Some (rep, b1)"
    using Cons.prems by (cases "apply_op x (tm_book s)") (auto simp: drive_def)
  obtain ts ring where d: "drain_trades (trade_out b1) = Some (ts, ring)"
    using Cons.prems a by (cases "drain_trades (trade_out b1)") (auto simp: drive_def)
  have "drive_all xs (b1\<lparr>trade_out := ring\<rparr>, foldl hash_trade (tm_hash s) ts) = Some (b, h)"
    using Cons.prems a d by (simp add: drive_def)
  then show ?case
    using Cons.IH [of "\<lparr>tm_book = b1\<lparr>trade_out := ring\<rparr>, tm_hash = foldl hash_trade (tm_hash s) ts,
        tm_samples = (tm_samples s)[j := net_ticks overhead (clock (tm_reads s)) (clock (tm_reads s + 1))], tm_reads = tm_reads s + 2\<rparr>" "j + 1"]
    by (simp add: timed_call_apply a d Let_def)
qed auto

lemma drive_all_append: "drive_all (xs @ ys) s = Option.bind (drive_all xs s) (drive_all ys)"
proof (induction xs arbitrary: s)
  case (Cons x xs)
  then show ?case by (cases "drive x s") auto
qed simp

text \<open>The samples that a pass writes, and the readings that it takes.\<close>

definition bracket :: "64 word \<Rightarrow> (nat \<Rightarrow> 64 word) \<Rightarrow> nat \<Rightarrow> 64 word" where
  "bracket overhead clock k = net_ticks overhead (clock k) (clock (k + 1))"

lemma time_loop_samples:
  assumes "time_loop clock overhead xs j s = Some s'"
  shows "tm_reads s' = tm_reads s + 2 * length xs \<and>
    (j + length xs \<le> length (tm_samples s) \<longrightarrow> tm_samples s' =
       take j (tm_samples s) @ map (\<lambda>i. bracket overhead clock (tm_reads s + 2 * i)) [0..<length xs] @ drop (j + length xs) (tm_samples s))"
  using assms
proof (induction xs arbitrary: j s)
  case (Cons x xs)
  let ?v = "bracket overhead clock (tm_reads s)"
  obtain b where b: "timed_call x (tm_book s) = Some b" using Cons.prems by (cases "timed_call x (tm_book s)") auto
  obtain ts ring where d: "drain_trades (trade_out b) = Some (ts, ring)"
    using Cons.prems b by (cases "drain_trades (trade_out b)") auto
  let ?s1 = "\<lparr>tm_book = b\<lparr>trade_out := ring\<rparr>, tm_hash = foldl hash_trade (tm_hash s) ts,
      tm_samples = (tm_samples s)[j := ?v], tm_reads = tm_reads s + 2\<rparr>"
  have "time_loop clock overhead xs (j + 1) ?s1 = Some s'" using Cons.prems b d by (simp add: bracket_def Let_def)
  note IH = Cons.IH [OF this]
  have samples: "take (Suc j) ((tm_samples s)[j := ?v]) = take j (tm_samples s) @ [?v]" if "j < length (tm_samples s)"
    using that by (simp add: take_Suc_conv_app_nth)
  have "map (\<lambda>i. bracket overhead clock (tm_reads s + 2 * i)) [0..<length (x # xs)] =
      ?v # map (\<lambda>i. bracket overhead clock (tm_reads s + 2 + 2 * i)) [0..<length xs]"
    by (simp add: map_upt_Suc del: upt_Suc)
  then show ?case using IH samples by (auto simp del: upt_Suc)
qed simp

subsection \<open>The clock\<close>

text \<open>
  What is assumed of the time-stamp counter: from one reading to the next it never goes back, and it never stops for good. It
  may stand still over many readings and advance by any number of ticks at once, as the counters that step by 32 do. (That it
  does not go back is said of a 64-bit difference: it is below \<open>2 ^ 63\<close>.)
\<close>

definition clock_runs :: "(nat \<Rightarrow> 64 word) \<Rightarrow> bool" where
  "clock_runs clock \<longleftrightarrow> (\<forall>k. clock (k + 1) - clock k < 2 ^ 63) \<and> (\<forall>k. \<exists>j. clock (k + j) \<noteq> clock k)"

text \<open>The ticks from reading \<open>k\<close> on, added up without wrapping.\<close>

definition elapsed :: "(nat \<Rightarrow> 64 word) \<Rightarrow> nat \<Rightarrow> nat \<Rightarrow> nat" where
  "elapsed clock k j = (\<Sum>i<j. unat (clock (k + i + 1) - clock (k + i)))"

lemma elapsed_wraps: "clock (k + j) - clock k = of_nat (elapsed clock k j)"
proof (induction j)
  case (Suc j)
  have "of_nat (elapsed clock k (Suc j)) = clock (k + j) - clock k + (clock (k + Suc j) - clock (k + j))"
    unfolding Suc by (simp add: elapsed_def)
  then show ?case by simp
qed (simp add: elapsed_def)

lemma elapsed_unbounded:
  assumes "clock_runs clock"
  shows "\<exists>j. n \<le> elapsed clock k j"
proof (induction n)
  case (Suc n)
  then obtain j where j: "n \<le> elapsed clock k j" by blast
  obtain i where i: "clock (k + j + i) \<noteq> clock (k + j)" using assms unfolding clock_runs_def by blast
  have split: "elapsed clock k (j + m) = elapsed clock k j + elapsed clock (k + j) m" for m
    by (induction m) (simp_all add: elapsed_def ac_simps)
  have "elapsed clock (k + j) i \<noteq> 0"
  proof
    assume "elapsed clock (k + j) i = 0"
    then have "clock (k + j + i) - clock (k + j) = 0" using elapsed_wraps [of clock "k + j" i] by simp
    then show False using i by simp
  qed
  then show ?case using j split [of i] by (intro exI [of _ "j + i"]) linarith
qed simp

text \<open>Such a clock shows every window up to \<open>2 ^ 63\<close>: it cannot jump over all the differences that end the wait.\<close>

lemma clock_reaches:
  assumes runs: "clock_runs clock" and w: "w \<le> 2 ^ 63"
  shows "\<exists>j. w \<le> clock (k + j) - clock k"
proof -
  define j where "j = (LEAST j. unat w \<le> elapsed clock k j)"
  have j: "unat w \<le> elapsed clock k j" unfolding j_def using elapsed_unbounded [OF runs] by (rule LeastI_ex)
  have "elapsed clock k j < 2 ^ 64"
  proof (cases j)
    case (Suc i)
    then have "elapsed clock k i < unat w" using not_less_Least [of i "\<lambda>j. unat w \<le> elapsed clock k j"] by (simp add: j_def not_le)
    moreover have "unat w \<le> 2 ^ 63" using w by (simp add: word_le_nat_alt)
    moreover have "clock (k + i + 1) - clock (k + i) < 2 ^ 63" using runs unfolding clock_runs_def by blast
    then have "unat (clock (k + i + 1) - clock (k + i)) < 2 ^ 63" by (simp add: word_less_nat_alt)
    ultimately show ?thesis unfolding Suc by (simp add: elapsed_def)
  qed (simp add: elapsed_def)
  then have "unat (clock (k + j) - clock k) = elapsed clock k j" unfolding elapsed_wraps by (simp add: unat_of_nat)
  then show ?thesis using j by (intro exI [of _ j]) (simp add: word_le_nat_alt)
qed

text \<open>No bracket of two consecutive readings is as long as \<open>2 ^ 63\<close>, so no median of them is.\<close>

lemma bracket_less:
  assumes "clock_runs clock"
  shows "bracket overhead clock k < 2 ^ 63"
proof -
  have dt: "clock (k + 1) - clock k < 2 ^ 63" using assms unfolding clock_runs_def by blast
  have "x - overhead \<le> x" if "overhead < x" for x :: "64 word"
    using that by (simp add: word_le_nat_alt unat_sub_if_size word_less_nat_alt)
  then have "bracket overhead clock k \<le> clock (k + 1) - clock k" by (simp add: bracket_def net_ticks_def Let_def)
  then show ?thesis using dt by (rule le_less_trans)
qed

lemma median_in: "median v = Some w \<Longrightarrow> w \<in> set v"
proof -
  assume w: "median v = Some w"
  then have v: "v \<noteq> []" "w = sort v ! (length v div 2)" by (auto simp: median_def split: if_splits)
  then have "w \<in> set (sort v)" unfolding v(2) by (intro nth_mem) simp
  then show "w \<in> set v" by simp
qed

text \<open>The spin loop ends on a clock that runs.\<close>

lemma spin_wait_returns:
  assumes "win \<le> clock (k + j) - t0"
  shows "\<exists>k'. spin_wait clock t0 win k = Some k'"
  using assms
proof (induction j arbitrary: k)
  case 0
  then show ?case by (subst spin_wait.simps) (simp add: leD)
next
  case (Suc j)
  show ?case
  proof (cases "clock k - t0 < win")
    case True
    then show ?thesis using Suc.IH [of "k + 1"] Suc.prems spin_wait.simps [of clock t0 win k] by auto
  next
    case False
    then show ?thesis using spin_wait.simps [of clock t0 win k] by auto
  qed
qed

lemma spin_loop_returns:
  assumes "clock_runs clock" and "win \<le> 2 ^ 63"
  shows "\<exists>ss k'. spin_loop clock overhead win n k = Some (ss, k') \<and> length ss = n"
proof (induction n arbitrary: k)
  case (Suc n)
  obtain j where j: "win \<le> clock (k + j) - clock k" using clock_reaches [OF assms] by blast
  have "\<exists>k1. spin_wait clock (clock k) win (k + 1) = Some k1"
  proof (cases j)
    case 0
    then have "win = 0" using j by simp
    then show ?thesis by (subst spin_wait.simps) simp
  next
    case (Suc i)
    then show ?thesis using spin_wait_returns [of win clock "k + 1" i] j by simp
  qed
  then obtain k1 where k1: "spin_wait clock (clock k) win (k + 1) = Some k1" ..
  then show ?case using Suc.IH [of "k1 + 1"] by auto
qed simp

subsection \<open>Every run reproduces the trades of the generator\<close>

lemma drive_all_split:
  assumes "drive_all (xs @ ys) s = Some t"
  obtains r where "drive_all xs s = Some r" "drive_all ys r = Some t"
  using assms by (cases "drive_all xs s") (auto simp: drive_all_append)

lemma split_kinds_length:
  "length xs = length samples \<Longrightarrow> length (split_kinds xs samples k) = length (filter (\<lambda>x. fo_kind x = k) xs)"
  by (induction xs samples rule: list_induct2) (auto simp: split_kinds_def)

lemma percentiles_length [simp]: "length (fst (percentiles v)) = 5" "length (snd (percentiles v)) = length v"
  by (simp_all add: percentiles_def kPoints_def kPointPpm_def Let_def)

text \<open>
  What a run measures, in terms of the readings of its clock alone. Every operation takes two readings, so the bracket of
  the timed operation \<open>i\<close> is the pair of readings from \<open>2 * (timed_begin f + i)\<close> on; the spin samples come from the readings after
  those of all the operations, with the median of the timed samples as the window.
\<close>

definition measured_on :: "64 word \<Rightarrow> flow \<Rightarrow> (nat \<Rightarrow> 64 word) \<Rightarrow> measured \<Rightarrow> bool" where
  "measured_on overhead f clock m \<longleftrightarrow>
     ms_timed m = map (\<lambda>i. net_ticks overhead (clock (2 * (timed_begin f + i))) (clock (2 * (timed_begin f + i) + 1))) [0..<timed_count f] \<and>
     (\<exists>w k. median (ms_timed m) = Some w \<and> spin_loop clock overhead w (timed_count f) (2 * length (fl_ops f)) = Some (ms_spin m, k))"

text \<open>A run of the benchmark on any book configuration on which the flow can be driven.\<close>

lemma bench_measure_drives:
  assumes be: "bn_flow be = f" "length (bn_spin be) = timed_count f"
      "max (fl_build f) (max (fl_warmup f) (timed_count f)) \<le> length (bn_samples be)"
    and f: "fl_build f + fl_warmup f \<le> length (fl_ops f)" "0 < timed_count f"
    and new: "book_new (bn_book_cfg be) = Some b" and run: "drive_all (fl_ops f) (b, kHashSeed) = Some (b', h')"
    and clock: "clock_runs clock"
  shows "\<exists>m. bench_measure clock be = Some m \<and> ms_hash m = h' \<and> ms_book m = b' \<and> length (ms_timed m) = timed_count f \<and>
    length (ms_spin m) = timed_count f \<and> length (ms_samples m) = length (bn_samples be) \<and> measured_on (bn_overhead be) f clock m"
proof -
  let ?B = "fl_build f" and ?T = "timed_begin f" and ?ops = "fl_ops f"
  have T: "?B \<le> ?T" "?T \<le> length ?ops" using f(1) by (simp_all add: timed_begin_def)
  have "take ?B ?ops @ drop ?B (take ?T ?ops) = take ?T ?ops"
    using append_take_drop_id [of ?B "take ?T ?ops"] T(1) by (simp add: min_def)
  then have "?ops = take ?B ?ops @ (drop ?B (take ?T ?ops) @ drop ?T (take (length ?ops) ?ops))"
    unfolding append_assoc [symmetric] by simp
  then obtain r1 where r1: "drive_all (take ?B ?ops) (b, kHashSeed) = Some r1"
      "drive_all (drop ?B (take ?T ?ops) @ drop ?T (take (length ?ops) ?ops)) r1 = Some (b', h')"
    using run drive_all_split by metis
  obtain r2 where r2: "drive_all (drop ?B (take ?T ?ops)) r1 = Some r2" "drive_all (drop ?T (take (length ?ops) ?ops)) r2 = Some (b', h')"
    using drive_all_split [OF r1(2)] .
  let ?s0 = "\<lparr>tm_book = b, tm_hash = kHashSeed, tm_samples = bn_samples be, tm_reads = 0\<rparr>"
  obtain s1 where s1: "time_ops clock be 0 ?B ?s0 = Some s1" "(tm_book s1, tm_hash s1) = r1" "length (tm_samples s1) = length (bn_samples be)"
    using time_loop_drives [of "take ?B ?ops" ?s0 "fst r1" "snd r1" clock "bn_overhead be" 0] r1(1) be(1) by (auto simp: time_ops_def)
  obtain s2 where s2: "time_ops clock be ?B ?T s1 = Some s2" "(tm_book s2, tm_hash s2) = r2" "length (tm_samples s2) = length (bn_samples be)"
    using time_loop_drives [of "drop ?B (take ?T ?ops)" s1 "fst r2" "snd r2" clock "bn_overhead be" 0] r2(1) s1 be(1) by (auto simp: time_ops_def)
  obtain s3 where s3: "time_ops clock be ?T (length ?ops) s2 = Some s3" "tm_book s3 = b'" "tm_hash s3 = h'" "length (tm_samples s3) = length (bn_samples be)"
    using time_loop_drives [of "drop ?T (take (length ?ops) ?ops)" s2 b' h' clock "bn_overhead be" 0] r2(2) s2 be(1) by (auto simp: time_ops_def)
  let ?timed = "take (timed_count f) (tm_samples s3)"
  have lt: "length ?timed = timed_count f" using s3(4) be(3) by simp
  then have "?timed \<noteq> []" using f(2) by auto
  then obtain w where w: "median ?timed = Some w" by (simp add: median_def)
  have reads: "tm_reads s2 = 2 * ?T" "tm_reads s3 = 2 * length ?ops"
    using time_loop_samples [OF s1(1) [unfolded time_ops_def]] time_loop_samples [OF s2(1) [unfolded time_ops_def]]
      time_loop_samples [OF s3(1) [unfolded time_ops_def]] be(1) T by simp_all
  have timed: "?timed = map (\<lambda>i. bracket (bn_overhead be) clock (2 * ?T + 2 * i)) [0..<timed_count f]"
    using time_loop_samples [OF s3(1) [unfolded time_ops_def]] be(1,3) s2(3) reads(1) by (simp add: timed_count_def)
  have "w < 2 ^ 63" using median_in [OF w] bracket_less [OF clock] unfolding timed by auto
  then have "w \<le> 2 ^ 63" by (rule less_imp_le)
  from spin_loop_returns [OF clock this]
  obtain spin k where spin: "spin_loop clock (bn_overhead be) w (timed_count f) (tm_reads s3) = Some (spin, k)" "length spin = timed_count f"
    by blast
  have "measured_on (bn_overhead be) f clock
      \<lparr>ms_book = b', ms_hash = h', ms_samples = tm_samples s3, ms_timed = ?timed, ms_spin = spin\<rparr>"
    using w spin(1) timed by (auto simp: measured_on_def reads(2) bracket_def distrib_left)
  then show ?thesis
    using be new s1(1) s2(1) s3 w lt spin by (simp add: bench_measure_def Let_def)
qed

lemma bench_run_drives:
  assumes be: "bn_flow be = f" "length (bn_spin be) = timed_count f"
      "max (fl_build f) (max (fl_warmup f) (timed_count f)) \<le> length (bn_samples be)"
    and f: "fl_build f + fl_warmup f \<le> length (fl_ops f)" "0 < timed_count f"
    and new: "book_new (bn_book_cfg be) = Some b" and run: "drive_all (fl_ops f) (b, kHashSeed) = Some (b', h')"
    and clock: "clock_runs clock"
  shows "\<exists>res be'. bench_run clock be = Some (res, be') \<and> rr_trade_hash res = h' \<and> rr_dropped res = drop_count (trade_out b') \<and>
    length (rr_rows res) = kRows \<and> list_all (\<lambda>r. length r = kPoints) (rr_rows res) \<and>
    bn_flow be' = f \<and> bn_book_cfg be' = bn_book_cfg be \<and> length (bn_spin be') = timed_count f \<and> length (bn_samples be') = length (bn_samples be) \<and>
    (\<forall>k. length (bn_by_kind be' k) = length (filter (\<lambda>x. fo_kind x = k) (drop (timed_begin f) (fl_ops f))))"
proof -
  obtain m where m: "bench_measure clock be = Some m" "ms_hash m = h'" "ms_book m = b'" "length (ms_timed m) = timed_count f"
      "length (ms_spin m) = timed_count f" "length (ms_samples m) = length (bn_samples be)"
    using bench_measure_drives [OF be f new run clock] by blast
  have "length (split_kinds (drop (timed_begin f) (fl_ops f)) (ms_timed m) k) = length (filter (\<lambda>x. fo_kind x = k) (drop (timed_begin f) (fl_ops f)))" for k
    by (rule split_kinds_length) (use m(4) in \<open>simp add: timed_count_def\<close>)
  then show ?thesis
    using be(1) m by (simp add: bench_run_def bench_result_def bench_rows_def Let_def kinds_def kRows_def kKinds_def kPoints_def)
qed

text \<open>Flows that \<^verbatim>\<open>generate\<close> makes drop no trade on any book with the ring of \<^verbatim>\<open>kTradeCapacity\<close>.\<close>

lemma lot_bounds:
  assumes lot: "unat (fc_lot cfg) * 1280 < 2 ^ 32" and x: "lots_op cfg x"
  defines "u \<equiv> if fc_lot cfg = 0 then 1 else unat (fc_lot cfg)"
  shows "u dvd unat (fo_qty x) \<and> unat (fo_qty x) \<le> u * 1280"
proof -
  obtain k where k: "k \<le> 1280" "fo_qty x = fc_lot cfg * of_nat k" using x by (auto simp: whole_lots_def)
  have le: "unat (fc_lot cfg) * k \<le> unat (fc_lot cfg) * 1280" using k(1) by simp
  have "unat (of_nat k :: quantity) = k" using k(1) by (simp add: unat_of_nat)
  then have "unat (fo_qty x) = unat (fc_lot cfg) * k mod 2 ^ 32" using k(2) by (simp add: unat_word_ariths)
  also have "\<dots> = unat (fc_lot cfg) * k" using le_less_trans [OF le lot] by (rule mod_less)
  finally have "unat (fo_qty x) = unat (fc_lot cfg) * k" .
  then show ?thesis using le by (auto simp: u_def)
qed

lemma flow_replays:
  assumes gen: "add_percent cfg + cancel_percent cfg + modify_percent cfg + marketable_percent cfg = 100"
      "tail_ticks cfg + 1 < start_mid cfg" "target_depth cfg + fc_warmup_ops cfg + fc_ops cfg \<le> 2 ^ 31"
    and lot: "unat (fc_lot cfg) * 1280 < 2 ^ 32"
    and book: "self_trade c = fc_self_trade cfg" "trade_capacity c = kTradeCapacity" "allocatable c"
  shows "\<exists>f b b'. generate cfg = Some (Inr f) \<and> length (fl_ops f) = target_depth cfg + fc_warmup_ops cfg + fc_ops cfg \<and>
    fl_build f = target_depth cfg \<and> fl_warmup f = fc_warmup_ops cfg \<and> timed_count f = fc_ops cfg \<and>
    book_new c = Some b \<and> drive_all (fl_ops f) (b, kHashSeed) = Some (b', st_trade_hash (fl_stats f)) \<and> drop_count (trade_out b') = 0 \<and>
    (\<forall>k. st_count (fl_stats f) k = length (filter (\<lambda>x. fo_kind x = k) (drop (timed_begin f) (fl_ops f))))"
proof -
  obtain ring where ring: "trade_ring_new kTradeCapacity = Some (Inr ring)" "4096 \<le> ring_capacity ring" using kTradeCapacity_ring .
  let ?c = "ring_capacity ring" and ?N = "target_depth cfg + fc_warmup_ops cfg + fc_ops cfg"
  obtain f A d where f: "generate cfg = Some (Inr f)" "length (fl_ops f) = ?N" "fl_build f = target_depth cfg" "fl_warmup f = fc_warmup_ops cfg"
      "st_count (fl_stats f) = (\<lambda>k. kind_count k (drop (timed_begin f) (fl_ops f)))" "list_all (lots_op cfg) (fl_ops f)"
      "foldl (spec_drive ?c) (spec_new (fc_self_trade cfg), kHashSeed, 0) (fl_ops f) = (A, st_trade_hash (fl_stats f), d)"
    using generate_valid [OF gen ring(1)] by blast
  define u where "u = (if fc_lot cfg = 0 then 1 else unat (fc_lot cfg))"
  have u: "0 < u" by (simp add: u_def unat_gt_0)
  have "u * 1280 \<le> u * ?c" using ring(2) by simp
  then have "list_all (\<lambda>x. u dvd unat (fo_qty x) \<and> unat (fo_qty x) \<le> u * ?c) (fl_ops f)"
    using f(6) lot_bounds [OF lot] unfolding u_def [symmetric] list_all_iff by (meson le_trans)
  then have d: "d = 0" using no_drops [of u ?c "fl_ops f" "spec_new (fc_self_trade cfg)" kHashSeed 0] u f(7)
    by (auto simp: in_lots_def spec_new_def)
  obtain b where b: "book_new c = Some b" "drained ?c ?N b (spec_new (fc_self_trade cfg)) 0"
    using drained_new [OF book(3), of ?N] book(1,2) gen(3) ring(1) kTradeCapacity_le by auto
  have "drained ?c (length (fl_ops f) + 0) b (spec_new (fc_self_trade cfg)) 0" using b(2) f(2) by simp
  from drive_all_returns [OF this f(7)] obtain b' where "drive_all (fl_ops f) (b, kHashSeed) = Some (b', st_trade_hash (fl_stats f))"
      "drop_count (trade_out b') = 0" unfolding d drained_def by blast
  then show ?thesis using f b(1) by (auto simp: timed_count_def timed_begin_def)
qed

lemma bench_runs_accepted:
  assumes "list_all clock_runs clocks" and "bn_flow be = f" "length (bn_spin be) = timed_count f"
      "max (fl_build f) (max (fl_warmup f) (timed_count f)) \<le> length (bn_samples be)"
    and "fl_build f + fl_warmup f \<le> length (fl_ops f)" "0 < timed_count f"
    and "book_new (bn_book_cfg be) = Some b" "drive_all (fl_ops f) (b, kHashSeed) = Some (b', st_trade_hash (fl_stats f))"
      "drop_count (trade_out b') = 0"
  shows "\<exists>rs. bench_runs clocks be = Some (Inr rs) \<and> length rs = length clocks \<and>
    list_all (\<lambda>r. rr_trade_hash r = st_trade_hash (fl_stats f) \<and> rr_dropped r = 0 \<and> length (rr_rows r) = kRows) rs"
  using assms
proof (induction clocks arbitrary: be)
  case (Cons clock clocks)
  have clock: "clock_runs clock" using Cons.prems(1) by simp
  obtain res be' where r: "bench_run clock be = Some (res, be')" "rr_trade_hash res = st_trade_hash (fl_stats f)" "rr_dropped res = 0"
      "length (rr_rows res) = kRows" "bn_flow be' = f" "bn_book_cfg be' = bn_book_cfg be" "length (bn_spin be') = timed_count f"
      "length (bn_samples be') = length (bn_samples be)"
    using bench_run_drives [OF Cons.prems(2-8) clock] Cons.prems(9) by auto
  obtain rs where "bench_runs clocks be' = Some (Inr rs)" "length rs = length clocks"
      "list_all (\<lambda>r. rr_trade_hash r = st_trade_hash (fl_stats f) \<and> rr_dropped r = 0 \<and> length (rr_rows r) = kRows) rs"
    using Cons.IH [of be'] Cons.prems r by auto
  then show ?case using r Cons.prems(2) by (simp add: run_accepted_def)
qed simp

text \<open>
  For every valid flow configuration of at most \<open>2 ^ 31\<close> operations, at least one of them timed, whose lots are small
  enough that no quantity wraps, and every price array that can exist: all runs on fresh books return, whatever a clock that runs
  shows, print exactly the trades of the generator and drop none of them.
\<close>

lemma bench_config_fields:
  assumes "target_depth cfg + fc_warmup_ops cfg + fc_ops cfg \<le> 2 ^ 31" and "levels < 2 ^ 59"
  shows "self_trade (bench_config cfg sys_alloc levels) = fc_self_trade cfg"
    "trade_capacity (bench_config cfg sys_alloc levels) = kTradeCapacity" "allocatable (bench_config cfg sys_alloc levels)"
proof -
  have "unat (of_nat (target_depth cfg) :: 64 word) \<le> 2 ^ 31" using assms(1) by (simp add: unat_of_nat)
  then have "2 * of_nat (target_depth cfg) \<le> (2 ^ 57 :: 64 word)" by (simp add: word_le_nat_alt unat_word_ariths)
  then show "self_trade (bench_config cfg sys_alloc levels) = fc_self_trade cfg"
    "trade_capacity (bench_config cfg sys_alloc levels) = kTradeCapacity" "allocatable (bench_config cfg sys_alloc levels)"
    using assms(2) kTradeCapacity_le by (simp_all add: bench_config_def allocatable_def)
qed

lemma bench_accepts_every_run:
  assumes "add_percent cfg + cancel_percent cfg + modify_percent cfg + marketable_percent cfg = 100"
    and "tail_ticks cfg + 1 < start_mid cfg" and "target_depth cfg + fc_warmup_ops cfg + fc_ops cfg \<le> 2 ^ 31" and "0 < fc_ops cfg"
    and "unat (fc_lot cfg) * 1280 < 2 ^ 32" and "list_all clock_runs clocks" and "levels < 2 ^ 59"
  shows "\<exists>f rs. generate cfg = Some (Inr f) \<and>
    bench_runs clocks (set_overhead ticks (bench_new f (bench_config cfg sys_alloc levels))) = Some (Inr rs) \<and> length rs = length clocks \<and>
    list_all (\<lambda>r. rr_trade_hash r = st_trade_hash (fl_stats f) \<and> rr_dropped r = 0 \<and> length (rr_rows r) = kRows) rs"
proof -
  let ?c = "bench_config cfg sys_alloc levels"
  note c = bench_config_fields [OF assms(3,7), of sys_alloc]
  from flow_replays [OF assms(1-3,5) c] obtain f b b' where f: "generate cfg = Some (Inr f)"
      "length (fl_ops f) = target_depth cfg + fc_warmup_ops cfg + fc_ops cfg" "fl_build f = target_depth cfg"
      "fl_warmup f = fc_warmup_ops cfg" "timed_count f = fc_ops cfg" "book_new ?c = Some b"
      "drive_all (fl_ops f) (b, kHashSeed) = Some (b', st_trade_hash (fl_stats f))" "drop_count (trade_out b') = 0" by blast
  show ?thesis
    using bench_runs_accepted [OF assms(6), of "set_overhead ticks (bench_new f ?c)" f b b'] f assms(4)
    by (simp add: set_overhead_def bench_new_def)
qed

text \<open>A counter that steps by 32 once in eight readings.\<close>

definition coarse_clock :: "nat \<Rightarrow> 64 word" where
  "coarse_clock k = of_nat (32 * (k div 8))"

lemma coarse_clock_runs: "clock_runs coarse_clock"
proof -
  have "coarse_clock (k + 1) - coarse_clock k < 2 ^ 63" for k
  proof -
    have "(k + 1) div 8 = k div 8 \<or> (k + 1) div 8 = k div 8 + 1" by linarith
    then have "coarse_clock (k + 1) - coarse_clock k \<in> {0, 32}" by (auto simp: coarse_clock_def distrib_left)
    then show ?thesis by auto
  qed
  moreover have "coarse_clock (k + 8) \<noteq> coarse_clock k" for k
  proof -
    have "(k + 8) div 8 = k div 8 + 1" by simp
    then have "coarse_clock (k + 8) = coarse_clock k + 32" unfolding coarse_clock_def by (simp add: distrib_left del: div_add_self2)
    then show ?thesis by simp
  qed
  ultimately show ?thesis unfolding clock_runs_def by blast
qed

subsection \<open>Percentiles\<close>

lemma sorted_counts:
  fixes w :: "64 word list"
  assumes s: "sorted w" and i: "i < length w"
  shows "Suc i \<le> length (filter (\<lambda>x. x \<le> w ! i) w)" "length (filter (\<lambda>x. x < w ! i) w) \<le> i"
proof -
  have w: "w = take (Suc i) w @ drop (Suc i) w" "w = take i w @ drop i w" by simp_all
  have a: "x \<le> w ! i" if x: "x \<in> set (take (Suc i) w)" for x
  proof -
    obtain j where "j < length (take (Suc i) w)" "take (Suc i) w ! j = x" using x unfolding in_set_conv_nth by blast
    then have "j \<le> i" "w ! j = x" by simp_all
    then show ?thesis using sorted_nth_mono [OF s _ i] by blast
  qed
  have "length (filter (\<lambda>x. x \<le> w ! i) (take (Suc i) w)) = Suc i" using a i by (subst filter_True) auto
  then show "Suc i \<le> length (filter (\<lambda>x. x \<le> w ! i) w)"
    by (subst (2) w(1)) (simp only: filter_append length_append le_add1)
  have b: "\<not> x < w ! i" if "x \<in> set (drop i w)" for x
    using that s i by (auto simp: in_set_conv_nth not_less intro: sorted_nth_mono)
  have "filter (\<lambda>x. x < w ! i) (drop i w) = []" using b by (simp add: filter_empty_conv)
  then have "length (filter (\<lambda>x. x < w ! i) w) = length (filter (\<lambda>x. x < w ! i) (take i w))"
    by (subst w(2)) (simp only: filter_append append_Nil2)
  then show "length (filter (\<lambda>x. x < w ! i) w) \<le> i" using i length_filter_le [of "\<lambda>x. x < w ! i" "take i w"] by simp
qed

lemma filter_sort_length: "length (filter P (sort v)) = length (filter P v)"
  unfolding filter_sort length_sort ..

definition rank_of :: "nat \<Rightarrow> nat \<Rightarrow> nat" where
  "rank_of n ppm = (n * ppm + 999999) div 1000000"

lemma rank_of_bounds:
  assumes "0 < n" and "0 < ppm" and "ppm \<le> 1000000"
  shows "0 < rank_of n ppm" "rank_of n ppm \<le> n" "n * ppm \<le> 1000000 * rank_of n ppm" "1000000 * (rank_of n ppm - 1) < n * ppm"
proof -
  have "0 < n * ppm" "n * ppm \<le> n * 1000000" using assms by simp_all
  then show "0 < rank_of n ppm" "rank_of n ppm \<le> n" "n * ppm \<le> 1000000 * rank_of n ppm" "1000000 * (rank_of n ppm - 1) < n * ppm"
    unfolding rank_of_def by linarith+
qed

lemma percentile_point:
  fixes v :: "64 word list"
  assumes v: "v \<noteq> []" and ppm: "0 < ppm" "ppm \<le> 1000000"
  defines "p \<equiv> sort v ! (rank_of (length v) ppm - 1)"
  shows "p \<in> set v \<and> length v * ppm \<le> 1000000 * length (filter (\<lambda>x. x \<le> p) v) \<and>
    1000000 * length (filter (\<lambda>x. x < p) v) < length v * ppm"
proof -
  note r = rank_of_bounds [OF _ ppm, of "length v"]
  have i: "rank_of (length v) ppm - 1 < length (sort v)" using r(1,2) v by simp
  note c = sorted_counts [OF sorted_sort i, folded p_def, unfolded filter_sort_length]
  have "p \<in> set v" using nth_mem [OF i] by (simp add: p_def)
  moreover have "rank_of (length v) ppm \<le> length (filter (\<lambda>x. x \<le> p) v)" using c(1) r(1) v by simp
  then have "length v * ppm \<le> 1000000 * length (filter (\<lambda>x. x \<le> p) v)" using r(3) v by simp
  moreover have "1000000 * length (filter (\<lambda>x. x < p) v) < length v * ppm" using c(2) r(4) v by simp
  ultimately show ?thesis by blast
qed

text \<open>
  (C34) The reported points are nearest-rank percentiles, exact on the samples: for each of the five, in parts per million, at least
  that share of the samples is at most the point and less than that share is below it; every point is a sample, the points never
  decrease from p50 on, and the last one is the maximum. The vector is left sorted.
\<close>

theorem percentiles_nearest_rank:
  assumes "v \<noteq> []"
  shows "list_all2 (\<lambda>ppm p. p \<in> set v \<and> length v * ppm \<le> 1000000 * length (filter (\<lambda>x. x \<le> p) v) \<and>
      1000000 * length (filter (\<lambda>x. x < p) v) < length v * ppm) kPointPpm (fst (percentiles v)) \<and>
    sorted (fst (percentiles v)) \<and> last (fst (percentiles v)) = Max (set v) \<and> snd (percentiles v) = sort v"
proof -
  let ?p = "\<lambda>ppm. sort v ! (rank_of (length v) ppm - 1)"
  have n: "0 < length v" using assms by simp
  have e: "percentiles v = (map ?p kPointPpm, sort v)"
  proof -
    have "(if r = 0 then 0 else r - 1) = r - (1 :: nat)" for r by simp
    then show ?thesis using assms by (simp add: percentiles_def Let_def rank_of_def)
  qed
  have "sorted (map ?p kPointPpm)"
  proof -
    have "?p a \<le> ?p b" if "a \<le> b" "0 < b" "b \<le> 1000000" for a b
    proof (rule sorted_nth_mono [OF sorted_sort])
      have "rank_of (length v) a \<le> rank_of (length v) b" using that by (simp add: rank_of_def div_le_mono)
      then show "rank_of (length v) a - 1 \<le> rank_of (length v) b - 1" by simp
      show "rank_of (length v) b - 1 < length (sort v)" using rank_of_bounds(1,2) [OF n that(2,3)] by simp
    qed
    then show ?thesis by (simp add: kPointPpm_def)
  qed
  moreover have mx: "?p 1000000 = Max (set v)"
  proof (rule Max_eqI [symmetric])
    have r: "rank_of (length v) 1000000 = length v" by (simp add: rank_of_def)
    show "?p 1000000 \<in> set v" using percentile_point [OF assms, of 1000000] by simp
    fix x
    assume "x \<in> set v"
    then obtain i where "i < length (sort v)" "sort v ! i = x" by (metis in_set_conv_nth set_sort)
    then show "x \<le> ?p 1000000" using n unfolding r by (auto intro!: sorted_nth_mono)
  qed simp
  moreover have "last (map ?p kPointPpm) = Max (set v)" unfolding mx [symmetric] by (simp add: kPointPpm_def)
  moreover have "0 < ppm \<and> ppm \<le> 1000000" if "ppm \<in> set kPointPpm" for ppm using that by (auto simp: kPointPpm_def)
  then have "list_all2 (\<lambda>ppm p. p \<in> set v \<and> length v * ppm \<le> 1000000 * length (filter (\<lambda>x. x \<le> p) v) \<and>
      1000000 * length (filter (\<lambda>x. x < p) v) < length v * ppm) kPointPpm (map ?p kPointPpm)"
    using percentile_point [OF assms] by (intro list_all2_all_nthI) simp_all
  ultimately show ?thesis unfolding e fst_conv snd_conv by (intro conjI refl)
qed

theorem percentiles_nearest_rank_witness:
  "fst (percentiles [7, 3, 9, 1]) = [3, 9, 9, 9, 9] \<and> sorted (fst (percentiles [7, 3, 9, 1]))"
proof -
  have "fst (percentiles [7, 3, 9, 1]) = [3, 9, 9, 9, 9]"
    by (simp add: percentiles_def kPointPpm_def Let_def word_le_nat_alt)
  then show ?thesis using percentiles_nearest_rank [of "[7, 3, 9, 1]"] by simp
qed

subsection \<open>Numbers with thousands separators\<close>

text \<open>The loop puts a comma in front of every three digits of \<open>pre\<close>, from the right.\<close>

lemma group_loop_groups:
  assumes "pre \<noteq> []"
  shows "\<exists>g gs. group_loop (length pre - 3) (pre @ rest) = g @ concat (map (\<lambda>s. '','' @ s) gs) @ rest \<and>
    g @ concat gs = pre \<and> 0 < length g \<and> length g \<le> 3 \<and> list_all (\<lambda>s. length s = 3) gs"
  using assms
proof (induction "length pre" arbitrary: pre rest rule: less_induct)
  case less
  let ?i = "length pre - 3"
  show ?case
  proof (cases "?i > 0")
    case False
    then have "group_loop ?i (pre @ rest) = pre @ concat (map (\<lambda>s. '','' @ s) []) @ rest"
      by (subst group_loop.simps) simp
    moreover have "pre @ concat [] = pre" "0 < length pre" "length pre \<le> 3" "list_all (\<lambda>s. length s = 3) ([] :: string list)"
      using False less.prems by simp_all
    ultimately show ?thesis by blast
  next
    case True
    let ?p = "take ?i pre" and ?t = "drop ?i pre"
    have p: "length ?p < length pre" "?p \<noteq> []" "length ?p = ?i" "length ?t = 3" using True by auto
    obtain g gs where g: "group_loop (length ?p - 3) (?p @ '','' @ ?t @ rest) = g @ concat (map (\<lambda>s. '','' @ s) gs) @ '','' @ ?t @ rest"
        "g @ concat gs = ?p" "0 < length g" "length g \<le> 3" "list_all (\<lambda>s. length s = 3) gs"
      using less.hyps [OF p(1,2), of "'','' @ ?t @ rest"] by blast
    have "group_loop ?i (pre @ rest) = group_loop (length ?p - 3) (?p @ '','' @ ?t @ rest)"
      using True by (subst group_loop.simps) simp
    also have "\<dots> = g @ concat (map (\<lambda>s. '','' @ s) (gs @ [?t])) @ rest" using g(1) by simp
    finally have "group_loop ?i (pre @ rest) = g @ concat (map (\<lambda>s. '','' @ s) (gs @ [?t])) @ rest" .
    moreover have "g @ concat (gs @ [?t]) = pre" using g(2) by (simp flip: append_assoc)
    moreover have "list_all (\<lambda>s. length s = 3) (gs @ [?t])" using g(5) p(4) by simp
    ultimately show ?thesis using g(3,4) by blast
  qed
qed

text \<open>
  \<^verbatim>\<open>grouped(n)\<close> is a first group of one to three digits and then groups of three, each behind a comma; the groups together are
  the decimal digits of \<open>n\<close>, and read back they give \<open>n\<close>.
\<close>

lemma grouped_roundtrip:
  "\<exists>g gs. grouped n = g @ concat (map (\<lambda>s. '','' @ s) gs) \<and> 0 < length g \<and> length g \<le> 3 \<and>
     list_all (\<lambda>s. length s = 3) gs \<and> g @ concat gs = to_string n \<and> of_digits (filter (\<lambda>c. c \<noteq> CHR '','') (grouped n)) = n"
proof -
  have d: "to_string n \<noteq> []" "\<And>c. c \<in> set (to_string n) \<Longrightarrow> 48 \<le> (of_char c :: nat)" using to_string_digits by blast+
  obtain g gs where g: "grouped n = g @ concat (map (\<lambda>s. '','' @ s) gs)" "g @ concat gs = to_string n" "0 < length g" "length g \<le> 3"
      "list_all (\<lambda>s. length s = 3) gs"
    using group_loop_groups [OF d(1), of "[]"] by (auto simp: grouped_def Let_def)
  have "c \<noteq> CHR '',''" if "c \<in> set (g @ concat gs)" for c using d(2) [of c] that unfolding g(2) by auto
  then have keep: "filter (\<lambda>c. c \<noteq> CHR '','') (g @ concat gs) = g @ concat gs" by (rule filter_True [OF ballI])
  have "filter (\<lambda>c. c \<noteq> CHR '','') (g @ concat (map (\<lambda>s. '','' @ s) ss)) = filter (\<lambda>c. c \<noteq> CHR '','') (g @ concat ss)" for ss
    by (induction ss) auto
  from this [of gs] have "filter (\<lambda>c. c \<noteq> CHR '','') (grouped n) = to_string n" unfolding g(1) keep unfolding g(2) .
  then show ?thesis using g of_digits_to_string by metis
qed

end
