(* ===== verification/Bench_Host.thy ===== *)
theory Bench_Host
  imports Bench
begin

section \<open>What the benchmark asks of the machine (\<^verbatim>\<open>bench/bench_main.cpp\<close>)\<close>

text \<open>
  The helpers of the benchmark that look at the host: the processor to pin to and its name, the frequency report, pre-faulting of the
  heap, the mode of huge pages and the calibration of the counter. The Linux and glibc build is modelled. The host itself is a parameter: which processors the
  thread may use, whether it can be pinned and where it runs otherwise, whether a file can be opened, the first line of a file (empty when it cannot be read), and
  whether the \<open>n\<close>-th allocation succeeds, the lines of \<^verbatim>\<open>/proc/cpuinfo\<close>, and what the steady clock shows while the counter is
  calibrated.
\<close>

record host =
  host_affinity :: "(nat \<Rightarrow> bool) option"
  host_pins :: "int \<Rightarrow> bool"
  host_current :: int
  host_opens :: "string \<Rightarrow> bool"
  host_line :: "string \<Rightarrow> string"
  host_malloc :: "nat \<Rightarrow> bool"
  host_cpuinfo :: "string list"
  host_steady :: "nat \<Rightarrow> int"

subsection \<open>The default processor\<close>

definition kCpuSetSize :: nat where
  "kCpuSetSize = 1024"

fun last_set :: "(nat \<Rightarrow> bool) \<Rightarrow> nat \<Rightarrow> int" where
  "last_set cpus 0 = - 1"
| "last_set cpus (Suc c) = (if cpus c then int c else last_set cpus c)"

definition default_cpu :: "host \<Rightarrow> int" where
  "default_cpu h = (case host_affinity h of None \<Rightarrow> - 1 | Some cpus \<Rightarrow> last_set cpus kCpuSetSize)"

subsection \<open>Frequency scaling and huge pages\<close>

definition frequency_report :: "host \<Rightarrow> int \<Rightarrow> string list" where
  "frequency_report h cpu =
     (let gov = host_line h (''/sys/devices/system/cpu/cpu'' @ to_string (if cpu < 0 then 0 else nat cpu) @ ''/cpufreq/scaling_governor'') in
      if gov = [] then [''no cpufreq interface (VM or container) -- set the governor on the host'']
      else
        (let boost = host_line h ''/sys/devices/system/cpu/cpufreq/boost'';
             no_turbo = host_line h ''/sys/devices/system/cpu/intel_pstate/no_turbo'';
             (desc, boost_on) =
               (if boost \<noteq> [] then (if boost = ''1'' then '', boost on'' else '', boost off'', boost = ''1'')
                else if no_turbo \<noteq> [] then (if no_turbo = ''0'' then '', turbo on'' else '', turbo off'', no_turbo = ''0'')
                else ([], False))
         in [''governor '' @ gov @ desc] @
            (if gov \<noteq> ''performance'' then [''WARNING: clocks will vary -- sudo cpupower frequency-set -g performance''] else []) @
            (if boost_on then [''WARNING: boost clocks depend on temperature -- disable boost for A/B runs''] else [])))"

text \<open>\<^verbatim>\<open>std::string::find\<close> of a character, and the bracketed word of the setting. The length of the substring wraps when the
  brackets are in the wrong order, and \<^verbatim>\<open>substr\<close> then takes the rest of the line.\<close>

fun find_char :: "char \<Rightarrow> string \<Rightarrow> nat option" where
  "find_char c [] = None"
| "find_char c (x # xs) = (if x = c then Some 0 else map_option Suc (find_char c xs))"

definition thp_mode :: "host \<Rightarrow> string" where
  "thp_mode h =
     (let line = host_line h ''/sys/kernel/mm/transparent_hugepage/enabled'' in
      case (find_char (CHR ''['') line, find_char (CHR '']'') line) of
        (Some i, Some j) \<Rightarrow> take (unat (of_nat j - of_nat i - 1 :: 64 word)) (drop (i + 1) line)
      | _ \<Rightarrow> ''unavailable'')"

subsection \<open>The name of the processor and the calibration\<close>

text \<open>The first line that starts with \<^verbatim>\<open>model name\<close> and has a colon. \<^verbatim>\<open>substr\<close> throws, here \<open>None\<close>, when it starts past the end.\<close>

definition model_name :: "string \<Rightarrow> bool" where
  "model_name line \<longleftrightarrow> take 10 line = ''model name''"

fun cpu_model :: "string list \<Rightarrow> string option" where
  "cpu_model [] = Some ''unknown cpu''"
| "cpu_model (line # rest) =
     (if model_name line
      then (case find_char (CHR '':'') line of
          Some colon \<Rightarrow> if colon + 2 \<le> length line then Some (drop (colon + 2) line) else None
        | None \<Rightarrow> cpu_model rest)
      else cpu_model rest)"

text \<open>
  \<open>steady k\<close> is the \<open>k\<close>-th reading of the steady clock, in nanoseconds. The counter is read before and after the wait of
  200 ms, at its readings \<open>k\<close> and \<open>k + 1\<close>. The result is the two differences, whose quotient \<^verbatim>\<open>calibrate\<close> returns.
\<close>

partial_function (option) calibrate_wait :: "(nat \<Rightarrow> int) \<Rightarrow> nat \<Rightarrow> nat option" where
  "calibrate_wait steady k = (if steady k - steady 0 < 200 * 1000000 then calibrate_wait steady (k + 1) else Some (k + 1))"

definition calibration :: "(nat \<Rightarrow> int) \<Rightarrow> (nat \<Rightarrow> 64 word) \<Rightarrow> nat \<Rightarrow> (64 word \<times> int) option" where
  "calibration steady clock k = map_option (\<lambda>n. (clock (k + 1) - clock k, steady n - steady 0)) (calibrate_wait steady 1)"

subsection \<open>Pre-faulting the heap\<close>

definition kChunk :: "64 word" where
  "kChunk = push_bit 20 16"

text \<open>The number of blocks when the loop ends; \<^verbatim>\<open>amount\<close> counts the bytes asked for and is 64 bits wide.\<close>

partial_function (option) prefault_loop :: "(nat \<Rightarrow> bool) \<Rightarrow> 64 word \<Rightarrow> 64 word \<Rightarrow> nat \<Rightarrow> nat option" where
  "prefault_loop malloc goal amount n =
     (if amount < goal then (if \<not> malloc n then Some n else prefault_loop malloc goal (amount + kChunk) (n + 1)) else Some n)"

definition prefault_heap :: "host \<Rightarrow> 64 word \<Rightarrow> 64 word option" where
  "prefault_heap h mib = map_option (\<lambda>n. of_nat n * drop_bit 20 kChunk) (prefault_loop (host_malloc h) (push_bit 20 mib) 0 0)"

subsection \<open>Lemmas\<close>

lemma last_set_spec: "last_set cpus n < int n \<and> (last_set cpus n \<ge> 0 \<longrightarrow> cpus (nat (last_set cpus n))) \<and>
    (\<forall>c<n. cpus c \<longrightarrow> int c \<le> last_set cpus n) \<and> - 1 \<le> last_set cpus n"
  by (induction n) (auto simp: less_Suc_eq)

text \<open>The blocks that cover \<open>goal\<close> bytes.\<close>

definition chunks :: "64 word \<Rightarrow> nat" where
  "chunks goal = (unat goal + 16777215) div 16777216"

lemma prefault_loop_returns:
  assumes "unat goal + 16777216 \<le> 2 ^ 64" and "n \<le> chunks goal" and "amount = of_nat (n * 16777216)"
  shows "\<exists>m. prefault_loop malloc goal amount n = Some m \<and> n \<le> m \<and> m \<le> chunks goal \<and>
    ((\<forall>i<chunks goal. malloc i) \<longrightarrow> m = chunks goal) \<and> (m < chunks goal \<longrightarrow> \<not> malloc m)"
  using assms
proof (induction "chunks goal - n" arbitrary: n amount)
  case 0
  then have "n = chunks goal" by simp
  then have b: "unat goal \<le> n * 16777216" "n * 16777216 < 2 ^ 64" using 0(2) unfolding chunks_def by simp_all
  then have "\<not> amount < goal" using 0(4) unat_of_nat64 [OF b(2)] by (simp only: word_less_nat_alt not_less)
  then show ?case using \<open>n = chunks goal\<close> prefault_loop.simps [of malloc goal amount n] by simp
next
  case (Suc k)
  then have n: "n < chunks goal" by simp
  then have b: "n * 16777216 < unat goal" "n * 16777216 < 2 ^ 64" using Suc(3) unfolding chunks_def by simp_all
  then have less: "amount < goal" using Suc(5) unat_of_nat64 [OF b(2)] by (simp only: word_less_nat_alt)
  show ?case
  proof (cases "malloc n")
    case False
    then show ?thesis using less n prefault_loop.simps [of malloc goal amount n] by auto
  next
    case True
    have e: "amount + kChunk = of_nat (Suc n * 16777216)" using Suc(5) by (simp add: kChunk_def)
    have k: "k = chunks goal - Suc n" and le: "Suc n \<le> chunks goal" using Suc(2) n by simp_all
    from Suc(1) [OF k Suc(3) le e]
    obtain m where "prefault_loop malloc goal (amount + kChunk) (Suc n) = Some m" "Suc n \<le> m" "m \<le> chunks goal"
        "(\<forall>i<chunks goal. malloc i) \<longrightarrow> m = chunks goal" "m < chunks goal \<longrightarrow> \<not> malloc m" by blast
    then show ?thesis using True less prefault_loop.simps [of malloc goal amount n] by auto
  qed
qed

lemma prefault_goal:
  assumes "mib \<le> 17592186044400"
  shows "unat (push_bit 20 mib :: 64 word) = unat mib * 1048576"
proof -
  have "unat mib \<le> 17592186044400" using assms by (simp add: word_le_nat_alt)
  then have "unat mib * 1048576 < 2 ^ 64" by simp
  then show ?thesis using unat_of_nat64 [of "unat mib * 1048576"] by (simp add: push_bit_eq_mult mult.commute)
qed

text \<open>Up to \<open>2 ^ 44 - 16\<close> MiB the loop ends; when memory suffices, it covers what was asked for, rounded up to 16 MiB.\<close>

lemma prefault_heap_spec:
  assumes "mib \<le> 17592186044400"
  shows "\<exists>m. prefault_heap h mib = Some (of_nat (16 * m)) \<and> m \<le> (unat mib + 15) div 16 \<and>
    ((\<forall>i. host_malloc h i) \<longrightarrow> m = (unat mib + 15) div 16)"
proof -
  have small: "unat mib \<le> 17592186044400" using assms by (simp add: word_le_nat_alt)
  have c: "chunks (push_bit 20 mib) = (unat mib + 15) div 16"
  proof -
    have "(x * 1048576 + 16777215) div 16777216 = (x + 15) div 16" for x :: nat
    proof -
      have num: "(16777216::nat) = 1048576 * 16" by simp
      have sum: "x * 1048576 + 16777215 = 1048575 + (x + 15) * 1048576" by (simp only: add_mult_distrib)
      have "(1048575 + (x + 15) * 1048576) div 1048576 = x + 15" by (subst div_mult_self1) simp_all
      then show ?thesis unfolding sum num div_mult2_eq by (rule arg_cong)
    qed
    then show ?thesis unfolding chunks_def prefault_goal [OF assms] .
  qed
  have "unat (push_bit 20 mib) + 16777216 \<le> 2 ^ 64" unfolding prefault_goal [OF assms] using small by simp
  from prefault_loop_returns [OF this, of 0 0 "host_malloc h"] show ?thesis
    unfolding c by (auto simp: prefault_heap_def kChunk_def mult.commute)
qed

subsection \<open>The name of the processor\<close>

definition colon_line :: "string \<Rightarrow> bool" where
  "colon_line line \<longleftrightarrow> model_name line \<and> CHR '':'' \<in> set line"

lemma find_char_None: "find_char c s = None \<longleftrightarrow> c \<notin> set s"
  by (induction s) auto

lemma find_char_Some: "find_char c s = Some i \<Longrightarrow> i < length s \<and> s ! i = c \<and> c \<notin> set (take i s)"
  by (induction s arbitrary: i) (auto split: if_splits)

text \<open>The exception of \<^verbatim>\<open>cpu_model\<close>: the first line with a model name and a colon ends at that colon.\<close>

lemma cpu_model_throws:
  "cpu_model lines = None \<longleftrightarrow>
   (\<exists>pre s post. lines = pre @ (s @ '':'') # post \<and> list_all (\<lambda>l. \<not> colon_line l) pre \<and> model_name (s @ '':'') \<and> CHR '':'' \<notin> set s)"
  (is "_ \<longleftrightarrow> ?R lines")
proof (induction lines)
  case (Cons line rest)
  have skip: "?R (line # rest) \<longleftrightarrow> ?R rest" if "\<not> colon_line line"
  proof
    assume "?R (line # rest)"
    then obtain pre s post where r: "line # rest = pre @ (s @ '':'') # post" "list_all (\<lambda>l. \<not> colon_line l) pre" "model_name (s @ '':'')" "CHR '':'' \<notin> set s"
      by blast
    have "pre \<noteq> []" using that r(1,3) by (auto simp: colon_line_def)
    then obtain pre' where "pre = line # pre'" using r(1) by (cases pre) auto
    then show "?R rest" using r by auto
  next
    assume "?R rest"
    then obtain pre s post where "rest = pre @ (s @ '':'') # post" "list_all (\<lambda>l. \<not> colon_line l) pre" "model_name (s @ '':'')" "CHR '':'' \<notin> set s"
      by blast
    then show "?R (line # rest)" using that by (intro exI [of _ "line # pre"] exI [of _ s] exI [of _ post]) simp
  qed
  show ?case
  proof (cases "colon_line line")
    case False
    then have "cpu_model (line # rest) = cpu_model rest"
      by (cases "find_char (CHR '':'') line") (auto simp: colon_line_def find_char_None [symmetric])
    then show ?thesis using Cons.IH skip [OF False] by simp
  next
    case True
    then obtain i where i: "find_char (CHR '':'') line = Some i" "model_name line"
      using find_char_None [of "CHR '':''" line] by (cases "find_char (CHR '':'') line") (auto simp: colon_line_def)
    note at = find_char_Some [OF i(1)]
    have "cpu_model (line # rest) = None \<longleftrightarrow> i + 1 = length line" using i at by auto
    also have "\<dots> \<longleftrightarrow> ?R (line # rest)"
    proof
      assume "i + 1 = length line"
      then have "line = take i line @ '':''" using at take_Suc_conv_app_nth [of i line] by simp
      then show "?R (line # rest)" using at i(2) by (intro exI [of _ "[]"] exI [of _ "take i line"] exI [of _ rest]) simp
    next
      assume "?R (line # rest)"
      then obtain pre s post where r: "line # rest = pre @ (s @ '':'') # post" "list_all (\<lambda>l. \<not> colon_line l) pre" "CHR '':'' \<notin> set s"
        by blast
      have "pre = []" using True r(1,2) by (cases pre) auto
      then have s: "line = s @ '':''" using r(1) by simp
      have "i = length s"
      proof (rule ccontr)
        assume "i \<noteq> length s"
        then have "i < length s" using at s by simp
        then have "CHR '':'' \<in> set s" using at s by (metis nth_append nth_mem)
        then show False using r(3) by simp
      qed
      then show "i + 1 = length line" using s by simp
    qed
    finally show ?thesis .
  qed
qed simp

text \<open>The wait ends when the clock reaches 200 ms.\<close>

lemma calibrate_wait_returns:
  assumes "200 * 1000000 \<le> steady (k + j) - steady 0"
  shows "\<exists>n. calibrate_wait steady k = Some n"
  using assms
proof (induction j arbitrary: k)
  case (Suc j)
  then have "\<exists>n. calibrate_wait steady (k + 1) = Some n" using Suc.IH [of "k + 1"] by simp
  then show ?case by (subst calibrate_wait.simps) simp
qed (subst calibrate_wait.simps, simp)

definition reaches_200ms :: "(nat \<Rightarrow> int) \<Rightarrow> bool" where
  "reaches_200ms steady \<longleftrightarrow> (\<exists>k\<ge>1. 200 * 1000000 \<le> steady k - steady 0)"

lemma calibration_returns:
  assumes "reaches_200ms steady"
  shows "\<exists>x. calibration steady clock k = Some x"
proof -
  obtain n where n: "1 \<le> n" "200 * 1000000 \<le> steady n - steady 0" using assms unfolding reaches_200ms_def by blast
  then show ?thesis using calibrate_wait_returns [of steady 1 "n - 1"] by (auto simp: calibration_def)
qed

end
