(* ===== verification/Bench_Main.thy ===== *)
theory Bench_Main
  imports Bench_Host
begin

section \<open>The program of the benchmark (\<^verbatim>\<open>main\<close> of \<^verbatim>\<open>bench/bench_main.cpp\<close>)\<close>

text \<open>
  The command line, the order in which \<^verbatim>\<open>main\<close> builds the flow, the book configuration and the runs, its exit
  codes and exceptions, and the table of \<^verbatim>\<open>print_summary\<close>. What the operating
  system decides is the parameter \<open>host\<close>, and the time-stamp counter is one clock for the calibration (of the frequency, the
  resolution and the brackets) and one per run. What it prints is in \<^verbatim>\<open>Bench_Dump\<close> and \<^verbatim>\<open>Bench_Report\<close>.
\<close>

subsection \<open>Options\<close>

record options =
  opt_cfg :: flow_config
  opt_runs :: "64 word"
  prefault_mib :: "64 word"
  opt_cpu :: int
  system_alloc :: bool
  opt_price_levels :: "64 word"
  dump_path :: "string option"

definition default_options :: "int \<Rightarrow> options" where
  "default_options cpu = \<lparr>opt_cfg = default_flow, opt_runs = 5, prefault_mib = 64, opt_cpu = cpu,
     system_alloc = False, opt_price_levels = 4096, dump_path = None\<rparr>"

text \<open>What one argument does: it stores the argument behind it, it stands alone, or it is unknown.\<close>

datatype argument = Takes_value "string \<Rightarrow> options \<Rightarrow> options option" | Alone "options \<Rightarrow> options" | Unknown

definition argument_of :: "string \<Rightarrow> argument" where
  "argument_of a =
     (if a = ''--ops'' then Takes_value (\<lambda>v o'. Some (o'\<lparr>opt_cfg := (opt_cfg o')\<lparr>fc_ops := unat (strtoull v)\<rparr>\<rparr>))
      else if a = ''--warmup'' then Takes_value (\<lambda>v o'. Some (o'\<lparr>opt_cfg := (opt_cfg o')\<lparr>fc_warmup_ops := unat (strtoull v)\<rparr>\<rparr>))
      else if a = ''--runs'' then Takes_value (\<lambda>v o'. Some (o'\<lparr>opt_runs := strtoull v\<rparr>))
      else if a = ''--seed'' then Takes_value (\<lambda>v o'. Some (o'\<lparr>opt_cfg := (opt_cfg o')\<lparr>fc_seed := strtoull v\<rparr>\<rparr>))
      else if a = ''--depth'' then Takes_value (\<lambda>v o'. Some (o'\<lparr>opt_cfg := (opt_cfg o')\<lparr>target_depth := unat (strtoull v)\<rparr>\<rparr>))
      else if a = ''--cpu'' then Takes_value (\<lambda>v o'. map_option (\<lambda>i. o'\<lparr>opt_cpu := i\<rparr>) (atoi v))
      else if a = ''--no-pin'' then Alone (\<lambda>o'. o'\<lparr>opt_cpu := - 1\<rparr>)
      else if a = ''--prefault'' then Takes_value (\<lambda>v o'. Some (o'\<lparr>prefault_mib := strtoull v\<rparr>))
      else if a = ''--system-alloc'' then Alone (\<lambda>o'. o'\<lparr>system_alloc := True\<rparr>)
      else if a = ''--price-levels'' then Takes_value (\<lambda>v o'. Some (o'\<lparr>opt_price_levels := strtoull v\<rparr>))
      else if a = ''--dump'' then Takes_value (\<lambda>v o'. Some (o'\<lparr>dump_path := Some v\<rparr>))
      else Unknown)"

text \<open>\<open>Inl 2\<close> is the exit of \<^verbatim>\<open>usage\<close>, \<open>None\<close> the undefined result of \<^verbatim>\<open>atoi\<close>.\<close>

fun parse_args :: "string list \<Rightarrow> options \<Rightarrow> (nat + options) option" where
  "parse_args [] o' = Some (Inr o')"
| "parse_args (a # rest) o' =
     (case argument_of a of
        Takes_value f \<Rightarrow>
          (case rest of
             [] \<Rightarrow> Some (Inl 2)
           | v # rest' \<Rightarrow> (case f v o' of None \<Rightarrow> None | Some o'' \<Rightarrow> parse_args rest' o''))
      | Alone f \<Rightarrow> parse_args rest (f o')
      | Unknown \<Rightarrow> Some (Inl 2))"

subsection \<open>The program\<close>

definition row_count :: "flow \<Rightarrow> nat \<Rightarrow> nat" where
  "row_count f r =
     (if r = kAllRow \<or> r = kSpinRow then timed_count f else st_count (fl_stats f) (kinds ! (r - 1)))"

text \<open>The first table of \<^verbatim>\<open>print_summary\<close>: per row its name, its count and the median of each point over the runs, in ticks.\<close>

definition summary :: "run_result list \<Rightarrow> flow \<Rightarrow> (string \<times> string \<times> 64 word option list) list" where
  "summary runs f =
     map (\<lambda>r. (row_name r, grouped (row_count f r), map (across_runs runs r) [0..<kPoints])) [0..<kRows]"

text \<open>What \<^verbatim>\<open>main\<close> has when it starts to print: everything is built, and the brackets are calibrated.\<close>

record prepared =
  su_options :: options
  su_flow :: flow
  su_bench :: bench
  su_prefaulted :: "64 word"
  su_calibration :: "64 word \<times> int"
  su_resolution :: nat
  su_overhead :: "64 word"

record report =
  rp_options :: options
  rp_flow :: flow
  rp_cpu_name :: string
  rp_frequency :: "string list"
  rp_prefaulted :: "64 word"
  rp_calibration :: "64 word \<times> int"
  rp_resolution :: nat
  rp_overhead :: "64 word"
  rp_results :: "run_result list"
  rp_outside :: "64 word"
  rp_growths :: "64 word"
  rp_summary :: "(string \<times> string \<times> 64 word option list) list"
  rp_thp :: string

text \<open>
  How the program ends: with an exit code, by an exception that nobody catches (of the generator, with its message; of the book's
  constructor; or \<^verbatim>\<open>std::out_of_range\<close>), or with the report and the code 0.
\<close>

datatype exception = Message string | Construction fault | Out_of_range

datatype outcome = Exited nat | Uncaught exception | Reported report

text \<open>
  \<^verbatim>\<open>main\<close> up to \<^verbatim>\<open>set_overhead\<close>: the left result is an end of the program. The memory is there (\<open>book_init\<close> with a system that grants
  every block). The calibration takes the readings 0 and 1 of the counter, the resolution the next 200000, then the overhead.
\<close>

definition bench_setup :: "host \<Rightarrow> (nat \<Rightarrow> 64 word) \<Rightarrow> string list \<Rightarrow> (outcome + prepared) option" where
  "bench_setup h clock args =
     do {
       parsed \<leftarrow> parse_args args (default_options (default_cpu h));
       case parsed of Inl e \<Rightarrow> Some (Inl (Exited e))
       | Inr o' \<Rightarrow>
           (let cfg = opt_cfg o' in
            if fc_ops cfg = 0 \<or> opt_runs o' = 0 then Some (Inl (Exited 2))
            else if opt_cpu o' \<ge> 0 \<and> \<not> host_pins h (opt_cpu o') then Some (Inl (Exited 1))
            else do {
              generated \<leftarrow> generate cfg;
              case generated of Inl msg \<Rightarrow> Some (Inl (Uncaught (Message msg)))
              | Inr f \<Rightarrow>
                  (let book_cfg = bench_config cfg (system_alloc o') (opt_price_levels o') in
                   do {
                     probe_book \<leftarrow> book_init (\<lambda>_. True) book_cfg;
                     case probe_book of Inl e \<Rightarrow> Some (Inl (Uncaught (Construction e)))
                     | Inr b \<Rightarrow>
                         do {
                           let be = bench_new f book_cfg;
                           prefaulted \<leftarrow> prefault_heap h (prefault_mib o');
                           if (case dump_path o' of None \<Rightarrow> False | Some p \<Rightarrow> \<not> host_opens h p) then Some (Inl (Exited 1))
                           else do {
                             calibrated \<leftarrow> calibration (host_steady h) clock 0;
                             let resolution = clock_resolution clock 2;
                             overhead \<leftarrow> timer_overhead clock 200002;
                             Some (Inr \<lparr>su_options = o', su_flow = f, su_bench = set_overhead overhead be, su_prefaulted = prefaulted,
                               su_calibration = calibrated, su_resolution = resolution, su_overhead = overhead\<rparr>)
                           }
                         }
                   })
            })
     }"

definition make_report :: "host \<Rightarrow> prepared \<Rightarrow> string \<Rightarrow> run_result list \<Rightarrow> report" where
  "make_report h su cpu_name results =
     (let o' = su_options su in
      \<lparr>rp_options = o', rp_flow = su_flow su, rp_cpu_name = cpu_name,
       rp_frequency = frequency_report h (if opt_cpu o' \<ge> 0 then opt_cpu o' else host_current h),
       rp_prefaulted = su_prefaulted su, rp_calibration = su_calibration su, rp_resolution = su_resolution su, rp_overhead = su_overhead su,
       rp_results = results,
       rp_outside = foldl (\<lambda>m r. max m (rr_opened_outside r)) 0 results,
       rp_growths = foldl (\<lambda>m r. max m (rr_growths r)) 0 results, rp_summary = summary results (su_flow su),
       rp_thp = thp_mode h\<rparr>)"

text \<open>\<^verbatim>\<open>cpu_model\<close> is called for the second line of the report, before the first run; where it throws, there is none.\<close>

definition bench_main :: "host \<Rightarrow> (nat \<Rightarrow> 64 word) \<Rightarrow> (nat \<Rightarrow> nat \<Rightarrow> 64 word) \<Rightarrow> string list \<Rightarrow> outcome option" where
  "bench_main h clock run_clock args =
     do {
       ready \<leftarrow> bench_setup h clock args;
       case ready of Inl out \<Rightarrow> Some out
       | Inr su \<Rightarrow>
           (case cpu_model (host_cpuinfo h) of
              None \<Rightarrow> Some (Uncaught Out_of_range)
            | Some cpu_name \<Rightarrow>
                do {
                  r \<leftarrow> bench_runs (map run_clock [0..<unat (opt_runs (su_options su))]) (su_bench su);
                  Some (case r of Inl e \<Rightarrow> Exited e | Inr results \<Rightarrow> Reported (make_report h su cpu_name results))
                })
     }"

subsection \<open>Every setting can be asked for\<close>

text \<open>A command line that sets every option of \<open>o'\<close>.\<close>

definition render :: "options \<Rightarrow> string list" where
  "render o' =
     [''--ops'', to_string (fc_ops (opt_cfg o')), ''--warmup'', to_string (fc_warmup_ops (opt_cfg o')),
      ''--runs'', to_string (unat (opt_runs o')), ''--seed'', to_string (unat (fc_seed (opt_cfg o'))),
      ''--depth'', to_string (target_depth (opt_cfg o')), ''--prefault'', to_string (unat (prefault_mib o')),
      ''--price-levels'', to_string (unat (opt_price_levels o'))] @
     (if opt_cpu o' < 0 then [''--no-pin''] else [''--cpu'', to_string (nat (opt_cpu o'))]) @
     (if system_alloc o' then [''--system-alloc''] else []) @
     (case dump_path o' of None \<Rightarrow> [] | Some p \<Rightarrow> [''--dump'', p])"

text \<open>
  (C35) Every setting can be asked for and is understood: the command line that names each option of \<open>o'\<close> in decimal parses
  to exactly \<open>o'\<close>, whatever the default processor. The options are the ones with a switch: the flow configuration is the
  default one but for its size, warm-up, seed and depth, and a negative processor means not to pin.
\<close>

theorem options_roundtrip:
  assumes "opt_cfg o' = default_flow\<lparr>fc_seed := seed, fc_ops := n_ops, fc_warmup_ops := n_warmup, target_depth := depth\<rparr>"
    and "n_ops < 2 ^ 64" and "n_warmup < 2 ^ 64" and "depth < 2 ^ 64" and "- 1 \<le> opt_cpu o'" and "opt_cpu o' < 2 ^ 31"
  shows "parse_args (render o') (default_options c) = Some (Inr o')"
proof -
  have cpu: "atoi (to_string (nat (opt_cpu o'))) = Some (opt_cpu o')" if "0 \<le> opt_cpu o'" using assms(6) that by simp
  have neg: "opt_cpu o' = - 1" if "\<not> 0 \<le> opt_cpu o'" using assms(5) that by simp
  show ?thesis
    using assms(1-4) cpu neg
    by (cases o'; cases "dump_path o'"; cases "system_alloc o'"; cases "0 \<le> opt_cpu o'")
      (simp_all add: render_def default_options_def argument_of_def unat_of_nat64 unat_lt64 [simplified])
qed

theorem options_roundtrip_witness:
  "parse_args (render ((default_options 3)\<lparr>opt_runs := 2, dump_path := Some ''out.csv''\<rparr>)) (default_options 0) =
     Some (Inr ((default_options 3)\<lparr>opt_runs := 2, dump_path := Some ''out.csv''\<rparr>))"
  by (rule options_roundtrip [where seed = 1 and n_ops = 2000000 and n_warmup = 300000 and depth = 5000])
    (simp_all add: default_options_def default_flow_def)

subsection \<open>The runs and the report\<close>

text \<open>No switch touches the rest of the flow configuration.\<close>

definition same_shape :: "flow_config \<Rightarrow> flow_config \<Rightarrow> bool" where
  "same_shape cfg cfg' \<longleftrightarrow> (\<exists>seed n_ops n_warmup depth.
     cfg' = cfg\<lparr>fc_seed := seed, fc_ops := n_ops, fc_warmup_ops := n_warmup, target_depth := depth\<rparr>)"

lemma same_shape_refl: "same_shape cfg cfg"
  unfolding same_shape_def
  by (rule exI [of _ "fc_seed cfg"], rule exI [of _ "fc_ops cfg"], rule exI [of _ "fc_warmup_ops cfg"], rule exI [of _ "target_depth cfg"]) simp

lemma same_shape_trans: "same_shape a b \<Longrightarrow> same_shape b c \<Longrightarrow> same_shape a c"
  unfolding same_shape_def by (elim exE) (rule exI, rule exI, rule exI, rule exI, simp)

lemma same_shape_upd:
  "same_shape cfg (cfg\<lparr>fc_seed := s\<rparr>)" "same_shape cfg (cfg\<lparr>fc_ops := n\<rparr>)" "same_shape cfg (cfg\<lparr>fc_warmup_ops := n\<rparr>)"
  "same_shape cfg (cfg\<lparr>target_depth := n\<rparr>)"
  unfolding same_shape_def by (cases cfg, force)+

lemma argument_shape:
  "argument_of a = Takes_value f \<Longrightarrow> f v o' = Some o'' \<Longrightarrow> same_shape (opt_cfg o') (opt_cfg o'')"
  "argument_of a = Alone g \<Longrightarrow> opt_cfg (g o') = opt_cfg o'"
  by (auto simp: argument_of_def same_shape_upd same_shape_refl split: if_splits)

lemma parse_args_shape: "parse_args args o' = Some (Inr o'') \<Longrightarrow> same_shape (opt_cfg o') (opt_cfg o'')"
proof (induction args o' rule: parse_args.induct)
  case (2 a rest o')
  then show ?case
    using same_shape_trans argument_shape
    by (auto split: argument.splits list.splits option.splits) metis+
qed (auto intro: same_shape_refl)

lemma timer_overhead_returns: "\<exists>ticks. timer_overhead clock k = Some ticks"
proof -
  have "[0..<200000] \<noteq> ([] :: nat list)" using upt_eq_Nil_conv [of 0 200000] by simp
  then show ?thesis unfolding timer_overhead_def median_def by simp
qed

lemma sort_empty_iff [simp]: "sort xs = [] \<longleftrightarrow> xs = []"
  by (metis length_0_conv length_sort)

lemma summary_complete:
  assumes "rs \<noteq> []" and "t \<in> set (summary rs f)"
  shows "length (snd (snd t)) = kPoints \<and> None \<notin> set (snd (snd t))"
  using assms by (auto simp: summary_def across_runs_def Let_def)

lemma summary_names: "map fst (summary rs f) = [''all'', ''add'', ''cancel'', ''modify'', ''marketable'', ''(spin)'']"
proof -
  have "[0..<kRows] = [0, 1, 2, 3, 4, 5]" by (simp add: kRows_def kKinds_def upt_rec)
  then show ?thesis
    by (simp add: summary_def row_name_def kAllRow_def kSpinRow_def kRows_def kKinds_def kinds_def kind_name_def)
qed

text \<open>What a command line that is served has been turned into when the runs start.\<close>

lemma setup_returns:
  assumes "parse_args args (default_options (default_cpu h)) = Some (Inr o')"
    and "fc_ops (opt_cfg o') \<noteq> 0" and "opt_runs o' \<noteq> 0" and "generate (opt_cfg o') = Some (Inr f)"
    and book: "allocatable (bench_config (opt_cfg o') (system_alloc o') (opt_price_levels o'))"
    and "prefault_mib o' \<le> 2 ^ 44 - 16" and "opt_cpu o' \<ge> 0 \<Longrightarrow> host_pins h (opt_cpu o')"
    and "\<And>p. dump_path o' = Some p \<Longrightarrow> host_opens h p" and steady: "reaches_200ms (host_steady h)"
  shows "\<exists>su ticks. bench_setup h clock args = Some (Inr su) \<and> su_options su = o' \<and> su_flow su = f \<and>
    su_bench su = set_overhead ticks (bench_new f (bench_config (opt_cfg o') (system_alloc o') (opt_price_levels o')))"
proof -
  obtain ticks where ticks: "timer_overhead clock 200002 = Some ticks" using timer_overhead_returns by blast
  obtain pf where pf: "prefault_heap h (prefault_mib o') = Some pf" using prefault_heap_spec [of "prefault_mib o'"] assms(6) by auto
  obtain cal where cal: "calibration (host_steady h) clock 0 = Some cal" using calibration_returns [OF steady] by blast
  obtain b where b: "book_init (\<lambda>_. True) (bench_config (opt_cfg o') (system_alloc o') (opt_price_levels o')) = Some (Inr b)"
    using book_new_refines [OF book] by (auto simp: book_new_eq_Some)
  have open_ok: "\<not> (case dump_path o' of None \<Rightarrow> False | Some p \<Rightarrow> \<not> host_opens h p)" using assms(8) by (auto split: option.splits)
  let ?be = "set_overhead ticks (bench_new f (bench_config (opt_cfg o') (system_alloc o') (opt_price_levels o')))"
  let ?su = "\<lparr>su_options = o', su_flow = f, su_bench = ?be, su_prefaulted = pf, su_calibration = cal,
      su_resolution = clock_resolution clock 2, su_overhead = ticks\<rparr>"
  have "bench_setup h clock args = Some (Inr ?su)"
    using assms(1-4,7) b open_ok ticks pf cal by (simp add: bench_setup_def Let_def)
  then show ?thesis by (intro exI [of _ ?su] exI [of _ ticks]) simp
qed

lemma setup_runs:
  assumes "bench_setup h clock args = Some (Inr su)"
  shows "opt_runs (su_options su) \<noteq> 0"
proof -
  obtain x where x: "parse_args args (default_options (default_cpu h)) = Some x"
    using assms by (cases "parse_args args (default_options (default_cpu h))") (auto simp: bench_setup_def)
  then obtain o' where o': "x = Inr o'" "opt_runs o' \<noteq> 0"
    using assms by (cases x) (auto simp: bench_setup_def Let_def split: if_splits)
  obtain y where y: "generate (opt_cfg o') = Some y"
    using assms x o' by (cases "generate (opt_cfg o')") (auto simp: bench_setup_def Let_def split: if_splits)
  then obtain f where f: "y = Inr f" using assms x o' by (cases y) (auto simp: bench_setup_def Let_def split: if_splits)
  obtain z where z: "book_init (\<lambda>_. True) (bench_config (opt_cfg o') (system_alloc o') (opt_price_levels o')) = Some z"
    using assms unfolding bench_setup_def x o'(1) y f bind.bind_lunit sum.case Let_def by (auto simp: bind_eq_Some_conv split: if_splits)
  then obtain b where b: "z = Inr b"
    using assms unfolding bench_setup_def x o'(1) y f bind.bind_lunit sum.case Let_def by (cases z) (auto split: if_splits)
  show ?thesis
    using assms o'(2) unfolding bench_setup_def x o'(1) y f z b bind.bind_lunit sum.case Let_def
    by (auto simp: bind_eq_Some_conv split: if_splits)
qed

lemma reported_setup:
  assumes "bench_main h clock run_clock args = Some (Reported rp)" and "bench_setup h clock args = Some (Inr su)"
  obtains cpu_name results where "cpu_model (host_cpuinfo h) = Some cpu_name" "rp = make_report h su cpu_name results"
    "bench_runs (map run_clock [0..<unat (opt_runs (su_options su))]) (su_bench su) = Some (Inr results)"
proof -
  obtain name where name: "cpu_model (host_cpuinfo h) = Some name"
    using assms by (cases "cpu_model (host_cpuinfo h)") (simp_all add: bench_main_def)
  obtain r where r: "bench_runs (map run_clock [0..<unat (opt_runs (su_options su))]) (su_bench su) = Some r"
      "(case r of Inl e \<Rightarrow> Exited e | Inr results \<Rightarrow> Reported (make_report h su name results)) = Reported rp"
    using assms name by (auto simp: bench_main_def bind_eq_Some_conv)
  then obtain results where "r = Inr results" "rp = make_report h su name results" by (cases r) auto
  then show thesis using that name r(1) by blast
qed

lemma main_reaches_report:
  assumes "parse_args args (default_options (default_cpu h)) = Some (Inr o')"
    and "fc_ops (opt_cfg o') \<noteq> 0" and "opt_runs o' \<noteq> 0"
    and "target_depth (opt_cfg o') + fc_warmup_ops (opt_cfg o') + fc_ops (opt_cfg o') \<le> 2 ^ 31" and "opt_price_levels o' < 2 ^ 59"
    and "prefault_mib o' \<le> 2 ^ 44 - 16" and "opt_cpu o' \<ge> 0 \<Longrightarrow> host_pins h (opt_cpu o')"
    and "\<And>p. dump_path o' = Some p \<Longrightarrow> host_opens h p" and "reaches_200ms (host_steady h)"
    and "cpu_model (host_cpuinfo h) = Some cpu_name" and "\<And>i. clock_runs (run_clock i)"
  shows "\<exists>rp. bench_main h clock run_clock args = Some (Reported rp) \<and> rp_cpu_name rp = cpu_name \<and>
    generate (opt_cfg o') = Some (Inr (rp_flow rp)) \<and> length (rp_results rp) = unat (opt_runs o') \<and>
    list_all (\<lambda>r. rr_trade_hash r = st_trade_hash (fl_stats (rp_flow rp)) \<and> rr_dropped r = 0) (rp_results rp) \<and>
    map fst (rp_summary rp) = [''all'', ''add'', ''cancel'', ''modify'', ''marketable'', ''(spin)''] \<and>
    list_all (\<lambda>t. length (snd (snd t)) = kPoints \<and> None \<notin> set (snd (snd t))) (rp_summary rp)"
proof -
  let ?cfg = "opt_cfg o'" and ?clocks = "map run_clock [0..<unat (opt_runs o')]"
  obtain seed n_ops n_warmup depth where cfg: "?cfg = default_flow\<lparr>fc_seed := seed, fc_ops := n_ops, fc_warmup_ops := n_warmup, target_depth := depth\<rparr>"
    using parse_args_shape [OF assms(1)] by (auto simp: same_shape_def default_options_def)
  have shape: "add_percent ?cfg + cancel_percent ?cfg + modify_percent ?cfg + marketable_percent ?cfg = 100"
      "tail_ticks ?cfg + 1 < start_mid ?cfg" "unat (fc_lot ?cfg) * 1280 < 2 ^ 32"
    unfolding cfg by (simp_all add: default_flow_def)
  have clocks: "list_all clock_runs ?clocks" using assms(11) by (simp add: list_all_iff)
  have pos: "0 < fc_ops ?cfg" using assms(2) by simp
  obtain f where gen: "generate ?cfg = Some (Inr f)" using generate_valid [OF shape(1,2) assms(4)] kTradeCapacity_ring by metis
  obtain su ticks where su: "bench_setup h clock args = Some (Inr su)" "su_options su = o'" "su_flow su = f"
      "su_bench su = set_overhead ticks (bench_new f (bench_config ?cfg (system_alloc o') (opt_price_levels o')))"
    using setup_returns [OF assms(1-3) gen bench_config_fields(3) [OF assms(4,5)] assms(6-9)] by blast
  obtain rs where f: "bench_runs ?clocks (su_bench su) = Some (Inr rs)" "length rs = unat (opt_runs o')"
      "list_all (\<lambda>r. rr_trade_hash r = st_trade_hash (fl_stats f) \<and> rr_dropped r = 0 \<and> length (rr_rows r) = kRows) rs"
    using bench_accepts_every_run [OF shape(1,2) assms(4) pos shape(3) clocks assms(5), of ticks "system_alloc o'"] gen
    unfolding su(4) by auto
  let ?rp = "make_report h su cpu_name rs"
  have main: "bench_main h clock run_clock args = Some (Reported ?rp)"
    using su(1,2) f(1) assms(10) by (simp add: bench_main_def)
  have rs: "rs \<noteq> []" using f(2) assms(3) by (auto simp: unat_eq_0)
  show ?thesis
    unfolding main
    using f gen su(3) summary_names summary_complete [OF rs, of _ f] by (intro exI [of _ ?rp]) (auto simp: make_report_def list_all_iff Let_def)
qed

text \<open>
  (C20) The benchmark reports. For every command line that asks for at least one timed operation and one run, of a flow of at most
  \<open>2 ^ 31\<close> operations in all and a price array that a vector can hold, and that the operating system serves (it pins, opens the dump file,
  its steady clock gets past 200 ms and the name of the processor can be read), \<^verbatim>\<open>main\<close> reaches its end on every counter that
  does not go back or stop, however coarse: it calibrates, generates the flow, and every run on a fresh book prints exactly the trades of
  the generator and drops none, so that no numbers are discarded, and the table has the six rows, with all five medians in each. The
  ring of \<^verbatim>\<open>kTradeCapacity\<close> is larger than any operation's fill count, as the comment in \<^verbatim>\<open>flow.hpp\<close> says.
\<close>

theorem main_reports_every_run:
  assumes "parse_args args (default_options (default_cpu h)) = Some (Inr o')"
    and "fc_ops (opt_cfg o') \<noteq> 0" and "opt_runs o' \<noteq> 0"
    and "target_depth (opt_cfg o') + fc_warmup_ops (opt_cfg o') + fc_ops (opt_cfg o') \<le> 2 ^ 31" and "opt_price_levels o' < 2 ^ 59"
    and "prefault_mib o' \<le> 2 ^ 44 - 16" and "opt_cpu o' \<ge> 0 \<Longrightarrow> host_pins h (opt_cpu o')"
    and "\<And>p. dump_path o' = Some p \<Longrightarrow> host_opens h p" and "reaches_200ms (host_steady h)"
    and "cpu_model (host_cpuinfo h) = Some cpu_name" and "\<And>i. clock_runs (run_clock i)"
  shows "\<exists>rp. bench_main h clock run_clock args = Some (Reported rp) \<and> rp_cpu_name rp = cpu_name \<and>
    generate (opt_cfg o') = Some (Inr (rp_flow rp)) \<and> length (rp_results rp) = unat (opt_runs o') \<and>
    list_all (\<lambda>r. rr_trade_hash r = st_trade_hash (fl_stats (rp_flow rp)) \<and> rr_dropped r = 0) (rp_results rp) \<and>
    map fst (rp_summary rp) = [''all'', ''add'', ''cancel'', ''modify'', ''marketable'', ''(spin)''] \<and>
    list_all (\<lambda>t. length (snd (snd t)) = kPoints \<and> None \<notin> set (snd (snd t))) (rp_summary rp)"
  by (rule main_reaches_report [OF assms])

text \<open>A machine with four processors, of which two are allowed, and a steady clock read every millisecond.\<close>

definition sample_host :: host where
  "sample_host = \<lparr>host_affinity = Some (\<lambda>c. c = 0 \<or> c = 3), host_pins = (\<lambda>c. c = 3), host_current = 0, host_opens = (\<lambda>p. False),
     host_line = (\<lambda>p. []), host_malloc = (\<lambda>n. n < 100), host_cpuinfo = [''model name : x''], host_steady = (\<lambda>k. 1000000 * int k)\<rparr>"

lemma sample_default_cpu: "default_cpu (sample_host\<lparr>host_cpuinfo := lines\<rparr>) = 3"
proof -
  have "last_set (\<lambda>c. c = 0 \<or> c = 3) (n + 4) = 3" for n by (induction n) (simp_all add: numeral_eq_Suc)
  from this [of 1020] show ?thesis by (simp add: default_cpu_def sample_host_def kCpuSetSize_def)
qed

lemma sample_arguments:
  "parse_args [''--runs'', ''2''] (default_options 3) = Some (Inr ((default_options 3)\<lparr>opt_runs := 2\<rparr>))"
  by (simp add: argument_of_def strtoull_def signed_digits_def is_space_def is_digit_def of_digits_def)

text \<open>The sample command line satisfies what the theorem asks for.\<close>

lemma sample_command_line:
  "parse_args [''--runs'', ''2''] (default_options (default_cpu (sample_host\<lparr>host_cpuinfo := lines\<rparr>))) = Some (Inr ((default_options 3)\<lparr>opt_runs := 2\<rparr>))"
  "fc_ops (opt_cfg ((default_options 3)\<lparr>opt_runs := 2\<rparr>)) \<noteq> 0" "opt_runs ((default_options 3)\<lparr>opt_runs := 2\<rparr>) \<noteq> 0"
  "target_depth (opt_cfg ((default_options 3)\<lparr>opt_runs := 2\<rparr>)) + fc_warmup_ops (opt_cfg ((default_options 3)\<lparr>opt_runs := 2\<rparr>)) +
     fc_ops (opt_cfg ((default_options 3)\<lparr>opt_runs := 2\<rparr>)) \<le> 2 ^ 31"
  "opt_price_levels ((default_options 3)\<lparr>opt_runs := 2\<rparr>) < 2 ^ 59"
  "prefault_mib ((default_options 3)\<lparr>opt_runs := 2\<rparr>) \<le> 2 ^ 44 - 16"
  "opt_cpu ((default_options 3)\<lparr>opt_runs := 2\<rparr>) \<ge> 0 \<Longrightarrow>
     host_pins (sample_host\<lparr>host_cpuinfo := lines\<rparr>) (opt_cpu ((default_options 3)\<lparr>opt_runs := 2\<rparr>))"
  "dump_path ((default_options 3)\<lparr>opt_runs := 2\<rparr>) = Some p \<Longrightarrow> host_opens (sample_host\<lparr>host_cpuinfo := lines\<rparr>) p"
  "reaches_200ms (host_steady (sample_host\<lparr>host_cpuinfo := lines\<rparr>))"
proof -
  show "parse_args [''--runs'', ''2''] (default_options (default_cpu (sample_host\<lparr>host_cpuinfo := lines\<rparr>))) =
      Some (Inr ((default_options 3)\<lparr>opt_runs := 2\<rparr>))"
    unfolding sample_default_cpu by (rule sample_arguments)
  show "reaches_200ms (host_steady (sample_host\<lparr>host_cpuinfo := lines\<rparr>))"
    unfolding reaches_200ms_def by (rule exI [of _ 200]) (simp add: sample_host_def)
qed (simp_all add: default_options_def default_flow_def sample_host_def)

lemma sample_cpu_model: "cpu_model (host_cpuinfo (sample_host\<lparr>host_cpuinfo := [''model name : x'']\<rparr>)) = Some ''x''"
  by (simp add: model_name_def)

theorem main_reports_every_run_witness:
  "\<exists>rp. bench_main (sample_host\<lparr>host_cpuinfo := [''model name : x'']\<rparr>) coarse_clock (\<lambda>i. coarse_clock) [''--runs'', ''2''] = Some (Reported rp) \<and>
     length (rp_results rp) = 2 \<and> rp_cpu_name rp = ''x''"
proof -
  have two: "unat (opt_runs ((default_options 3)\<lparr>opt_runs := 2\<rparr>)) = 2" by simp
  from main_reports_every_run [OF sample_command_line sample_cpu_model coarse_clock_runs, of coarse_clock, unfolded two] show ?thesis by blast
qed

end
