(* ===== verification/Bench_Dump.thy ===== *)
theory Bench_Dump
  imports Bench_Main
begin

section \<open>The samples as CSV (\<^verbatim>\<open>--dump\<close> of \<^verbatim>\<open>bench/bench_main.cpp\<close>)\<close>

text \<open>
  What the benchmark writes to the dump file: a header, and for every run one line per timed operation and one per spin
  sample, in the order in which they were taken and before the vectors are sorted. Arithmetic on \<^verbatim>\<open>double\<close> and its
  printing are the parameter \<open>D\<close>. The reader splits the text into lines and lines into fields.
\<close>

subsection \<open>Floating point\<close>

text \<open>The operations on \<^verbatim>\<open>double\<close> that the program uses; \<open>dbl_text n\<close> is \<^verbatim>\<open>printf\<close> with \<open>n\<close> decimals.\<close>

record 'd doubles =
  dbl_of :: "64 word \<Rightarrow> 'd"
  dbl_to :: "'d \<Rightarrow> 64 word"
  dbl_add :: "'d \<Rightarrow> 'd \<Rightarrow> 'd"
  dbl_mul :: "'d \<Rightarrow> 'd \<Rightarrow> 'd"
  dbl_div :: "'d \<Rightarrow> 'd \<Rightarrow> 'd"
  dbl_half :: 'd
  dbl_text :: "nat \<Rightarrow> 'd \<Rightarrow> string"

subsection \<open>Model\<close>

definition dump_line :: "'d doubles \<Rightarrow> 'd \<Rightarrow> nat \<Rightarrow> nat \<Rightarrow> string \<Rightarrow> 64 word \<Rightarrow> string" where
  "dump_line D ticks_per_ns r i kind s =
     to_string (r + 1) @ '','' @ to_string i @ '','' @ kind @ '','' @ dbl_text D 1 (dbl_div D (dbl_of D s) ticks_per_ns) @ eol"

definition dump_run :: "'d doubles \<Rightarrow> 'd \<Rightarrow> flow \<Rightarrow> nat \<Rightarrow> measured \<Rightarrow> string" where
  "dump_run D ticks_per_ns f r m =
     (let n = timed_count f in
      concat (map (\<lambda>i. dump_line D ticks_per_ns r i (kind_name (fo_kind (fl_ops f ! (timed_begin f + i)))) (ms_timed m ! i)) [0..<n]) @
      concat (map (\<lambda>i. dump_line D ticks_per_ns r i ''spin'' (ms_spin m ! i)) [0..<n]))"

text \<open>The runs from number \<open>r\<close> on; a run that is not accepted is the last one, and has been written already.\<close>

fun dump_runs :: "'d doubles \<Rightarrow> 'd \<Rightarrow> (nat \<Rightarrow> 64 word) list \<Rightarrow> bench \<Rightarrow> nat \<Rightarrow> string option" where
  "dump_runs D ticks_per_ns [] be r = Some []"
| "dump_runs D ticks_per_ns (clock # clocks) be r =
     do {
       m \<leftarrow> bench_measure clock be;
       let (res, be') = bench_result be m;
       rest \<leftarrow> (if \<not> run_accepted (bn_flow be) res then Some [] else dump_runs D ticks_per_ns clocks be' (r + 1));
       Some (dump_run D ticks_per_ns (bn_flow be) r m @ rest)
     }"

definition dump_file :: "'d doubles \<Rightarrow> 'd \<Rightarrow> (nat \<Rightarrow> 64 word) list \<Rightarrow> bench \<Rightarrow> string option" where
  "dump_file D ticks_per_ns clocks be = map_option (\<lambda>t. ''run,index,kind,ns'' @ eol @ t) (dump_runs D ticks_per_ns clocks be 0)"

subsection \<open>Reading the file\<close>

fun split_on :: "char \<Rightarrow> string \<Rightarrow> string list" where
  "split_on c [] = [[]]"
| "split_on c (x # xs) = (if x = c then [] # split_on c xs else case split_on c xs of [] \<Rightarrow> [[x]] | f # fs \<Rightarrow> (x # f) # fs)"

definition csv_rows :: "string \<Rightarrow> string list list" where
  "csv_rows s = map (split_on (CHR '','')) (butlast (split_on (CHR 0x0A) s))"

lemma split_on_nonempty [simp]: "split_on c s \<noteq> []"
  by (induction s) (auto split: list.split)

lemma split_on_append: "c \<notin> set a \<Longrightarrow> split_on c (a @ c # r) = a # split_on c r"
  by (induction a) auto

lemma split_on_word: "c \<notin> set a \<Longrightarrow> split_on c a = [a]"
  by (induction a) auto

lemma csv_rows_Nil [simp]: "csv_rows [] = []"
  by (simp add: csv_rows_def)

lemma csv_rows_line: "CHR 0x0A \<notin> set a \<Longrightarrow> csv_rows (a @ eol @ r) = split_on (CHR '','') a # csv_rows r"
  using split_on_append [of "CHR 0x0A" a r] by (simp add: csv_rows_def eol_def)

text \<open>The fields of one line, and the rows of one run.\<close>

definition dump_row :: "'d doubles \<Rightarrow> 'd \<Rightarrow> nat \<Rightarrow> nat \<Rightarrow> string \<Rightarrow> 64 word \<Rightarrow> string list" where
  "dump_row D ticks_per_ns r i kind s =
     [to_string (r + 1), to_string i, kind, dbl_text D 1 (dbl_div D (dbl_of D s) ticks_per_ns)]"

definition run_rows :: "'d doubles \<Rightarrow> 'd \<Rightarrow> flow \<Rightarrow> nat \<Rightarrow> measured \<Rightarrow> string list list" where
  "run_rows D ticks_per_ns f r m =
     map (\<lambda>i. dump_row D ticks_per_ns r i (kind_name (fo_kind (fl_ops f ! (timed_begin f + i)))) (ms_timed m ! i)) [0..<timed_count f] @
     map (\<lambda>i. dump_row D ticks_per_ns r i ''spin'' (ms_spin m ! i)) [0..<timed_count f]"

definition plain_text :: "'d doubles \<Rightarrow> bool" where
  "plain_text D \<longleftrightarrow> (\<forall>n x. CHR '','' \<notin> set (dbl_text D n x) \<and> CHR 0x0A \<notin> set (dbl_text D n x))"

lemma to_string_plain: "CHR '','' \<notin> set (to_string n)" "CHR 0x0A \<notin> set (to_string n)"
  using to_string_digits [of n] by fastforce+

lemma kind_name_plain: "CHR '','' \<notin> set (kind_name k)" "CHR 0x0A \<notin> set (kind_name k)"
  by (cases k; simp add: kind_name_def)+

lemma dump_line_read:
  assumes D: "plain_text D" and kind: "CHR '','' \<notin> set kind" "CHR 0x0A \<notin> set kind"
  shows "csv_rows (dump_line D t r i kind s @ rest) = dump_row D t r i kind s # csv_rows rest"
proof -
  define v where "v = dbl_text D 1 (dbl_div D (dbl_of D s) t)"
  let ?l = "to_string (r + 1) @ CHR '','' # to_string i @ CHR '','' # kind @ CHR '','' # v"
  have v: "CHR '','' \<notin> set v" "CHR 0x0A \<notin> set v" using D by (simp_all add: v_def plain_text_def)
  have "split_on (CHR '','') ?l = dump_row D t r i kind s"
    unfolding dump_row_def v_def [symmetric] by (simp add: split_on_append to_string_plain kind split_on_word v del: split_on.simps)
  moreover have "CHR 0x0A \<notin> set ?l" using to_string_plain kind v by simp
  ultimately show ?thesis using csv_rows_line [of ?l rest] unfolding dump_line_def v_def [symmetric] by simp
qed

lemma dump_lines_read:
  assumes "plain_text D" and "\<And>i. CHR '','' \<notin> set (kind i)" "\<And>i. CHR 0x0A \<notin> set (kind i)"
  shows "csv_rows (concat (map (\<lambda>i. dump_line D t r i (kind i) (s i)) xs) @ rest) =
    map (\<lambda>i. dump_row D t r i (kind i) (s i)) xs @ csv_rows rest"
  by (induction xs) (simp_all add: dump_line_read assms)

lemma dump_run_read:
  assumes "plain_text D"
  shows "csv_rows (dump_run D t f r m @ rest) = run_rows D t f r m @ csv_rows rest"
  using dump_lines_read [OF assms, of "\<lambda>_. ''spin''"] dump_lines_read [OF assms kind_name_plain]
  by (simp add: dump_run_def run_rows_def Let_def)

subsection \<open>The file holds every sample\<close>

text \<open>The rows of the report are those of the samples measured.\<close>

definition reports_samples :: "flow \<Rightarrow> measured \<Rightarrow> run_result \<Rightarrow> bool" where
  "reports_samples f m res \<longleftrightarrow> length (ms_timed m) = timed_count f \<and> length (ms_spin m) = timed_count f \<and>
     rr_rows res = bench_rows (split_kinds (drop (timed_begin f) (fl_ops f)) (ms_timed m)) (ms_timed m) (ms_spin m)"

lemma dump_runs_read:
  assumes "list_all clock_runs clocks" and "bn_flow be = f" "length (bn_spin be) = timed_count f"
      "max (fl_build f) (max (fl_warmup f) (timed_count f)) \<le> length (bn_samples be)"
    and "fl_build f + fl_warmup f \<le> length (fl_ops f)" "0 < timed_count f"
    and "book_new (bn_book_cfg be) = Some b" "drive_all (fl_ops f) (b, kHashSeed) = Some (b', st_trade_hash (fl_stats f))"
      "drop_count (trade_out b') = 0" and D: "plain_text D"
  shows "\<exists>ms rs t. bench_runs clocks be = Some (Inr rs) \<and> list_all2 (measured_on (bn_overhead be) f) clocks ms \<and>
    list_all2 (reports_samples f) ms rs \<and>
    dump_runs D tpn clocks be r = Some t \<and> csv_rows t = concat (map (\<lambda>(r, m). run_rows D tpn f r m) (enumerate r ms))"
  using assms(1-9)
proof (induction clocks arbitrary: be r)
  case (Cons clock clocks)
  have clock: "clock_runs clock" using Cons.prems(1) by simp
  obtain m where m: "bench_measure clock be = Some m" "length (ms_timed m) = timed_count f" "length (ms_spin m) = timed_count f"
      "measured_on (bn_overhead be) f clock m"
    using bench_measure_drives [OF Cons.prems(2-8) clock] by blast
  obtain res be' where r: "bench_result be m = (res, be')" by (cases "bench_result be m")
  then have run: "bench_run clock be = Some (res, be')" by (simp add: bench_run_def m(1))
  have res: "rr_trade_hash res = st_trade_hash (fl_stats f)" "rr_dropped res = 0" "bn_flow be' = f" "bn_book_cfg be' = bn_book_cfg be"
      "length (bn_spin be') = timed_count f" "length (bn_samples be') = length (bn_samples be)"
    using bench_run_drives [OF Cons.prems(2-8) clock] Cons.prems(9) run by auto
  have acc: "run_accepted (bn_flow be) res" using res(1,2) Cons.prems(2) by (simp add: run_accepted_def)
  have ov: "bn_overhead be' = bn_overhead be" using r by (auto simp: bench_result_def Let_def)
  have rep: "reports_samples f m res" using r m(2,3) Cons.prems(2) by (auto simp: bench_result_def Let_def reports_samples_def)
  obtain ms rs t where rest: "bench_runs clocks be' = Some (Inr rs)" "list_all2 (measured_on (bn_overhead be) f) clocks ms" "list_all2 (reports_samples f) ms rs"
      "dump_runs D tpn clocks be' (r + 1) = Some t" "csv_rows t = concat (map (\<lambda>(r, m). run_rows D tpn f r m) (enumerate (r + 1) ms))"
    using Cons.IH [of be' "r + 1"] Cons.prems res unfolding ov by auto
  have "csv_rows (dump_run D tpn f r m @ t) = concat (map (\<lambda>(r, m). run_rows D tpn f r m) (enumerate r (m # ms)))"
    using rest(5) by (simp add: dump_run_read [OF D])
  moreover have "dump_runs D tpn (clock # clocks) be r = Some (dump_run D tpn f r m @ t)"
    using m(1) r acc rest(4) Cons.prems(2) by simp
  moreover have "bench_runs (clock # clocks) be = Some (Inr (res # rs))" using run acc rest(1) by simp
  moreover have "list_all2 (reports_samples f) (m # ms) (res # rs)" using rep rest(3) by simp
  ultimately show ?case using rest(2) m(4) by (intro exI [of _ "m # ms"] exI [of _ "res # rs"]) simp
qed simp

text \<open>
  (C16) The dump file can be read back. For every valid flow of at most \<open>2 ^ 31\<close> operations, every price array that can exist, all
  counters that neither go back nor stop (coarse ones too), and any floating-point printing without commas and line ends, splitting the
  text into lines and fields gives exactly the header, and for each run its timed samples with the kind of their operation and then
  its spin samples, numbered from zero, each in nanoseconds. The samples are the brackets of the counter's readings themselves, in the order
  in which they were taken: the timed operation \<open>i\<close> has the two readings behind those of the operations before it, and the spin samples
  come from the readings after all of them, with the median of the timed samples as the window. They are also the samples whose percentiles the
  report of that run shows, unsorted though the report sorts them.
\<close>

theorem dump_roundtrip:
  assumes "add_percent cfg + cancel_percent cfg + modify_percent cfg + marketable_percent cfg = 100"
    and "tail_ticks cfg + 1 < start_mid cfg" and "target_depth cfg + fc_warmup_ops cfg + fc_ops cfg \<le> 2 ^ 31" and "0 < fc_ops cfg"
    and "unat (fc_lot cfg) * 1280 < 2 ^ 32" and "list_all clock_runs clocks" and "levels < 2 ^ 59" and "plain_text D"
  shows "\<exists>f ms rs t. generate cfg = Some (Inr f) \<and> timed_count f = fc_ops cfg \<and> bench_runs clocks (set_overhead ticks (bench_new f (bench_config cfg sys_alloc levels))) = Some (Inr rs) \<and>
    list_all2 (measured_on ticks f) clocks ms \<and> list_all2 (reports_samples f) ms rs \<and> dump_file D tpn clocks (set_overhead ticks (bench_new f (bench_config cfg sys_alloc levels))) = Some t \<and>
    csv_rows t = [''run'', ''index'', ''kind'', ''ns''] # concat (map (\<lambda>(r, m). run_rows D tpn f r m) (enumerate 0 ms))"
proof -
  let ?c = "bench_config cfg sys_alloc levels"
  note c = bench_config_fields [OF assms(3,7), of sys_alloc]
  from flow_replays [OF assms(1-3,5) c] obtain f b b' where f: "generate cfg = Some (Inr f)"
      "length (fl_ops f) = target_depth cfg + fc_warmup_ops cfg + fc_ops cfg" "fl_build f = target_depth cfg"
      "fl_warmup f = fc_warmup_ops cfg" "timed_count f = fc_ops cfg" "book_new ?c = Some b"
      "drive_all (fl_ops f) (b, kHashSeed) = Some (b', st_trade_hash (fl_stats f))" "drop_count (trade_out b') = 0" by blast
  define be where "be = (\<lambda>f. set_overhead ticks (bench_new f (bench_config cfg sys_alloc levels)))"
  have be: "bn_flow (be f) = f" "length (bn_spin (be f)) = timed_count f" "bn_book_cfg (be f) = ?c" "bn_overhead (be f) = ticks"
      "max (fl_build f) (max (fl_warmup f) (timed_count f)) \<le> length (bn_samples (be f))"
    by (simp_all add: be_def set_overhead_def bench_new_def)
  have size: "fl_build f + fl_warmup f \<le> length (fl_ops f)" "0 < timed_count f" using f assms(4) by simp_all
  obtain ms rs t where r: "bench_runs clocks (be f) = Some (Inr rs)" "list_all2 (measured_on ticks f) clocks ms" "list_all2 (reports_samples f) ms rs"
      "dump_runs D tpn clocks (be f) 0 = Some t" "csv_rows t = concat (map (\<lambda>(r, m). run_rows D tpn f r m) (enumerate 0 ms))"
    using dump_runs_read [OF assms(6) be(1,2,5) size f(6) [folded be(3)] f(7,8) assms(8), of tpn 0] unfolding be(4) by blast
  define contents where "contents = ''run,index,kind,ns'' @ eol @ t"
  have "dump_file D tpn clocks (be f) = Some contents" by (simp add: dump_file_def r(4) contents_def)
  moreover have header: "split_on (CHR '','') ''run,index,kind,ns'' = [''run'', ''index'', ''kind'', ''ns'']" by simp
  have "csv_rows contents = split_on (CHR '','') ''run,index,kind,ns'' # csv_rows t"
    unfolding contents_def by (rule csv_rows_line) simp
  then have "csv_rows contents = [''run'', ''index'', ''kind'', ''ns''] # concat (map (\<lambda>(r, m). run_rows D tpn f r m) (enumerate 0 ms))"
    by (simp only: header r(5) append_Cons append_Nil)
  ultimately show ?thesis using f(1,5) r(1-3) unfolding be_def by blast
qed

text \<open>Whole numbers of ticks in place of floating point.\<close>

definition whole_numbers :: "64 word doubles" where
  "whole_numbers = \<lparr>dbl_of = id, dbl_to = id, dbl_add = (+), dbl_mul = (*), dbl_div = (div), dbl_half = 0,
     dbl_text = (\<lambda>n w. to_string (unat w) @ ''.0'')\<rparr>"

theorem dump_roundtrip_witness:
  "\<exists>f ms rs t. generate default_flow = Some (Inr f) \<and>
     bench_runs [coarse_clock] (set_overhead 0 (bench_new f (bench_config default_flow False 4096))) = Some (Inr rs) \<and>
     list_all2 (measured_on 0 f) [coarse_clock] ms \<and>
     dump_file whole_numbers 1 [coarse_clock] (set_overhead 0 (bench_new f (bench_config default_flow False 4096))) = Some t \<and>
     hd (csv_rows t) = [''run'', ''index'', ''kind'', ''ns'']"
proof -
  have "plain_text whole_numbers" using to_string_plain by (simp add: plain_text_def whole_numbers_def)
  from dump_roundtrip [of default_flow "[coarse_clock]" 4096 whole_numbers 0 False 1] this coarse_clock_runs show ?thesis
    by (fastforce simp: default_flow_def)
qed

end
