(* ===== verification/Bench_Report.thy ===== *)
theory Bench_Report
  imports Bench_Dump
begin

section \<open>The text of the benchmark's report (\<^verbatim>\<open>bench/bench_main.cpp\<close>)\<close>

text \<open>
  What \<^verbatim>\<open>main\<close> prints when all of its runs are accepted, as a function of the report of \<^verbatim>\<open>Bench_Main\<close> and what the machine answered: the
  memory on huge pages from the text of a file, page faults and context switches from \<^verbatim>\<open>getrusage\<close>. Floating point is the parameter \<open>D\<close> of \<^verbatim>\<open>Bench_Dump\<close>.
\<close>

subsection \<open>Model: formats\<close>

text \<open>\<^verbatim>\<open>%ns\<close>, \<^verbatim>\<open>%-ns\<close>, \<^verbatim>\<open>%016llx\<close>, \<^verbatim>\<open>%ld\<close>.\<close>

definition pad_left :: "nat \<Rightarrow> string \<Rightarrow> string" where
  "pad_left n s = replicate (n - length s) (CHR '' '') @ s"

definition pad_right :: "nat \<Rightarrow> string \<Rightarrow> string" where
  "pad_right n s = s @ replicate (n - length s) (CHR '' '')"

definition hex16 :: "64 word \<Rightarrow> string" where
  "hex16 w = map (\<lambda>k. ''0123456789abcdef'' ! unat (drop_bit (4 * k) w AND 15)) (rev [0..<16])"

definition show_long :: "int \<Rightarrow> string" where
  "show_long i = (if i < 0 then ''-'' @ to_string (nat (- i)) else to_string (nat i))"

definition ns_ticks :: "'d doubles \<Rightarrow> 64 word \<Rightarrow> 'd \<Rightarrow> 64 word" where
  "ns_ticks D ticks ticks_per_ns = dbl_to D (dbl_add D (dbl_div D (dbl_of D ticks) ticks_per_ns) (dbl_half D))"

definition ns :: "'d doubles \<Rightarrow> 64 word \<Rightarrow> 'd \<Rightarrow> string" where
  "ns D ticks ticks_per_ns = grouped (unat (ns_ticks D ticks ticks_per_ns))"

definition percent :: "'d doubles \<Rightarrow> nat \<Rightarrow> nat \<Rightarrow> 'd" where
  "percent D part whole =
     (if whole = 0 then dbl_of D 0 else dbl_div D (dbl_mul D (dbl_of D 100) (dbl_of D (of_nat part))) (dbl_of D (of_nat whole)))"

subsection \<open>Model: what the machine reports\<close>

text \<open>\<^verbatim>\<open>in >> kib\<close> of a \<^verbatim>\<open>long\<close>, and the words of \<^verbatim>\<open>/proc/self/smaps_rollup\<close> up to the key; \<^verbatim>\<open>ignore\<close> skips to the next line.\<close>

definition read_long :: "string \<Rightarrow> int" where
  "read_long s = (case signed_digits s of (neg, n) \<Rightarrow> max (- (2 ^ 63)) (min (2 ^ 63 - 1) (if neg then - int n else int n)))"

definition ignore_line :: "string \<Rightarrow> string" where
  "ignore_line s = (case find_char (CHR 0x0A) (take 4096 s) of Some i \<Rightarrow> drop (i + 1) s | None \<Rightarrow> drop 4096 s)"

function anon_huge_kib :: "string \<Rightarrow> int" where
  "anon_huge_kib s =
     (let s1 = dropWhile is_space s; key = takeWhile (\<lambda>c. \<not> is_space c) s1; s2 = drop (length key) s1 in
      if key = [] then 0
      else if key = ''AnonHugePages:'' then read_long s2
      else anon_huge_kib (ignore_line s2))"
  by pat_completeness auto
termination
proof (relation "measure length", goal_cases)
  case (2 s s1 key s2)
  have "length (ignore_line s2) \<le> length s2" by (auto simp: ignore_line_def split: option.split)
  moreover have "length key \<le> length s1" using 2(2) by (simp add: length_takeWhile_le)
  moreover have "length s2 = length s1 - length key" "0 < length key" using 2(3,4) by simp_all
  moreover have "length s1 \<le> length s" using 2(1) length_dropWhile_le by simp
  ultimately show ?case unfolding in_measure by linarith
qed simp

declare anon_huge_kib.simps [simp del]

record rusage =
  ru_minflt :: int
  ru_majflt :: int
  ru_nvcsw :: int
  ru_nivcsw :: int

record usage =
  us_faults :: int
  us_switches :: int

definition usage_now :: "rusage \<Rightarrow> usage" where
  "usage_now r = \<lparr>us_faults = ru_minflt r + ru_majflt r, us_switches = ru_nvcsw r + ru_nivcsw r\<rparr>"

definition usage_minus :: "usage \<Rightarrow> usage \<Rightarrow> usage" where
  "usage_minus a b = \<lparr>us_faults = us_faults a - us_faults b, us_switches = us_switches a - us_switches b\<rparr>"

text \<open>The members of \<^verbatim>\<open>RunResult\<close> that the machine decides: \<open>before\<close> and \<open>after\<close> are the readings around the timed operations.\<close>

record run_machine =
  rm_usage :: usage
  rm_stayed_on_cpu :: bool
  rm_huge_kib :: int

definition machine_run :: "int \<Rightarrow> int \<Rightarrow> rusage \<Rightarrow> rusage \<Rightarrow> string \<Rightarrow> run_machine" where
  "machine_run cpu current before after smaps =
     \<lparr>rm_usage = usage_minus (usage_now after) (usage_now before), rm_stayed_on_cpu = (cpu < 0 \<or> current = cpu),
      rm_huge_kib = anon_huge_kib smaps\<rparr>"

subsection \<open>Model: the tables of \<^verbatim>\<open>print_summary\<close>\<close>

record 'd cell =
  cell_median :: "64 word"
  cell_spread :: 'd

definition across_cell :: "'d doubles \<Rightarrow> run_result list \<Rightarrow> nat \<Rightarrow> nat \<Rightarrow> 'd cell option" where
  "across_cell D runs row_index point =
     (let v = sort (map (\<lambda>r. rr_rows r ! row_index ! point) runs) in
      if v = [] then None
      else let med = v ! ((length v - 1) div 2);
               spread = (if med = 0 then dbl_of D 0
                 else dbl_div D (dbl_mul D (dbl_of D 100) (dbl_of D (v ! (length v - 1) - v ! 0))) (dbl_of D med))
        in Some \<lparr>cell_median = med, cell_spread = spread\<rparr>)"

text \<open>The rows of a table with the given counts and cells.\<close>

definition table_text :: "(nat \<Rightarrow> string) \<Rightarrow> (nat \<Rightarrow> nat \<Rightarrow> string option) \<Rightarrow> string option" where
  "table_text counts cells =
     map_option concat (those (map (\<lambda>r.
       map_option (\<lambda>cs. ''  '' @ pad_right 11 (row_name r) @ '' '' @ pad_left 11 (counts r) @ concat cs @ eol)
         (those (map (cells r) [0..<kPoints]))) [0..<kRows]))"

definition print_summary :: "'d doubles \<Rightarrow> run_result list \<Rightarrow> flow \<Rightarrow> 'd \<Rightarrow> string option" where
  "print_summary D runs f ticks_per_ns =
     do {
       t1 \<leftarrow> table_text (\<lambda>r. grouped (row_count f r))
         (\<lambda>r j. map_option (\<lambda>c. '' '' @ pad_left (if j + 1 = kPoints then 10 else 8) (ns D (cell_median c) ticks_per_ns))
           (across_cell D runs r j));
       let latency = eol @ ''latency (ns), median of '' @ to_string (length runs) @ '' run'' @ (if length runs = 1 then [] else ''s'') @ eol @
         ''                    count      p50      p99    p99.9   p99.99        max'' @ eol @ t1;
       if length runs < 2 then Some latency
       else do {
         t2 \<leftarrow> table_text (\<lambda>r. [])
           (\<lambda>r j. map_option (\<lambda>c. '' '' @ pad_left (if j + 1 = kPoints then 9 else 7) (dbl_text D 0 (cell_spread c)) @ ''%'')
             (across_cell D runs r j));
         Some (latency @ eol @ ''spread across runs, (max - min) / median'' @ eol @
           ''                                p50      p99    p99.9   p99.99        max'' @ eol @ t2 @
           ''  A difference smaller than its cell's spread is noise, not a result.'' @ eol)
       }
     }"

subsection \<open>Model: the report\<close>

text \<open>What the text shows besides the report: the seconds that the generation took and, for each run, what the machine decided.\<close>

record 'd session =
  ss_gen_seconds :: 'd
  ss_runs :: "run_machine list"

text \<open>Ticks per nanosecond, which \<^verbatim>\<open>calibrate\<close> returns.\<close>

definition calibrate :: "'d doubles \<Rightarrow> 64 word \<times> int \<Rightarrow> 'd" where
  "calibrate D measured = (case measured of (dt, nanos) \<Rightarrow> dbl_div D (dbl_of D dt) (dbl_of D (of_int nanos)))"

definition machine_text :: "'d doubles \<Rightarrow> report \<Rightarrow> string" where
  "machine_text D rp =
     (let o' = rp_options rp; tpn = calibrate D (rp_calibration rp); cfg = opt_cfg o';
          book_cfg = bench_config cfg (system_alloc o') (opt_price_levels o') in
      ''lob latency benchmark'' @ eol @
      ''  cpu         '' @ rp_cpu_name rp @ '', '' @ (if opt_cpu o' \<ge> 0 then ''pinned to cpu '' @ to_string (nat (opt_cpu o')) else ''NOT pinned'') @ eol @
      concat (map (\<lambda>l. ''  frequency   '' @ l @ eol) (rp_frequency rp)) @
      ''  clock       rdtscp at '' @ dbl_text D 3 tpn @ '' GHz, resolution '' @ dbl_text D 1 (dbl_div D (dbl_of D (of_nat (rp_resolution rp))) tpn) @
        '' ns; empty bracket '' @ to_string (unat (rp_overhead rp)) @ '' ticks ('' @ dbl_text D 1 (dbl_div D (dbl_of D (rp_overhead rp)) tpn) @
        '' ns), subtracted'' @ eol @
      ''  allocator   orders in a pool of '' @ grouped (unat (expected_orders book_cfg)) @ '' slots, ids in a flat index; map nodes from '' @
        (if pool_nodes book_cfg then ''the book's arena'' else ''malloc (--system-alloc)'') @ eol @
      (if rp_prefaulted rp \<noteq> 0 then ''  memory      '' @ to_string (unat (rp_prefaulted rp)) @ '' MiB of heap pre-faulted, trimming off'' @ eol
       else ''  memory      heap pre-faulting skipped (--prefault 0, or not glibc)'' @ eol))"

definition flow_text :: "'d doubles \<Rightarrow> options \<Rightarrow> 'd session \<Rightarrow> flow \<Rightarrow> string" where
  "flow_text D o' ss f =
     (let st = fl_stats f; cfg = opt_cfg o'; n = timed_count f; marketables = st_count st Marketable in
      eol @ ''flow  seed '' @ to_string (unat (fc_seed cfg)) @ '', hash '' @ hex16 (flow_hash st) @ '', generated in '' @
        dbl_text D 1 (ss_gen_seconds ss) @ '' s'' @ eol @
      ''  per run     '' @ grouped (fl_build f) @ '' depth-building adds, '' @ grouped (fl_warmup f) @ '' warm-up ops, then '' @
        grouped n @ '' timed ops'' @ eol @
      ''  mix         add '' @ dbl_text D 1 (percent D (st_count st Add) n) @ ''%  cancel '' @ dbl_text D 1 (percent D (st_count st CancelOp) n) @
        ''%  modify '' @ dbl_text D 1 (percent D (st_count st ModifyOp) n) @ ''%  marketable '' @ dbl_text D 1 (percent D marketables n) @ ''%'' @ eol @
      ''  book        '' @ grouped (depth_min st) @ ''-'' @ grouped (depth_max st) @ '' resting orders (target '' @ grouped (target_depth cfg) @
        ''), spread p50 '' @ to_string (unat (spread_p50 st)) @ '' tick'' @ (if spread_p50 st = 1 then [] else ''s'') @ '', p99 '' @
        to_string (unat (spread_p99 st)) @ eol @
      ''  trades      '' @ grouped (st_trades st) @ '', '' @
        dbl_text D 1 (if marketables \<noteq> 0 then dbl_div D (dbl_of D (of_nat (st_trades st))) (dbl_of D (of_nat marketables)) else dbl_of D 0) @
        '' per marketable op; '' @ dbl_text D 0 (percent D (market_orders st) marketables) @ ''% sent as market orders'' @ eol)"

definition run_text :: "'d doubles \<Rightarrow> 'd \<Rightarrow> nat \<Rightarrow> run_result \<Rightarrow> run_machine \<Rightarrow> string" where
  "run_text D tpn r res m =
     (let p = (\<lambda>j. ns D (rr_rows res ! kAllRow ! j) tpn) in
      ''  run '' @ to_string (r + 1) @ ''  p50 '' @ p 0 @ ''  p99 '' @ p 1 @ ''  p99.9 '' @ p 2 @ ''  p99.99 '' @ p 3 @ ''  max '' @ p 4 @
      ''   faults '' @ show_long (us_faults (rm_usage m)) @ ''  switches '' @ show_long (us_switches (rm_usage m)) @
      (if rm_stayed_on_cpu m then [] else ''  WARNING: left its cpu'') @ eol)"

definition results_text :: "'d session \<Rightarrow> report \<Rightarrow> string" where
  "results_text ss rp =
     (let o' = rp_options rp; book_cfg = bench_config (opt_cfg o') (system_alloc o') (opt_price_levels o');
          huge = foldl (\<lambda>m r. max m (rm_huge_kib r)) 0 (ss_runs ss) in
      ''  trade stream '' @ hex16 (st_trade_hash (fl_stats (rp_flow rp))) @ '' in every run, matching the generator'' @ eol @
      ''  huge pages   '' @ show_long (huge div 1024) @ '' MiB of the book on 2 MiB pages (transparent huge pages: '' @ rp_thp rp @ '')'' @ eol @
      ''  orders       pool and id index never outgrew '' @ grouped (unat (expected_orders book_cfg)) @ '' orders'' @
        (if rp_growths rp \<noteq> 0 then '': WARNING, grew '' @ to_string (unat (rp_growths rp)) @ '' times'' else []) @ eol @
      (if opt_price_levels o' = 0 then ''  prices       no flat array (--price-levels 0): every level in a std::map'' @ eol
       else case rr_window_base (hd (rp_results rp)) of
           None \<Rightarrow> []
         | Some base \<Rightarrow> ''  prices       flat array of '' @ grouped (unat (opt_price_levels o')) @ '' levels from '' @ grouped (unat base) @ ''; '' @
             grouped (unat (rp_outside rp)) @ '' level'' @ (if rp_outside rp = 1 then [] else ''s'') @ '' opened outside it'' @ eol))"

text \<open>All of it, in order; \<open>None\<close> is a table over no runs.\<close>

definition report_text :: "'d doubles \<Rightarrow> 'd session \<Rightarrow> report \<Rightarrow> string option" where
  "report_text D ss rp =
     do {
       let o' = rp_options rp;
       let tpn = calibrate D (rp_calibration rp);
       tables \<leftarrow> print_summary D (rp_results rp) (rp_flow rp) tpn;
       Some (machine_text D rp @ flow_text D o' ss (rp_flow rp) @
         eol @ ''runs (ns over all timed ops; page faults and context switches while timing)'' @ eol @
         concat (map (\<lambda>(r, res, m). run_text D tpn r res m) (enumerate 0 (zip (rp_results rp) (ss_runs ss)))) @
         results_text ss rp @ tables @
         (case dump_path o' of None \<Rightarrow> [] | Some p \<Rightarrow> eol @ ''samples written to '' @ p @ eol))
     }"

subsection \<open>Model: the ends without a report\<close>

text \<open>A build with assertions or a sanitizer refuses to measure. The text goes to standard error.\<close>

definition kMeasurable :: "bool \<Rightarrow> bool \<Rightarrow> bool \<Rightarrow> bool" where
  "kMeasurable ndebug address_sanitizer thread_sanitizer \<longleftrightarrow> \<not> (\<not> ndebug \<or> address_sanitizer \<or> thread_sanitizer)"

definition refusal_text :: string where
  "refusal_text =
     ''bench: refusing to run in a debug or sanitized build -- invariant checks'' @ eol @
     ''and instrumentation would dominate every sample. Build a release tree:'' @ eol @
     ''  cmake -S . -B build-rel -DCMAKE_BUILD_TYPE=Release'' @ eol @
     ''  cmake --build build-rel -j && ./build-rel/bench'' @ eol"

definition usage_text :: "string \<Rightarrow> string" where
  "usage_text argv0 =
     ''usage: '' @ argv0 @ '' [--ops N] [--warmup N] [--runs R] [--seed S] [--depth D]'' @ eol @
     ''          [--cpu C | --no-pin] [--prefault MiB] [--system-alloc]'' @ eol @
     ''          [--price-levels N] [--dump FILE]'' @ eol @
     ''  --ops       timed operations per run (default 2000000)'' @ eol @
     ''  --warmup    mixed operations run before recording (default 300000)'' @ eol @
     ''  --runs      repetitions, each on a fresh book (default 5)'' @ eol @
     ''  --seed      flow seed (default 1)'' @ eol @
     ''  --depth     target resting orders (default 5000)'' @ eol @
     ''  --cpu       pin to this CPU (default: the last one allowed)'' @ eol @
     ''  --no-pin    do not pin'' @ eol @
     ''  --prefault  MiB of heap to pre-fault on glibc (default 64)'' @ eol @
     ''  --system-alloc  fallback map nodes from malloc, not the book's arena'' @ eol @
     ''  --price-levels  prices in the flat array, centred on the first resting'' @ eol @
     ''              order (default 4096); 0 puts every level in a std::map'' @ eol @
     ''  --dump      write every sample as CSV: run,index,kind,ns'' @ eol"

text \<open>The whole program: the exit code 2 is the refusal or the usage.\<close>

definition bench_program :: "bool \<Rightarrow> string \<Rightarrow> host \<Rightarrow> (nat \<Rightarrow> 64 word) \<Rightarrow> (nat \<Rightarrow> nat \<Rightarrow> 64 word) \<Rightarrow> string list \<Rightarrow>
    (outcome \<times> string option) option" where
  "bench_program measurable argv0 h clock run_clock args =
     (if \<not> measurable then Some (Exited 2, Some refusal_text)
      else map_option (\<lambda>r. (r, if r = Exited 2 then Some (usage_text argv0) else None)) (bench_main h clock run_clock args))"

subsection \<open>Formats\<close>

text \<open>The sixteen digits determine the word.\<close>

lemma hex16_length [simp]: "length (hex16 w) = 16"
  by (simp add: hex16_def)

lemma hex_digit_inj:
  assumes "''0123456789abcdef'' ! a = ''0123456789abcdef'' ! b" and "a < 16" "b < 16"
  shows "a = b"
proof -
  have "distinct ''0123456789abcdef''" by simp
  then show ?thesis using assms nth_eq_iff_index_eq [of "''0123456789abcdef''" a b] by simp
qed

lemma hex16_inj: "hex16 w = hex16 w' \<Longrightarrow> w = w'"
proof (rule bit_word_eqI)
  fix n
  assume eq: "hex16 w = hex16 w'" and "n < LENGTH(64)"
  then have n: "n div 4 < 16" by simp
  have digit: "unat (x AND 15) < 16" for x :: "64 word"
    using word_and_le1 [of x 15] by (simp add: word_le_nat_alt unat_arith_simps)
  have at: "hex16 v ! (15 - n div 4) = ''0123456789abcdef'' ! unat (drop_bit (4 * (n div 4)) v AND 15)" for v
  proof -
    have r: "rev [0..<16] ! (15 - n div 4) = n div 4" "15 - n div 4 < length (rev [0..<16])" using n by (subst rev_nth) simp_all
    show ?thesis unfolding hex16_def nth_map [OF r(2)] r(1) ..
  qed
  have "unat (drop_bit (4 * (n div 4)) w AND 15) = unat (drop_bit (4 * (n div 4)) w' AND 15)"
    by (rule hex_digit_inj) (use at [of w] at [of w'] eq digit in simp_all)
  then have "drop_bit (4 * (n div 4)) w AND 15 = drop_bit (4 * (n div 4)) w' AND 15" by (simp only: word_unat_eq_iff)
  then have "bit (drop_bit (4 * (n div 4)) w AND 15) (n mod 4) = bit (drop_bit (4 * (n div 4)) w' AND 15) (n mod 4)" by simp
  moreover have "bit (15 :: 64 word) (n mod 4)"
  proof -
    have "n mod 4 \<in> {0, 1, 2, 3}" by auto
    then show ?thesis by (auto simp: bit_numeral_rec)
  qed
  ultimately show "bit w n = bit w' n" by (simp add: bit_and_iff bit_drop_bit_eq)
qed

text \<open>Conversion to nanoseconds does not reorder, as rounding does not.\<close>

definition dbl_monotone :: "('d \<Rightarrow> 'd \<Rightarrow> bool) \<Rightarrow> 'd doubles \<Rightarrow> 'd \<Rightarrow> bool" where
  "dbl_monotone le D tpn \<longleftrightarrow> (\<forall>a b. a \<le> b \<longrightarrow> le (dbl_of D a) (dbl_of D b)) \<and>
     (\<forall>x y. le x y \<longrightarrow> le (dbl_div D x tpn) (dbl_div D y tpn) \<and> le (dbl_add D x (dbl_half D)) (dbl_add D y (dbl_half D)) \<and> dbl_to D x \<le> dbl_to D y)"

lemma ns_monotone: "dbl_monotone le D tpn \<Longrightarrow> a \<le> b \<Longrightarrow> ns_ticks D a tpn \<le> ns_ticks D b tpn"
  by (auto simp: dbl_monotone_def ns_ticks_def)

subsection \<open>The files read\<close>

text \<open>A line of the other file that is not the one looked for is skipped, and the number of the one that is, is read.\<close>

lemma find_char_append: "c \<notin> set a \<Longrightarrow> find_char c (a @ c # r) = Some (length a)"
  by (induction a) auto

lemma anon_huge_kib_skips:
  assumes "key \<noteq> []" "list_all (\<lambda>c. \<not> is_space c) key" "key \<noteq> ''AnonHugePages:''"
    and "CHR 0x0A \<notin> set l" "length l < 4095" "l = [] \<or> is_space (hd l)"
  shows "anon_huge_kib (key @ l @ CHR 0x0A # rest) = anon_huge_kib rest"
proof -
  have nl: "is_space (CHR 0x0A)" by (simp add: is_space_def)
  have d: "dropWhile is_space (key @ l @ CHR 0x0A # rest) = key @ l @ CHR 0x0A # rest"
    using assms(1,2) by (cases key) auto
  have t: "takeWhile (\<lambda>c. \<not> is_space c) (key @ l @ CHR 0x0A # rest) = key"
    using assms(2,6) nl by (cases l) (auto simp: takeWhile_append list_all_iff)
  have "take 4096 (l @ CHR 0x0A # rest) = l @ CHR 0x0A # take (4095 - length l) rest"
    using assms(5) by (simp add: take_Cons')
  then have "ignore_line (l @ CHR 0x0A # rest) = rest"
    using find_char_append [OF assms(4)] by (simp add: ignore_line_def)
  then show ?thesis using assms(1,3) by (subst anon_huge_kib.simps) (simp add: d t Let_def)
qed

lemma anon_huge_kib_reads:
  assumes "n < 2 ^ 63" and "list_all is_space w" "w \<noteq> []" and "\<not> is_digit (hd r)" "r \<noteq> []"
  shows "anon_huge_kib (''AnonHugePages:'' @ w @ to_string n @ r) = int n"
proof -
  have spaces: "dropWhile is_space (w @ to_string n @ r) = dropWhile is_space (to_string n @ r)"
    using assms(2) by (simp add: dropWhile_append list_all_iff)
  obtain c cs where c: "to_string n = c # cs" using to_string_digits [of n] by (cases "to_string n") auto
  have dc: "\<forall>d\<in>set (to_string n). is_digit d" using to_string_digits [of n] by (simp add: is_digit_def)
  then have "is_digit c" by (simp add: c)
  then have notsp: "\<not> is_space c" "c \<noteq> CHR ''-''" "c \<noteq> CHR ''+''" by (auto simp: is_digit_def is_space_def)
  have "takeWhile is_digit (to_string n @ r) = to_string n" using dc assms(4,5) by (cases r) (auto simp: takeWhile_append)
  then have tw: "takeWhile is_digit (c # cs @ r) = to_string n" by (simp add: c)
  have "signed_digits (w @ to_string n @ r) = (False, n)"
    using notsp tw of_digits_to_string [of n] unfolding signed_digits_def spaces by (simp add: c)
  then have long: "read_long (w @ to_string n @ r) = int n" using assms(1) by (simp add: read_long_def)
  have ns: "list_all (\<lambda>c. \<not> is_space c) ''AnonHugePages:''" by (simp add: is_space_def)
  have "dropWhile is_space (''AnonHugePages:'' @ w @ to_string n @ r) = ''AnonHugePages:'' @ w @ to_string n @ r"
    by (simp add: is_space_def)
  moreover have "takeWhile (\<lambda>c. \<not> is_space c) (''AnonHugePages:'' @ w @ to_string n @ r) = ''AnonHugePages:''"
    using ns assms(2,3) by (cases w) (auto simp: takeWhile_append list_all_iff)
  ultimately show ?thesis using long by (subst anon_huge_kib.simps) (simp add: Let_def)
qed

subsection \<open>The report is printed\<close>

text \<open>The medians of the table are those of the summary.\<close>

lemma across_cell_median: "map_option cell_median (across_cell D runs r j) = across_runs runs r j"
  by (simp add: across_cell_def across_runs_def Let_def)

lemma across_cell_returns: "runs \<noteq> [] \<Longrightarrow> \<exists>c. across_cell D runs r j = Some c"
  by (simp add: across_cell_def Let_def)

lemma those_map_Some: "those (map (\<lambda>x. Some (f x)) xs) = Some (map f xs)"
  by (induction xs) auto

lemma those_map_returns: "(\<And>x. x \<in> set xs \<Longrightarrow> \<exists>y. f x = Some y) \<Longrightarrow> \<exists>ys. those (map f xs) = Some ys \<and> length ys = length xs"
proof (induction xs)
  case (Cons x xs)
  then obtain y ys where "f x = Some y" "those (map f xs) = Some ys" "length ys = length xs" by (metis list.set_intros)
  then show ?case by simp
qed simp

lemma table_text_returns:
  assumes "runs \<noteq> []"
  shows "\<exists>t. table_text counts (\<lambda>r j. map_option (g j) (across_cell D runs r j)) = Some t"
proof -
  define line where "line = (\<lambda>r. map_option (\<lambda>cs. ''  '' @ pad_right 11 (row_name r) @ '' '' @ pad_left 11 (counts r) @ concat cs @ eol)
      (those (map (\<lambda>j. map_option (g j) (across_cell D runs r j)) [0..<kPoints])))"
  have "\<exists>y. line r = Some y" for r
  proof -
    have "\<exists>ys. those (map (\<lambda>j. map_option (g j) (across_cell D runs r j)) [0..<kPoints]) = Some ys \<and> length ys = length [0..<kPoints]"
      by (rule those_map_returns) (use across_cell_returns [OF assms, of D r] in auto)
    then show ?thesis by (auto simp: line_def)
  qed
  then obtain ys where "those (map line [0..<kRows]) = Some ys" using those_map_returns [of "[0..<kRows]" line] by blast
  then show ?thesis by (simp add: table_text_def line_def)
qed

lemma print_summary_returns:
  assumes "runs \<noteq> []"
  shows "\<exists>t. print_summary D runs f tpn = Some t"
proof -
  obtain t1 where t1: "table_text (\<lambda>r. grouped (row_count f r)) (\<lambda>r j. map_option (\<lambda>c. '' '' @ pad_left (if j + 1 = kPoints then 10 else 8)
      (ns D (cell_median c) tpn)) (across_cell D runs r j)) = Some t1"
    using table_text_returns [OF assms, where g = "\<lambda>j c. '' '' @ pad_left (if j + 1 = kPoints then 10 else 8) (ns D (cell_median c) tpn)" and D = D] by blast
  obtain t2 where t2: "table_text (\<lambda>r. []) (\<lambda>r j. map_option (\<lambda>c. '' '' @ pad_left (if j + 1 = kPoints then 9 else 7) (dbl_text D 0 (cell_spread c)) @ ''%'')
      (across_cell D runs r j)) = Some t2"
    using table_text_returns [OF assms, where g = "\<lambda>j c. '' '' @ pad_left (if j + 1 = kPoints then 9 else 7) (dbl_text D 0 (cell_spread c)) @ ''%''" and D = D] by blast
  show ?thesis unfolding print_summary_def t1 t2 bind.bind_lunit Let_def by (cases "length runs < 2") (simp_all only: if_True if_False, blast+)
qed

lemma bench_runs_length: "bench_runs clocks be = Some (Inr rs) \<Longrightarrow> length rs = length clocks"
proof (induction clocks arbitrary: be rs)
  case (Cons clock clocks)
  obtain res be' where r: "bench_run clock be = Some (res, be')" using Cons.prems by (cases "bench_run clock be") auto
  then obtain x where x: "run_accepted (bn_flow be) res" "bench_runs clocks be' = Some x"
    using Cons.prems by (cases "bench_runs clocks be'") (auto split: if_splits)
  then show ?case using Cons.prems Cons.IH [of be'] r by (cases x) auto
qed simp

lemma reported_runs:
  assumes "bench_main h clock run_clock args = Some (Reported rp)" and "bench_setup h clock args = Some (Inr su)"
  shows "rp_results rp \<noteq> []"
proof -
  obtain name results where r: "rp = make_report h su name results"
      "bench_runs (map run_clock [0..<unat (opt_runs (su_options su))]) (su_bench su) = Some (Inr results)"
    using reported_setup [OF assms] .
  show ?thesis using bench_runs_length [OF r(2)] setup_runs [OF assms(2)] r(1) by (auto simp: make_report_def Let_def unat_eq_0)
qed

text \<open>
  (C36) The report is printed, or the name of the processor cannot be. Once \<^verbatim>\<open>main\<close> has been set up, it is ended by
  \<^verbatim>\<open>std::out_of_range\<close>, before the first run and caught by nobody, exactly when the first line of \<^verbatim>\<open>/proc/cpuinfo\<close> that starts with
  \<^verbatim>\<open>model name\<close> and has a colon ends there. And whenever it reaches its report, it has the name, and for whatever floating-point
  arithmetic, calibration and answers of the machine all the text can be printed, the spread and the medians of every cell included.
\<close>

theorem report_printed:
  assumes "bench_setup h clock args = Some (Inr su)"
  shows "(bench_main h clock run_clock args = Some (Uncaught Out_of_range) \<longleftrightarrow>
      (\<exists>pre s post. host_cpuinfo h = pre @ (s @ '':'') # post \<and> list_all (\<lambda>l. \<not> colon_line l) pre \<and> model_name (s @ '':'') \<and> CHR '':'' \<notin> set s)) \<and>
    (\<forall>rp. bench_main h clock run_clock args = Some (Reported rp) \<longrightarrow>
      cpu_model (host_cpuinfo h) = Some (rp_cpu_name rp) \<and> (\<exists>t. report_text D ss rp = Some t))"
proof -
  have throws: "bench_main h clock run_clock args = Some (Uncaught Out_of_range) \<longleftrightarrow> cpu_model (host_cpuinfo h) = None"
    using assms by (auto simp: bench_main_def bind_eq_Some_conv split: option.split sum.splits)
  have printed: "cpu_model (host_cpuinfo h) = Some (rp_cpu_name rp) \<and> (\<exists>t. report_text D ss rp = Some t)"
    if m: "bench_main h clock run_clock args = Some (Reported rp)" for rp
  proof -
    obtain name results where r: "cpu_model (host_cpuinfo h) = Some name" "rp = make_report h su name results"
      using reported_setup [OF m assms] .
    obtain t where "print_summary D (rp_results rp) (rp_flow rp) (calibrate D (rp_calibration rp)) = Some t"
      using print_summary_returns [OF reported_runs [OF m assms], where D = D] by blast
    then show ?thesis using r by (simp add: report_text_def make_report_def Let_def)
  qed
  show ?thesis using throws printed unfolding cpu_model_throws by blast
qed

text \<open>The program on the sample machine, with the given lines of \<^verbatim>\<open>/proc/cpuinfo\<close>.\<close>

lemma sample_setup: "\<exists>su. bench_setup (sample_host\<lparr>host_cpuinfo := lines\<rparr>) coarse_clock [''--runs'', ''2''] = Some (Inr su)"
proof -
  let ?o = "(default_options 3)\<lparr>opt_runs := 2\<rparr>"
  have shape: "add_percent (opt_cfg ?o) + cancel_percent (opt_cfg ?o) + modify_percent (opt_cfg ?o) + marketable_percent (opt_cfg ?o) = 100"
      "tail_ticks (opt_cfg ?o) + 1 < start_mid (opt_cfg ?o)"
    by (simp_all add: default_options_def default_flow_def)
  obtain f where gen: "generate (opt_cfg ?o) = Some (Inr f)"
    using generate_valid [OF shape sample_command_line(4)] kTradeCapacity_ring by metis
  from setup_returns [OF sample_command_line(1-3) gen bench_config_fields(3) [OF sample_command_line(4,5)] sample_command_line(6-9)]
  show ?thesis by blast
qed

theorem report_printed_witness:
  "bench_main (sample_host\<lparr>host_cpuinfo := [''processor : 0'', ''model name:'']\<rparr>) coarse_clock (\<lambda>i. coarse_clock) [''--runs'', ''2''] =
     Some (Uncaught Out_of_range)"
proof -
  let ?h = "sample_host\<lparr>host_cpuinfo := [''processor : 0'', ''model name:'']\<rparr>"
  obtain su where su: "bench_setup ?h coarse_clock [''--runs'', ''2''] = Some (Inr su)" using sample_setup by blast
  have "[''processor : 0'', ''model name:''] = [''processor : 0''] @ (''model name'' @ '':'') # []" "\<not> colon_line ''processor : 0''"
      "model_name (''model name'' @ '':'')" "CHR '':'' \<notin> set ''model name''"
    by (simp_all add: colon_line_def model_name_def)
  then have "\<exists>pre s post. host_cpuinfo ?h = pre @ (s @ '':'') # post \<and> list_all (\<lambda>l. \<not> colon_line l) pre \<and>
      model_name (s @ '':'') \<and> CHR '':'' \<notin> set s"
    by (intro exI [of _ "[''processor : 0'']"] exI [of _ "''model name''"] exI [of _ "[]"]) simp
  then show ?thesis using report_printed [OF su] by blast
qed

end
