(* ===== verification/Node_Arena.thy ===== *)
theory Node_Arena
  imports Lob_Prelude "HOL-Library.Multiset" "HOL-Library.Monad_Syntax"
begin

section \<open>The node arena (\<^verbatim>\<open>node_arena.hpp\<close>, \<^verbatim>\<open>node_arena.cpp\<close>)\<close>

text \<open>
  The allocator behind the fallback map: blocks carved from slabs and recycled through one intrusive list per size class.
  A pointer is its address, a natural number, with 0 for null; the words that the arena itself writes into its memory (the
  link in a free block, the header of a slab) are cells of a map from addresses. The global \<^verbatim>\<open>operator new\<close> is a parameter: \<open>new k L n\<close>
  is the address it returns at its \<open>k\<close>-th call for \<open>n\<close> bytes while the blocks \<open>L\<close> are allocated, or \<open>None\<close> where it
  throws \<^verbatim>\<open>std::bad_alloc\<close>.
\<close>

subsection \<open>Model\<close>

type_synonym addr = nat
type_synonym region = "addr \<times> nat"
type_synonym op_new = "nat \<Rightarrow> region list \<Rightarrow> nat \<Rightarrow> addr option"

definition kGranule :: nat where
  "kGranule = 16"

definition kMaxBlock :: nat where
  "kMaxBlock = 256"

definition kSlabBytes :: nat where
  "kSlabBytes = 64 * 1024"

definition kTouchStride :: nat where
  "kTouchStride = 4096"

text \<open>The arena with the memory it works on and the blocks that the system has handed out, to it or to others through it.\<close>

record arena =
  free_heads :: "addr list"
  cursor :: addr
  slab_end :: addr
  newest :: addr
  slab_total :: nat
  cells :: "addr \<Rightarrow> nat"
  sys_blocks :: "region list"
  sys_calls :: nat

definition arena_size_class :: "nat \<Rightarrow> nat" where
  "arena_size_class bytes = (if bytes = 0 then 1 else (bytes + kGranule - 1) div kGranule)"

definition sys_new :: "op_new \<Rightarrow> nat \<Rightarrow> arena \<Rightarrow> (addr \<times> arena) option" where
  "sys_new new n ar =
     map_option (\<lambda>a. (a, ar\<lparr>sys_blocks := (a, n) # sys_blocks ar, sys_calls := sys_calls ar + 1\<rparr>))
       (new (sys_calls ar) (sys_blocks ar) n)"

definition sys_delete :: "addr \<Rightarrow> nat \<Rightarrow> arena \<Rightarrow> arena" where
  "sys_delete a n ar = ar\<lparr>sys_blocks := remove1 (a, n) (sys_blocks ar)\<rparr>"

text \<open>One byte of every page of a new slab is written; the header then holds the previous slab and the size.\<close>

fun touch :: "addr \<Rightarrow> nat list \<Rightarrow> (addr \<Rightarrow> nat) \<Rightarrow> addr \<Rightarrow> nat" where
  "touch slab [] m = m"
| "touch slab (off # offs) m = touch slab offs (m(slab + off := 0))"

definition touch_offsets :: "nat \<Rightarrow> nat list" where
  "touch_offsets bytes = map (\<lambda>i. i * kTouchStride) [0..<(bytes + kTouchStride - 1) div kTouchStride]"

definition add_slab :: "op_new \<Rightarrow> nat \<Rightarrow> arena \<Rightarrow> arena option" where
  "add_slab new bytes ar =
     do {
       (slab, ar1) \<leftarrow> sys_new new bytes ar;
       Some (ar1\<lparr>cells := (touch slab (touch_offsets bytes) (cells ar1))(slab := newest ar1, slab + 8 := bytes),
                 newest := slab, slab_total := slab_total ar1 + bytes,
                 cursor := slab + kGranule, slab_end := slab + bytes\<rparr>)
     }"

definition carve :: "op_new \<Rightarrow> nat \<Rightarrow> arena \<Rightarrow> (addr \<times> arena) option" where
  "carve new c ar =
     do {
       let bytes = c * kGranule;
       ar1 \<leftarrow> (if slab_end ar - cursor ar < bytes then add_slab new kSlabBytes ar else Some ar);
       let p = cursor ar1;
       Some (p, ar1\<lparr>cursor := cursor ar1 + bytes\<rparr>)
     }"

definition arena_allocate :: "op_new \<Rightarrow> nat \<Rightarrow> arena \<Rightarrow> (addr \<times> arena) option" where
  "arena_allocate new bytes ar =
     (if bytes > kMaxBlock then sys_new new bytes ar
      else let c = arena_size_class bytes; b = free_heads ar ! c in
        if b \<noteq> 0 then Some (b, ar\<lparr>free_heads := (free_heads ar)[c := cells ar b]\<rparr>)
        else carve new c ar)"

definition arena_deallocate :: "addr \<Rightarrow> nat \<Rightarrow> arena \<Rightarrow> arena" where
  "arena_deallocate p bytes ar =
     (if bytes > kMaxBlock then sys_delete p bytes ar
      else let c = arena_size_class bytes in
        ar\<lparr>cells := (cells ar)(p := free_heads ar ! c), free_heads := (free_heads ar)[c := p]\<rparr>)"

text \<open>The sum in the constructor is a 64-bit one.\<close>

definition arena_new :: "op_new \<Rightarrow> 64 word \<Rightarrow> region list \<Rightarrow> (addr \<Rightarrow> nat) \<Rightarrow> arena option" where
  "arena_new new reserve_bytes L m =
     (let ar = \<lparr>free_heads = replicate (kMaxBlock div kGranule + 1) 0, cursor = 0, slab_end = 0, newest = 0, slab_total = 0,
                cells = m, sys_blocks = L, sys_calls = 0\<rparr>
      in if reserve_bytes > 0
         then add_slab new (max (unat (reserve_bytes + of_nat kGranule)) kSlabBytes) ar
         else Some ar)"

text \<open>The loop of the destructor over the slabs, newest first.\<close>

partial_function (option) arena_destroy :: "arena \<Rightarrow> arena option" where
  "arena_destroy ar =
     (if newest ar = 0 then Some ar
      else arena_destroy ((sys_delete (newest ar) (cells ar (newest ar + 8)) ar)\<lparr>newest := cells ar (newest ar)\<rparr>))"

subsection \<open>Regions of memory\<close>

definition bytes_of :: "region \<Rightarrow> addr set" where
  "bytes_of r = {fst r ..< fst r + snd r}"

definition apart :: "region multiset \<Rightarrow> bool" where
  "apart M \<longleftrightarrow> (\<forall>x\<in>#M. \<forall>y\<in>#M - {#x#}. bytes_of x \<inter> bytes_of y = {})"

lemma apart_empty [simp]: "apart {#}"
  by (simp add: apart_def)

lemma apartD: "apart M \<Longrightarrow> x \<in># M \<Longrightarrow> y \<in># M - {#x#} \<Longrightarrow> bytes_of x \<inter> bytes_of y = {}"
  unfolding apart_def by blast

lemma apart_mono:
  assumes "apart M" and "N \<subseteq># M"
  shows "apart N"
proof -
  have "N - {#x#} \<subseteq># M - {#x#}" for x using assms(2) by (simp add: subseteq_mset_def diff_le_mono)
  then show ?thesis using assms unfolding apart_def by (meson mset_subset_eqD)
qed

lemma apart_add [simp]: "apart (add_mset r M) \<longleftrightarrow> apart M \<and> (\<forall>x\<in>#M. bytes_of r \<inter> bytes_of x = {})"
proof
  assume a: "apart (add_mset r M)"
  have "bytes_of r \<inter> bytes_of x = {}" if "x \<in># M" for x using apartD [OF a, of r x] that by simp
  then show "apart M \<and> (\<forall>x\<in>#M. bytes_of r \<inter> bytes_of x = {})" using apart_mono [OF a] by simp
next
  assume a: "apart M \<and> (\<forall>x\<in>#M. bytes_of r \<inter> bytes_of x = {})"
  show "apart (add_mset r M)"
    unfolding apart_def
  proof (intro ballI)
    fix x y
    assume x: "x \<in># add_mset r M" and y: "y \<in># add_mset r M - {#x#}"
    show "bytes_of x \<inter> bytes_of y = {}"
    proof (cases "x = r")
      case False
      then have "x \<in># M" "y = r \<or> y \<in># M - {#x#}" using x y by auto
      then show ?thesis using a apartD by blast
    qed (use a y in simp)
  qed
qed

text \<open>Replacing a region by parts of it that do not overlap.\<close>

lemma apart_shrink:
  assumes "apart (add_mset r M)" and "bytes_of q \<subseteq> bytes_of r"
  shows "apart (add_mset q M)"
  using assms by (simp add: disjoint_iff subset_iff)

lemma apart_split:
  assumes "apart (add_mset (a, m + n) M)"
  shows "apart (add_mset (a, m) (add_mset (a + m, n) M))"
proof -
  have "bytes_of (a, m) \<subseteq> bytes_of (a, m + n)" "bytes_of (a + m, n) \<subseteq> bytes_of (a, m + n)" "bytes_of (a, m) \<inter> bytes_of (a + m, n) = {}"
    by (auto simp: bytes_of_def)
  then show ?thesis using assms by (simp add: disjoint_iff subset_iff)
qed

text \<open>A new region outside a larger one that holds all the others.\<close>

lemma apart_fresh:
  assumes "apart M" and "\<And>x. x \<in># M \<Longrightarrow> bytes_of x \<subseteq> U" and "bytes_of r \<inter> U = {}"
  shows "apart (add_mset r M)"
  using assms by (simp add: disjoint_iff subset_iff) blast

subsection \<open>Representation invariant\<close>

text \<open>
  A live block is known by its address and the number of bytes asked for. \<open>F c\<close> is the free list of size class \<open>c\<close>, \<open>S\<close> the
  slabs, newest first.
\<close>

definition small :: "region \<Rightarrow> bool" where
  "small r \<longleftrightarrow> snd r \<le> kMaxBlock"

definition class_region :: "nat \<Rightarrow> addr \<Rightarrow> region" where
  "class_region c p = (p, c * kGranule)"

definition live_region :: "region \<Rightarrow> region" where
  "live_region r = class_region (arena_size_class (snd r)) (fst r)"

definition free_regions :: "(nat \<Rightarrow> addr list) \<Rightarrow> region multiset" where
  "free_regions F = (\<Sum>c\<in>{1..16}. image_mset (class_region c) (mset (F c)))"

definition arena_regions :: "arena \<Rightarrow> region list \<Rightarrow> (nat \<Rightarrow> addr list) \<Rightarrow> region list \<Rightarrow> region multiset" where
  "arena_regions ar L F S = image_mset live_region (mset (filter small L)) + free_regions F +
     image_mset (\<lambda>s. (fst s, kGranule)) (mset S) + {#(cursor ar, slab_end ar - cursor ar)#}"

definition chains_ok :: "arena \<Rightarrow> (nat \<Rightarrow> addr list) \<Rightarrow> region list \<Rightarrow> bool" where
  "chains_ok ar F S \<longleftrightarrow> length (free_heads ar) = 17 \<and> (\<forall>c\<in>{1..16}. chain 0 (cells ar) (free_heads ar ! c) (F c)) \<and>
     chain 0 (cells ar) (newest ar) (map fst S) \<and> (\<forall>s\<in>set S. cells ar (fst s + 8) = snd s)"

definition arena_wf :: "region list \<Rightarrow> arena \<Rightarrow> region list \<Rightarrow> (nat \<Rightarrow> addr list) \<Rightarrow> region list \<Rightarrow> bool" where
  "arena_wf E ar L F S \<longleftrightarrow> chains_ok ar F S \<and>
     mset (sys_blocks ar) = mset S + mset (filter (\<lambda>r. \<not> small r) L) + mset E \<and> apart (mset (sys_blocks ar)) \<and>
     (\<forall>r\<in>set S \<union> set (filter (\<lambda>r. \<not> small r) L). 0 < fst r \<and> kGranule dvd fst r) \<and> (\<forall>s\<in>set S. kGranule \<le> snd s) \<and>
     apart (arena_regions ar L F S) \<and>
     (\<forall>r\<in>#arena_regions ar L F S. kGranule dvd fst r \<and> bytes_of r \<subseteq> (\<Union>s\<in>set S. bytes_of s))"

lemma arena_wfD:
  assumes "arena_wf E ar L F S"
  shows "chains_ok ar F S" "mset (sys_blocks ar) = mset S + mset (filter (\<lambda>r. \<not> small r) L) + mset E"
    "apart (mset (sys_blocks ar))" "apart (arena_regions ar L F S)"
    "r \<in># arena_regions ar L F S \<Longrightarrow> kGranule dvd fst r" "r \<in># arena_regions ar L F S \<Longrightarrow> bytes_of r \<subseteq> (\<Union>s\<in>set S. bytes_of s)"
    "s \<in> set S \<Longrightarrow> 0 < fst s \<and> kGranule dvd fst s \<and> kGranule \<le> snd s"
    "r \<in> set L \<Longrightarrow> \<not> small r \<Longrightarrow> 0 < fst r \<and> kGranule dvd fst r"
  using assms by (auto simp: arena_wf_def)

lemma arena_wfI:
  assumes "chains_ok ar F S" and "mset (sys_blocks ar) = mset S + mset (filter (\<lambda>r. \<not> small r) L) + mset E"
    and "apart (mset (sys_blocks ar))" and "apart (arena_regions ar L F S)"
    and "\<And>r. r \<in># arena_regions ar L F S \<Longrightarrow> kGranule dvd fst r \<and> bytes_of r \<subseteq> (\<Union>s\<in>set S. bytes_of s)"
    and "\<And>s. s \<in> set S \<Longrightarrow> 0 < fst s \<and> kGranule dvd fst s \<and> kGranule \<le> snd s"
    and "\<And>r. r \<in> set L \<Longrightarrow> \<not> small r \<Longrightarrow> 0 < fst r \<and> kGranule dvd fst r"
  shows "arena_wf E ar L F S"
  unfolding arena_wf_def using assms by auto

lemma arena_wf_cong:
  assumes "arena_wf E ar L F S" and "chains_ok ar' F S"
    and "cursor ar' = cursor ar" "slab_end ar' = slab_end ar" "sys_blocks ar' = sys_blocks ar"
  shows "arena_wf E ar' L F S"
proof -
  have "arena_regions ar' L F S = arena_regions ar L F S" using assms(3,4) by (simp add: arena_regions_def)
  then show ?thesis using assms(1,2) unfolding arena_wf_def assms(5) by metis
qed

lemma size_class_bounds: "arena_size_class n \<le> 16 \<longleftrightarrow> n \<le> kMaxBlock" "1 \<le> arena_size_class n" "n \<le> arena_size_class n * kGranule"
  by (auto simp: arena_size_class_def kGranule_def kMaxBlock_def)

lemma free_regions_pop:
  assumes "c \<in> {1..16}" and "F c = p # ps"
  shows "free_regions F = add_mset (class_region c p) (free_regions (F(c := ps)))"
proof -
  have "free_regions F = image_mset (class_region c) (mset (F c)) + (\<Sum>d\<in>{1..16} - {c}. image_mset (class_region d) (mset (F d)))"
    using assms(1) by (simp add: free_regions_def sum.remove)
  moreover have "free_regions (F(c := ps)) = image_mset (class_region c) (mset ps) + (\<Sum>d\<in>{1..16} - {c}. image_mset (class_region d) (mset (F d)))"
    using assms(1) by (simp add: free_regions_def sum.remove)
  ultimately show ?thesis using assms(2) by simp
qed

lemma free_regions_member: "c \<in> {1..16} \<Longrightarrow> p \<in> set (F c) \<Longrightarrow> class_region c p \<in># free_regions F"
  unfolding free_regions_def by (subst sum.remove [of _ c]) auto

subsection \<open>Cells that the arena reads\<close>

definition control_cells :: "(nat \<Rightarrow> addr list) \<Rightarrow> region list \<Rightarrow> addr set" where
  "control_cells F S = (\<Union>c\<in>{1..16}. set (F c)) \<union> (\<Union>s\<in>set S. {fst s, fst s + 8})"

lemma control_cellsI:
  "c \<in> {1..16} \<Longrightarrow> x \<in> set (F c) \<Longrightarrow> x \<in> control_cells F S"
  "s \<in> set S \<Longrightarrow> fst s \<in> control_cells F S" "s \<in> set S \<Longrightarrow> fst s + 8 \<in> control_cells F S"
  unfolding control_cells_def by blast+

lemma chains_frame:
  assumes "chains_ok ar F S" and "\<And>x. x \<in> control_cells F S \<Longrightarrow> m x = cells ar x"
  shows "chains_ok (ar\<lparr>cells := m\<rparr>) F S"
proof -
  note ok = assms(1) [unfolded chains_ok_def]
  have a: "chain 0 m (free_heads ar ! c) (F c)" if c: "c \<in> {1..16}" for c
  proof (rule chain_cong)
    show "chain 0 (cells ar) (free_heads ar ! c) (F c)" using ok c by blast
    show "cells ar x = m x" if x: "x \<in> set (F c)" for x
      using assms(2) [OF control_cellsI(1) [where F = F, OF c x]] by simp
  qed
  have b: "chain 0 m (newest ar) (map fst S)"
  proof (rule chain_cong)
    show "chain 0 (cells ar) (newest ar) (map fst S)" using ok by blast
    show "cells ar x = m x" if x: "x \<in> set (map fst S)" for x
    proof -
      obtain s where "s \<in> set S" "x = fst s" using x by auto
      then show ?thesis using assms(2) [OF control_cellsI(2)] by simp
    qed
  qed
  have "m (fst s + 8) = snd s" if s: "s \<in> set S" for s
    using assms(2) [OF control_cellsI(3) [OF s]] ok s by auto
  then show ?thesis using a b ok by (simp add: chains_ok_def)
qed

text \<open>They lie in free blocks and in slab headers, so in slabs, and outside every live block.\<close>

lemma mset_pull: "r \<in># N \<Longrightarrow> A + N + T = add_mset r (A + ((N - {#r#}) + T))"
  by (drule multi_member_split) auto

lemma control_cells_region:
  assumes wf: "arena_wf E ar L F S" and x: "x \<in> control_cells F S"
  obtains r M where "arena_regions ar L F S = add_mset r (image_mset live_region (mset (filter small L)) + M)" "x \<in> bytes_of r"
proof -
  let ?H = "image_mset (\<lambda>s. (fst s, kGranule)) (mset S)" and ?T = "{#(cursor ar, slab_end ar - cursor ar)#}"
  have "\<exists>r. r \<in># free_regions F + ?H \<and> x \<in> bytes_of r"
  proof (cases "\<exists>c\<in>{1..16}. x \<in> set (F c)")
    case True
    then obtain c where c: "c \<in> {1..16}" "x \<in> set (F c)" by blast
    have "x \<in> bytes_of (class_region c x)" using c(1) by (simp add: bytes_of_def class_region_def kGranule_def)
    moreover have "class_region c x \<in># free_regions F + ?H" using free_regions_member [of c x F] c by (intro union_iff [THEN iffD2] disjI1)
    ultimately show ?thesis by blast
  next
    case False
    then obtain s where "s \<in> set S" "x = fst s \<or> x = fst s + 8" using x by (auto simp: control_cells_def)
    then have "(fst s, kGranule) \<in># ?H" "x \<in> bytes_of (fst s, kGranule)" by (auto simp: bytes_of_def kGranule_def)
    then show ?thesis by auto
  qed
  then obtain r where r: "r \<in># free_regions F + ?H" "x \<in> bytes_of r" by blast
  let ?A = "image_mset live_region (mset (filter small L))"
  have "arena_regions ar L F S = ?A + (free_regions F + ?H) + ?T" unfolding arena_regions_def by (simp only: add.assoc)
  also have "\<dots> = add_mset r (?A + ((free_regions F + ?H - {#r#}) + ?T))"
    using r(1) by (rule mset_pull)
  finally have "arena_regions ar L F S = add_mset r (?A + ((free_regions F + ?H - {#r#}) + ?T))" .
  then show thesis using that r(2) by blast
qed

lemma control_cells_in_slab:
  assumes "arena_wf E ar L F S" and "x \<in> control_cells F S"
  shows "\<exists>s\<in>set S. x \<in> bytes_of s"
  using control_cells_region [OF assms] arena_wfD(6) [OF assms(1)] by (metis (no_types, lifting) UN_E subsetD union_single_eq_member)

lemma live_small:
  assumes wf: "arena_wf E ar L F S" and r: "r \<in> set L" "small r"
  shows "live_region r \<in># arena_regions ar L F S" "bytes_of r \<subseteq> bytes_of (live_region r)"
    "bytes_of (live_region r) \<inter> control_cells F S = {}"
proof -
  show m: "live_region r \<in># arena_regions ar L F S" using r by (auto simp: arena_regions_def)
  show "bytes_of r \<subseteq> bytes_of (live_region r)"
    using size_class_bounds(3) [of "snd r"] by (auto simp: bytes_of_def live_region_def class_region_def)
  have "x \<notin> bytes_of (live_region r)" if x: "x \<in> control_cells F S" for x
  proof -
    obtain q M where q: "arena_regions ar L F S = add_mset q (image_mset live_region (mset (filter small L)) + M)" "x \<in> bytes_of q"
      using control_cells_region [OF wf x] .
    have "live_region r \<in># image_mset live_region (mset (filter small L)) + M" using r by auto
    then have "bytes_of q \<inter> bytes_of (live_region r) = {}" using arena_wfD(4) [OF wf] unfolding q(1) apart_add by blast
    then show ?thesis using q(2) by blast
  qed
  then show "bytes_of (live_region r) \<inter> control_cells F S = {}" by blast
qed

lemma live_big:
  assumes wf: "arena_wf E ar L F S" and r: "r \<in> set L" "\<not> small r" and s: "s \<in> set S"
  shows "bytes_of r \<inter> bytes_of s = {}"
proof (rule apartD [OF arena_wfD(3) [OF wf]])
  have m: "mset (sys_blocks ar) = mset S + mset (filter (\<lambda>r. \<not> small r) L) + mset E" using arena_wfD(2) [OF wf] .
  have "r \<in># mset (filter (\<lambda>r. \<not> small r) L)" using r by simp
  then show "r \<in># mset (sys_blocks ar)" unfolding m by simp
  obtain N where "mset (filter (\<lambda>r. \<not> small r) L) = add_mset r N" using \<open>r \<in># mset (filter (\<lambda>r. \<not> small r) L)\<close> by (rule mset_add)
  then show "s \<in># mset (sys_blocks ar) - {#r#}" unfolding m using s by simp
qed

lemma live_not_control:
  assumes "arena_wf E ar L F S" and "r \<in> set L"
  shows "bytes_of r \<inter> control_cells F S = {}"
proof (cases "small r")
  case True
  then show ?thesis using live_small [OF assms] by blast
next
  case False
  then show ?thesis using live_big [OF assms False] control_cells_in_slab [OF assms(1)] by blast
qed

text \<open>So the owner of a live block may write what it likes into it.\<close>

lemma write_wf:
  assumes wf: "arena_wf E ar L F S" and r: "r \<in> set L" "a \<in> bytes_of r"
  shows "arena_wf E (ar\<lparr>cells := (cells ar)(a := v)\<rparr>) L F S"
proof -
  have "chains_ok (ar\<lparr>cells := (cells ar)(a := v)\<rparr>) F S"
    using live_not_control [OF wf r(1)] r(2) by (intro chains_frame [OF arena_wfD(1) [OF wf]]) auto
  then show ?thesis by (rule arena_wf_cong [OF wf]) simp_all
qed

subsection \<open>Recycled blocks\<close>

lemma regions_pop:
  assumes "arena_size_class n \<in> {1..16}" and "F (arena_size_class n) = p # ps" and "n \<le> kMaxBlock"
  shows "arena_regions ar ((p, n) # L) (F(arena_size_class n := ps)) S = arena_regions ar L F S"
proof -
  have "live_region (p, n) = class_region (arena_size_class n) p" by (simp add: live_region_def)
  then show ?thesis
    using assms(3) free_regions_pop [of "arena_size_class n" F p ps, OF assms(1,2)] by (simp add: arena_regions_def small_def)
qed

lemma arena_wf_regions:
  assumes "arena_wf E ar L F S" and "chains_ok ar' F' S" and "arena_regions ar' L' F' S = arena_regions ar L F S"
    and "sys_blocks ar' = sys_blocks ar" and "mset (filter (\<lambda>r. \<not> small r) L') = mset (filter (\<lambda>r. \<not> small r) L)"
  shows "arena_wf E ar' L' F' S"
proof -
  have "set (filter (\<lambda>r. \<not> small r) L') = set (filter (\<lambda>r. \<not> small r) L)" using assms(5) by (metis set_mset_mset)
  then show ?thesis using assms(1,2) unfolding arena_wf_def assms(3-5) by metis
qed

lemma chain_head: "chain 0 f i xs \<Longrightarrow> i \<noteq> 0 \<Longrightarrow> \<exists>ys. xs = i # ys \<and> chain 0 f (f i) ys"
  by (cases xs) auto

lemma pop_wf:
  assumes wf: "arena_wf E ar L F S" and n: "n \<le> kMaxBlock" and b: "free_heads ar ! arena_size_class n = b" "b \<noteq> 0"
  shows "\<exists>F'. arena_wf E (ar\<lparr>free_heads := (free_heads ar)[arena_size_class n := cells ar b]\<rparr>) ((b, n) # L) F' S"
proof -
  let ?c = "arena_size_class n"
  have c: "?c \<in> {1..16}" using n size_class_bounds by simp
  note ok = arena_wfD(1) [OF wf, unfolded chains_ok_def]
  obtain ps where ps: "F ?c = b # ps" "chain 0 (cells ar) (cells ar b) ps" using chain_head [of "cells ar" b "F ?c"] ok c b by blast
  have "chains_ok (ar\<lparr>free_heads := (free_heads ar)[?c := cells ar b]\<rparr>) (F(?c := ps)) S"
    using ok c ps(2) by (simp add: chains_ok_def nth_list_update)
  then have "arena_wf E (ar\<lparr>free_heads := (free_heads ar)[?c := cells ar b]\<rparr>) ((b, n) # L) (F(?c := ps)) S"
    by (rule arena_wf_regions [OF wf]) (use regions_pop [where F = F, OF c ps(1) n] n in \<open>simp_all add: small_def arena_regions_def\<close>)
  then show ?thesis by blast
qed

lemma push_wf:
  assumes wf: "arena_wf E ar L F S" and n: "n \<le> kMaxBlock" and p: "(p, n) \<in> set L"
  shows "\<exists>F'. arena_wf E (ar\<lparr>cells := (cells ar)(p := free_heads ar ! arena_size_class n), free_heads := (free_heads ar)[arena_size_class n := p]\<rparr>)
    (remove1 (p, n) L) F' S"
proof -
  let ?c = "arena_size_class n" and ?L = "remove1 (p, n) L"
  let ?ar = "ar\<lparr>cells := (cells ar)(p := free_heads ar ! ?c), free_heads := (free_heads ar)[?c := p]\<rparr>"
  have c: "?c \<in> {1..16}" using n size_class_bounds by simp
  note ok = arena_wfD(1) [OF wf]
  have s: "small (p, n)" using n by (simp add: small_def)
  have "p \<in> bytes_of (live_region (p, n))" using c by (simp add: bytes_of_def live_region_def class_region_def kGranule_def)
  then have nc: "p \<notin> control_cells F S" and sl: "\<exists>s\<in>set S. p \<in> bytes_of s"
    using live_small [OF wf p s] arena_wfD(6) [OF wf] by blast+
  then have p0: "p \<noteq> 0" using arena_wfD(7) [OF wf] by (fastforce simp: bytes_of_def)
  have "chains_ok (ar\<lparr>cells := (cells ar)(p := free_heads ar ! ?c)\<rparr>) F S"
    by (rule chains_frame [OF ok]) (use nc in auto)
  then have ck: "chains_ok ?ar (F(?c := p # F ?c)) S" using c p0 by (auto simp: chains_ok_def nth_list_update)
  have mL: "mset L = add_mset (p, n) (mset ?L)" using p by simp
  have fm: "mset (filter P L) = (if P (p, n) then add_mset (p, n) (mset (filter P ?L)) else mset (filter P ?L))" for P
    unfolding mset_filter by (subst mL) simp
  have "free_regions (F(?c := p # F ?c)) = add_mset (class_region ?c p) (free_regions F)"
    using free_regions_pop [of ?c "F(?c := p # F ?c)" p "F ?c"] c by simp
  then have rg: "arena_regions ?ar ?L (F(?c := p # F ?c)) S = arena_regions ar L F S"
    unfolding arena_regions_def fm [of small] using s by (simp add: live_region_def)
  have bg: "mset (filter (\<lambda>r. \<not> small r) ?L) = mset (filter (\<lambda>r. \<not> small r) L)" using fm [of "\<lambda>r. \<not> small r"] s by argo
  have "sys_blocks ?ar = sys_blocks ar" by simp
  then show ?thesis using arena_wf_regions [OF wf ck rg _ bg] by blast
qed

subsection \<open>New slabs and carved blocks\<close>

text \<open>What \<^verbatim>\<open>operator new\<close> promises: an aligned block outside all the others.\<close>

definition op_new_ok :: "op_new \<Rightarrow> bool" where
  "op_new_ok new \<longleftrightarrow> (\<forall>k L n a. new k L n = Some a \<longrightarrow>
     0 < a \<and> kGranule dvd a \<and> (\<forall>r\<in>set L. bytes_of (a, n) \<inter> bytes_of r = {}))"

lemma sys_new_apart:
  assumes "op_new_ok new" and "sys_new new n ar = Some (a, ar')" and "apart (mset (sys_blocks ar))"
  shows "0 < a \<and> kGranule dvd a \<and> sys_blocks ar' = (a, n) # sys_blocks ar \<and> apart (mset (sys_blocks ar')) \<and>
    (\<forall>r\<in>set (sys_blocks ar). bytes_of (a, n) \<inter> bytes_of r = {}) \<and> ar' = ar\<lparr>sys_blocks := sys_blocks ar', sys_calls := sys_calls ar + 1\<rparr>"
proof -
  have n: "new (sys_calls ar) (sys_blocks ar) n = Some a" and ar': "ar' = ar\<lparr>sys_blocks := (a, n) # sys_blocks ar, sys_calls := sys_calls ar + 1\<rparr>"
    using assms(2) by (auto simp: sys_new_def)
  have "0 < a \<and> kGranule dvd a \<and> (\<forall>r\<in>set (sys_blocks ar). bytes_of (a, n) \<inter> bytes_of r = {})"
    using assms(1) n unfolding op_new_ok_def by blast
  then show ?thesis using assms(3) by (simp add: ar')
qed

lemma touch_outside: "(\<And>off. off \<in> set offs \<Longrightarrow> off < n) \<Longrightarrow> x \<notin> bytes_of (a, n) \<Longrightarrow> touch a offs m x = m x"
  by (induction offs arbitrary: m) (auto simp: bytes_of_def)

lemma touch_offsets_less: "off \<in> set (touch_offsets n) \<Longrightarrow> off < n"
  by (auto simp: touch_offsets_def kTouchStride_def)

text \<open>The slabs are among the blocks of the system.\<close>

lemma slabs_sys:
  assumes "arena_wf E ar L F S"
  shows "set (sys_blocks ar) = set S \<union> set (filter (\<lambda>r. \<not> small r) L) \<union> set E"
  using arg_cong [OF arena_wfD(2) [OF assms], of set_mset] by simp

lemma add_slab_wf:
  assumes wf: "arena_wf E ar L F S" and new: "op_new_ok new" and n: "kGranule \<le> n" and add: "add_slab new n ar = Some ar'"
  shows "\<exists>a. arena_wf E ar' L F ((a, n) # S) \<and> cursor ar' = a + kGranule \<and> slab_end ar' = a + n \<and> free_heads ar' = free_heads ar \<and>
    slab_total ar' = slab_total ar + n \<and> (\<forall>r\<in>set (sys_blocks ar). \<forall>x\<in>bytes_of r. cells ar' x = cells ar x)"
proof -
  obtain a ar1 where s: "sys_new new n ar = Some (a, ar1)"
    and ar': "ar' = ar1\<lparr>cells := (touch a (touch_offsets n) (cells ar1))(a := newest ar1, a + 8 := n),
        newest := a, slab_total := slab_total ar1 + n, cursor := a + kGranule, slab_end := a + n\<rparr>"
    using add by (auto simp: add_slab_def bind_eq_Some_conv)
  note sys = sys_new_apart [OF new s arena_wfD(3) [OF wf]]
  have f: "free_heads ar1 = free_heads ar" "cells ar1 = cells ar" "newest ar1 = newest ar" "slab_total ar1 = slab_total ar"
    using sys by (metis arena.select_convs arena.update_convs(7,8) arena.surjective)+
  have out: "cells ar' x = cells ar x" if "x \<notin> bytes_of (a, n)" for x
    using that n touch_outside [of "touch_offsets n" n x a "cells ar"] touch_offsets_less
    by (auto simp: ar' f bytes_of_def kGranule_def)
  have sl: "bytes_of (a, n) \<inter> bytes_of s = {}" if "s \<in> set S" for s using sys slabs_sys [OF wf] that by blast
  have cc: "x \<notin> bytes_of (a, n)" if "x \<in> control_cells F S" for x using control_cells_in_slab [OF wf that] sl by blast
  have "chains_ok (ar\<lparr>cells := cells ar'\<rparr>) F S" by (rule chains_frame [OF arena_wfD(1) [OF wf]]) (use out cc in auto)
  then have ck: "chains_ok ar' F ((a, n) # S)" using sys by (auto simp: chains_ok_def ar' f)
  let ?M = "image_mset live_region (mset (filter small L)) + free_regions F + image_mset (\<lambda>s. (fst s, kGranule)) (mset S)"
  have old: "arena_regions ar L F S = add_mset (cursor ar, slab_end ar - cursor ar) ?M" by (simp add: arena_regions_def)
  have rs: "arena_regions ar' L F ((a, n) # S) = add_mset (a, kGranule) (add_mset (a + kGranule, n - kGranule) ?M)"
    by (simp add: arena_regions_def ar')
  have inM: "kGranule dvd fst r \<and> bytes_of r \<subseteq> (\<Union>s\<in>set S. bytes_of s)" if "r \<in># ?M" for r
    using arena_wfD(5,6) [OF wf, of r] that unfolding old by simp
  have "apart ?M" using arena_wfD(4) [OF wf] unfolding old by simp
  then have "apart (add_mset (a, n) ?M)" by (rule apart_fresh [where U = "\<Union>s\<in>set S. bytes_of s"]) (use inM sl in blast)+
  then have ap: "apart (arena_regions ar' L F ((a, n) # S))"
    using apart_split [of a kGranule "n - kGranule" ?M] n unfolding rs by simp
  have "bytes_of (a, kGranule) \<subseteq> bytes_of (a, n)" "bytes_of (a + kGranule, n - kGranule) \<subseteq> bytes_of (a, n)"
    using n by (auto simp: bytes_of_def)
  then have reg: "kGranule dvd fst r \<and> bytes_of r \<subseteq> (\<Union>s\<in>set ((a, n) # S). bytes_of s)" if "r \<in># arena_regions ar' L F ((a, n) # S)" for r
    using that inM [of r] sys unfolding rs by auto
  have sb: "sys_blocks ar' = (a, n) # sys_blocks ar" using sys by (simp add: ar')
  have "arena_wf E ar' L F ((a, n) # S)"
  proof (rule arena_wfI [OF ck _ _ ap reg])
    show "mset (sys_blocks ar') = mset ((a, n) # S) + mset (filter (\<lambda>r. \<not> small r) L) + mset E"
      using arena_wfD(2) [OF wf] unfolding sb by simp
    have "sys_blocks ar' = sys_blocks ar1" by (simp add: ar')
    then show "apart (mset (sys_blocks ar'))" using sys by metis
    show "0 < fst r \<and> kGranule dvd fst r \<and> kGranule \<le> snd r" if "r \<in> set ((a, n) # S)" for r
      using that arena_wfD(7) [OF wf, of r] sys n by (cases "r = (a, n)") simp_all
    show "0 < fst r \<and> kGranule dvd fst r" if "r \<in> set L" "\<not> small r" for r using arena_wfD(8) [OF wf that] .
  qed
  moreover have "\<forall>r\<in>set (sys_blocks ar). \<forall>x\<in>bytes_of r. cells ar' x = cells ar x" using out sys by blast
  ultimately show ?thesis by (auto simp: ar' f)
qed

lemma carve_room_wf:
  assumes wf: "arena_wf E ar L F S" and n: "n \<le> kMaxBlock" and room: "arena_size_class n * kGranule \<le> slab_end ar - cursor ar"
  shows "arena_wf E (ar\<lparr>cursor := cursor ar + arena_size_class n * kGranule\<rparr>) ((cursor ar, n) # L) F S"
proof -
  let ?b = "arena_size_class n * kGranule" and ?p = "cursor ar"
  let ?ar = "ar\<lparr>cursor := ?p + ?b\<rparr>" and ?L = "(?p, n) # L"
  let ?M = "image_mset live_region (mset (filter small L)) + free_regions F + image_mset (\<lambda>s. (fst s, kGranule)) (mset S)"
  have s: "small (?p, n)" using n by (simp add: small_def)
  have old: "arena_regions ar L F S = add_mset (?p, ?b + (slab_end ar - ?p - ?b)) ?M" using room by (simp add: arena_regions_def)
  have rs: "arena_regions ?ar ?L F S = add_mset (?p, ?b) (add_mset (?p + ?b, slab_end ar - ?p - ?b) ?M)"
    using s by (simp add: arena_regions_def live_region_def class_region_def)
  note o = arena_wfD(4-6) [OF wf, unfolded old]
  have ap: "apart (arena_regions ?ar ?L F S)" unfolding rs by (rule apart_split [OF o(1)])
  have sub: "bytes_of (?p, ?b) \<subseteq> bytes_of (?p, ?b + (slab_end ar - ?p - ?b))"
    "bytes_of (?p + ?b, slab_end ar - ?p - ?b) \<subseteq> bytes_of (?p, ?b + (slab_end ar - ?p - ?b))" by (auto simp: bytes_of_def)
  have "kGranule dvd ?p" "bytes_of (?p, ?b + (slab_end ar - ?p - ?b)) \<subseteq> (\<Union>s\<in>set S. bytes_of s)"
    using o(2,3) [of "(?p, ?b + (slab_end ar - ?p - ?b))"] by simp_all
  then have reg: "kGranule dvd fst r \<and> bytes_of r \<subseteq> (\<Union>s\<in>set S. bytes_of s)" if "r \<in># arena_regions ?ar ?L F S" for r
    using that o(2,3) [of r] sub unfolding rs by (auto simp del: add_diff_inverse le_add_diff_inverse)
  have ck: "chains_ok ?ar F S" using arena_wfD(1) [OF wf] by (simp add: chains_ok_def)
  have nb: "filter (\<lambda>r. \<not> small r) ?L = filter (\<lambda>r. \<not> small r) L" using s by simp
  show ?thesis
  proof (rule arena_wfI [OF ck _ _ ap reg])
    show "mset (sys_blocks ?ar) = mset S + mset (filter (\<lambda>r. \<not> small r) ?L) + mset E"
      unfolding nb using arena_wfD(2) [OF wf] by simp
    show "apart (mset (sys_blocks ?ar))" using arena_wfD(3) [OF wf] by simp
    show "0 < fst s \<and> kGranule dvd fst s \<and> kGranule \<le> snd s" if "s \<in> set S" for s using arena_wfD(7) [OF wf that] .
    show "0 < fst r \<and> kGranule dvd fst r" if "r \<in> set ?L" "\<not> small r" for r
      using that s arena_wfD(8) [OF wf, of r] by auto
  qed
qed

lemma carve_wf:
  assumes wf: "arena_wf E ar L F S" and new: "op_new_ok new" and n: "n \<le> kMaxBlock"
    and ca: "carve new (arena_size_class n) ar = Some (p, ar')"
  shows "\<exists>S'. arena_wf E ar' ((p, n) # L) F S' \<and> (\<forall>r\<in>set (sys_blocks ar). \<forall>x\<in>bytes_of r. cells ar' x = cells ar x)"
proof -
  let ?b = "arena_size_class n * kGranule"
  have b: "?b \<le> kMaxBlock" using size_class_bounds(1) [of n] n by (simp add: kMaxBlock_def kGranule_def)
  show ?thesis
  proof (cases "slab_end ar - cursor ar < ?b")
    case True
    then obtain ar1 where a: "add_slab new kSlabBytes ar = Some ar1" "p = cursor ar1" "ar' = ar1\<lparr>cursor := cursor ar1 + ?b\<rparr>"
      using ca by (auto simp: carve_def Let_def bind_eq_Some_conv)
    have "kGranule \<le> kSlabBytes" by (simp add: kGranule_def kSlabBytes_def)
    then obtain q where q: "arena_wf E ar1 L F ((q, kSlabBytes) # S)" "cursor ar1 = q + kGranule" "slab_end ar1 = q + kSlabBytes"
        "\<forall>r\<in>set (sys_blocks ar). \<forall>x\<in>bytes_of r. cells ar1 x = cells ar x" using add_slab_wf [OF wf new _ a(1)] by blast
    have "?b \<le> slab_end ar1 - cursor ar1" using b q(2,3) by (simp add: kMaxBlock_def kSlabBytes_def kGranule_def)
    then show ?thesis using carve_room_wf [OF q(1) n] a(2,3) q(4) by auto
  next
    case False
    then have "p = cursor ar" "ar' = ar\<lparr>cursor := cursor ar + ?b\<rparr>" using ca by (auto simp: carve_def Let_def)
    then show ?thesis using carve_room_wf [OF wf n] False by auto
  qed
qed

subsection \<open>Blocks of the system\<close>

lemma sys_new_wf:
  assumes wf: "arena_wf E ar L F S" and new: "op_new_ok new" and n: "\<not> n \<le> kMaxBlock" and s: "sys_new new n ar = Some (p, ar')"
  shows "arena_wf E ar' ((p, n) # L) F S \<and> cells ar' = cells ar"
proof -
  note sys = sys_new_apart [OF new s arena_wfD(3) [OF wf]]
  have b: "\<not> small (p, n)" using n by (simp add: small_def)
  have ar': "ar' = ar\<lparr>sys_blocks := (p, n) # sys_blocks ar, sys_calls := sys_calls ar + 1\<rparr>" using s by (auto simp: sys_new_def)
  have rs: "arena_regions ar' ((p, n) # L) F S = arena_regions ar L F S" using b by (simp add: arena_regions_def ar')
  have ck: "chains_ok ar' F S" using arena_wfD(1) [OF wf] by (simp add: chains_ok_def ar')
  have "arena_wf E ar' ((p, n) # L) F S"
  proof (rule arena_wfI [OF ck])
    show "mset (sys_blocks ar') = mset S + mset (filter (\<lambda>r. \<not> small r) ((p, n) # L)) + mset E"
      using arena_wfD(2) [OF wf] b by (simp add: ar')
    show "apart (mset (sys_blocks ar'))" using sys by blast
    show "apart (arena_regions ar' ((p, n) # L) F S)" unfolding rs using arena_wfD(4) [OF wf] .
    show "kGranule dvd fst r \<and> bytes_of r \<subseteq> (\<Union>s\<in>set S. bytes_of s)" if "r \<in># arena_regions ar' ((p, n) # L) F S" for r
      using that arena_wfD(5,6) [OF wf] unfolding rs by blast
    show "0 < fst s \<and> kGranule dvd fst s \<and> kGranule \<le> snd s" if "s \<in> set S" for s using arena_wfD(7) [OF wf that] .
    show "0 < fst r \<and> kGranule dvd fst r" if "r \<in> set ((p, n) # L)" "\<not> small r" for r
      using that sys arena_wfD(8) [OF wf, of r] by auto
  qed
  then show ?thesis by (simp add: ar')
qed

lemma sys_delete_wf:
  assumes wf: "arena_wf E ar L F S" and n: "\<not> n \<le> kMaxBlock" and p: "(p, n) \<in> set L"
  shows "arena_wf E (sys_delete p n ar) (remove1 (p, n) L) F S"
proof -
  let ?ar = "sys_delete p n ar" and ?L = "remove1 (p, n) L"
  have b: "\<not> small (p, n)" using n by (simp add: small_def)
  have mL: "mset L = add_mset (p, n) (mset ?L)" using p by simp
  have fm: "mset (filter P L) = (if P (p, n) then add_mset (p, n) (mset (filter P ?L)) else mset (filter P ?L))" for P
    unfolding mset_filter by (subst mL) simp
  have sb: "mset (sys_blocks ar) = add_mset (p, n) (mset S + mset (filter (\<lambda>r. \<not> small r) ?L) + mset E)"
    unfolding arena_wfD(2) [OF wf] fm [of "\<lambda>r. \<not> small r"] using b by simp
  then have sd: "mset (sys_blocks ?ar) = mset S + mset (filter (\<lambda>r. \<not> small r) ?L) + mset E" by (simp add: sys_delete_def)
  have rs: "arena_regions ?ar ?L F S = arena_regions ar L F S"
    unfolding arena_regions_def fm [of small] using b by (simp add: sys_delete_def)
  have ck: "chains_ok ?ar F S" using arena_wfD(1) [OF wf] by (simp add: chains_ok_def sys_delete_def)
  show ?thesis
  proof (rule arena_wfI [OF ck sd])
    show "apart (mset (sys_blocks ?ar))" unfolding sd using arena_wfD(3) [OF wf] unfolding sb by simp
    show "apart (arena_regions ?ar ?L F S)" unfolding rs using arena_wfD(4) [OF wf] .
    show "kGranule dvd fst r \<and> bytes_of r \<subseteq> (\<Union>s\<in>set S. bytes_of s)" if "r \<in># arena_regions ?ar ?L F S" for r
      using that arena_wfD(5,6) [OF wf] unfolding rs by blast
    show "0 < fst s \<and> kGranule dvd fst s \<and> kGranule \<le> snd s" if "s \<in> set S" for s using arena_wfD(7) [OF wf that] .
    show "0 < fst r \<and> kGranule dvd fst r" if "r \<in> set ?L" "\<not> small r" for r
      using that arena_wfD(8) [OF wf, of r] notin_set_remove1 by fast
  qed
qed

subsection \<open>The contract of a block allocator\<close>

text \<open>
  What a container relies on: a new block lies outside all live ones, and neither allocating nor releasing changes a live
  block. \<open>load\<close> and \<open>store\<close> are the client's own accesses to its blocks.
\<close>

inductive alloc_reaches :: "(nat \<Rightarrow> 's \<Rightarrow> (addr \<times> 's) option) \<Rightarrow> (addr \<Rightarrow> nat \<Rightarrow> 's \<Rightarrow> 's) \<Rightarrow> (addr \<Rightarrow> nat \<Rightarrow> 's \<Rightarrow> 's) \<Rightarrow> 's \<Rightarrow>
    's \<Rightarrow> region list \<Rightarrow> bool" for alloc dealloc store start where
  started: "alloc_reaches alloc dealloc store start start []"
| allocated: "alloc_reaches alloc dealloc store start s L \<Longrightarrow> alloc n s = Some (p, s') \<Longrightarrow>
    alloc_reaches alloc dealloc store start s' ((p, n) # L)"
| released: "alloc_reaches alloc dealloc store start s L \<Longrightarrow> (p, n) \<in> set L \<Longrightarrow>
    alloc_reaches alloc dealloc store start (dealloc p n s) (remove1 (p, n) L)"
| written: "alloc_reaches alloc dealloc store start s L \<Longrightarrow> r \<in> set L \<Longrightarrow> a \<in> bytes_of r \<Longrightarrow>
    alloc_reaches alloc dealloc store start (store a v s) L"

locale block_allocator =
  fixes alloc :: "nat \<Rightarrow> 's \<Rightarrow> (addr \<times> 's) option" and dealloc :: "addr \<Rightarrow> nat \<Rightarrow> 's \<Rightarrow> 's"
    and store :: "addr \<Rightarrow> nat \<Rightarrow> 's \<Rightarrow> 's" and load :: "'s \<Rightarrow> addr \<Rightarrow> nat" and inv :: "'s \<Rightarrow> region list \<Rightarrow> bool"
  assumes alloc_law: "inv s L \<Longrightarrow> alloc n s = Some (p, s') \<Longrightarrow>
      inv s' ((p, n) # L) \<and> (\<forall>r\<in>set L. \<forall>x\<in>bytes_of r. load s' x = load s x)"
    and dealloc_law: "inv s L \<Longrightarrow> (p, n) \<in> set L \<Longrightarrow>
      inv (dealloc p n s) (remove1 (p, n) L) \<and> (\<forall>r\<in>set (remove1 (p, n) L). \<forall>x\<in>bytes_of r. load (dealloc p n s) x = load s x)"
    and store_law: "inv s L \<Longrightarrow> r \<in> set L \<Longrightarrow> a \<in> bytes_of r \<Longrightarrow> inv (store a v s) L"
    and separate_law: "inv s L \<Longrightarrow> apart (mset L) \<and> (\<forall>r\<in>set L. 0 < fst r \<and> kGranule dvd fst r)"
begin

lemma reaches_inv:
  assumes "alloc_reaches alloc dealloc store start s L" and "inv start []"
  shows "inv s L"
  using assms(1) by (induction rule: alloc_reaches.induct) (use assms(2) alloc_law dealloc_law store_law in blast)+

lemma fresh_block:
  assumes "inv s L" and "alloc n s = Some (p, s')"
  shows "0 < p \<and> kGranule dvd p \<and> (\<forall>r\<in>set L. bytes_of (p, n) \<inter> bytes_of r = {} \<and> (\<forall>x\<in>bytes_of r. load s' x = load s x))"
  using alloc_law [OF assms] separate_law [of s' "(p, n) # L"] by simp

end

definition arena_store :: "addr \<Rightarrow> nat \<Rightarrow> arena \<Rightarrow> arena" where
  "arena_store a v ar = ar\<lparr>cells := (cells ar)(a := v)\<rparr>"

text \<open>The invariant carries the contract of \<^verbatim>\<open>operator new\<close>.\<close>

definition arena_inv :: "op_new \<Rightarrow> region list \<Rightarrow> arena \<Rightarrow> region list \<Rightarrow> bool" where
  "arena_inv new E ar L \<longleftrightarrow> op_new_ok new \<and> (\<exists>F S. arena_wf E ar L F S)"

lemma live_sys:
  assumes "arena_wf E ar L F S" and "r \<in> set L" "x \<in> bytes_of r"
  shows "\<exists>b\<in>set (sys_blocks ar). x \<in> bytes_of b"
proof (cases "small r")
  case True
  then have "x \<in> (\<Union>s\<in>set S. bytes_of s)" using live_small(1,2) [OF assms(1,2)] arena_wfD(6) [OF assms(1)] assms(3) by blast
  then show ?thesis using slabs_sys [OF assms(1)] by blast
next
  case False
  then show ?thesis using slabs_sys [OF assms(1)] assms(2,3) by auto
qed

lemma apart_union: "apart (M + N) \<longleftrightarrow> apart M \<and> apart N \<and> (\<forall>x\<in>#M. \<forall>y\<in>#N. bytes_of x \<inter> bytes_of y = {})"
  by (induction M) (simp_all add: ball_Un, blast)

text \<open>The extent of a live block: the whole block of its size class, or the block of the system.\<close>

definition extent :: "region \<Rightarrow> region" where
  "extent r = (if small r then live_region r else r)"

lemma extent_superset: "bytes_of r \<subseteq> bytes_of (extent r)"
  using size_class_bounds(3) [of "snd r"] by (auto simp: extent_def bytes_of_def live_region_def class_region_def)

lemma live_apart:
  assumes wf: "arena_wf E ar L F S"
  shows "apart (image_mset extent (mset L))"
proof -
  let ?s = "mset (filter small L)" and ?b = "mset (filter (\<lambda>r. \<not> small r) L)"
  have "image_mset extent (mset L) = image_mset extent ?s + image_mset extent ?b"
    by (metis image_mset_union mset_filter multiset_partition)
  also have "image_mset extent ?s = image_mset live_region ?s" by (rule image_mset_cong) (simp add: extent_def)
  also have "image_mset extent ?b = ?b" by (induction L) (simp_all add: extent_def)
  finally have e: "image_mset extent (mset L) = image_mset live_region ?s + ?b" .
  have "apart (image_mset live_region ?s)" using arena_wfD(4) [OF wf] unfolding arena_regions_def by (simp only: apart_union)
  moreover have "apart ?b" using arena_wfD(3) [OF wf] unfolding arena_wfD(2) [OF wf] by (simp only: apart_union)
  moreover have "bytes_of x \<inter> bytes_of y = {}" if x: "x \<in># image_mset live_region ?s" and y: "y \<in># ?b" for x y
  proof -
    have "bytes_of x \<subseteq> (\<Union>s\<in>set S. bytes_of s)" using x arena_wfD(6) [OF wf, of x] unfolding arena_regions_def by simp
    moreover have "bytes_of y \<inter> bytes_of s = {}" if "s \<in> set S" for s using live_big [OF wf _ _ that] y by simp
    ultimately show ?thesis by blast
  qed
  ultimately show ?thesis unfolding e apart_union by blast
qed

lemma apart_image_shrink:
  assumes "\<And>x. x \<in># M \<Longrightarrow> bytes_of (f x) \<subseteq> bytes_of (g x)" and "apart (image_mset g M)"
  shows "apart (image_mset f M)"
  using assms by (induction M) (simp_all, blast)

lemma live_aligned:
  assumes wf: "arena_wf E ar L F S" and r: "r \<in> set L"
  shows "0 < fst r \<and> kGranule dvd fst r"
proof (cases "small r")
  case True
  then have m: "live_region r \<in># arena_regions ar L F S" using live_small(1) [OF wf r] by simp
  have "fst r \<in> bytes_of (live_region r)"
    using size_class_bounds(2) [of "snd r"] by (simp add: bytes_of_def live_region_def class_region_def kGranule_def)
  then obtain s where "s \<in> set S" "fst r \<in> bytes_of s" using arena_wfD(6) [OF wf m] by blast
  then have "0 < fst r" using arena_wfD(7) [OF wf] by (fastforce simp: bytes_of_def)
  then show ?thesis using arena_wfD(5) [OF wf m] by (simp add: live_region_def class_region_def)
next
  case False
  then show ?thesis using arena_wfD(8) [OF wf r] by blast
qed

lemma arena_allocate_wf:
  assumes wf: "arena_wf E ar L F S" and new: "op_new_ok new" and al: "arena_allocate new n ar = Some (p, ar')"
  shows "(\<exists>F S. arena_wf E ar' ((p, n) # L) F S) \<and> (\<forall>b\<in>set (sys_blocks ar). \<forall>x\<in>bytes_of b. cells ar' x = cells ar x)"
proof (cases "n \<le> kMaxBlock")
  case n: True
  show ?thesis
  proof (cases "free_heads ar ! arena_size_class n = 0")
    case True
    then have "carve new (arena_size_class n) ar = Some (p, ar')" using al n by (simp add: arena_allocate_def Let_def)
    then show ?thesis using carve_wf [OF wf new n] by blast
  next
    case False
    then have "p = free_heads ar ! arena_size_class n" "ar' = ar\<lparr>free_heads := (free_heads ar)[arena_size_class n := cells ar p]\<rparr>"
      using al n by (auto simp: arena_allocate_def Let_def)
    then show ?thesis using pop_wf [OF wf n _ False] by auto
  qed
next
  case False
  then have "sys_new new n ar = Some (p, ar')" using al by (simp add: arena_allocate_def)
  then show ?thesis using sys_new_wf [OF wf new False] by auto
qed

lemma arena_deallocate_wf:
  assumes wf: "arena_wf E ar L F S" and p: "(p, n) \<in> set L"
  shows "(\<exists>F S. arena_wf E (arena_deallocate p n ar) (remove1 (p, n) L) F S) \<and>
    (\<forall>r\<in>set (remove1 (p, n) L). \<forall>x\<in>bytes_of r. cells (arena_deallocate p n ar) x = cells ar x)"
proof (cases "n \<le> kMaxBlock")
  case n: True
  then have s: "small (p, n)" by (simp add: small_def)
  have "mset L = add_mset (p, n) (mset (remove1 (p, n) L))" using p by simp
  then have "apart (add_mset (extent (p, n)) (image_mset extent (mset (remove1 (p, n) L))))"
    using live_apart [OF wf] by (metis image_mset_add_mset)
  then have d: "bytes_of (extent (p, n)) \<inter> bytes_of (extent r) = {}" if "r \<in> set (remove1 (p, n) L)" for r
    using that unfolding apart_add by (metis image_eqI set_image_mset set_mset_mset)
  have "p \<in> bytes_of (extent (p, n))"
    using s size_class_bounds(2) [of n] by (simp add: extent_def bytes_of_def live_region_def class_region_def kGranule_def)
  then have "x \<noteq> p" if "r \<in> set (remove1 (p, n) L)" "x \<in> bytes_of r" for r x
    using that d [of r] extent_superset [of r] by blast
  then show ?thesis using push_wf [OF wf n p] n by (simp add: arena_deallocate_def Let_def) blast
next
  case False
  then show ?thesis using sys_delete_wf [OF wf False p] by (simp add: arena_deallocate_def sys_delete_def) blast
qed

interpretation arena: block_allocator "arena_allocate new" arena_deallocate arena_store cells "arena_inv new E" for new E
proof
  fix ar L n p ar'
  assume i: "arena_inv new E ar L"
  then obtain F S where wf: "arena_wf E ar L F S" and new: "op_new_ok new" by (auto simp: arena_inv_def)
  show "apart (mset L) \<and> (\<forall>r\<in>set L. 0 < fst r \<and> kGranule dvd fst r)"
    using apart_image_shrink [of "mset L" "\<lambda>r. r" extent] extent_superset live_apart [OF wf] live_aligned [OF wf] by simp
  show "arena_inv new E ar' ((p, n) # L) \<and> (\<forall>r\<in>set L. \<forall>x\<in>bytes_of r. cells ar' x = cells ar x)"
    if "arena_allocate new n ar = Some (p, ar')"
    using arena_allocate_wf [OF wf new that] new live_sys [OF wf] by (simp add: arena_inv_def) blast
  show "arena_inv new E (arena_deallocate p n ar) (remove1 (p, n) L) \<and>
      (\<forall>r\<in>set (remove1 (p, n) L). \<forall>x\<in>bytes_of r. cells (arena_deallocate p n ar) x = cells ar x)" if "(p, n) \<in> set L"
    using arena_deallocate_wf [OF wf that] new by (simp add: arena_inv_def)
next
  fix ar L r a v
  assume "arena_inv new E ar L" "r \<in> set L" "a \<in> bytes_of r"
  then show "arena_inv new E (arena_store a v ar) L" unfolding arena_inv_def arena_store_def using write_wf by blast
qed

subsection \<open>Construction, reuse and destruction\<close>

lemma empty_arena_wf:
  assumes "apart (mset E)"
  shows "arena_wf E \<lparr>free_heads = replicate (kMaxBlock div kGranule + 1) 0, cursor = 0, slab_end = 0, newest = 0, slab_total = 0,
    cells = m, sys_blocks = E, sys_calls = 0\<rparr> [] (\<lambda>_. []) []"
proof -
  have "free_regions (\<lambda>_. []) = {#}" by (simp add: free_regions_def)
  moreover have "bytes_of (0, 0) = {}" by (simp add: bytes_of_def)
  ultimately show ?thesis
    using assms by (intro arena_wfI) (auto simp: arena_regions_def chains_ok_def kMaxBlock_def kGranule_def nth_Cons' nth_replicate)
qed

lemma arena_new_inv:
  assumes new: "op_new_ok new" and E: "apart (mset E)" and ar: "arena_new new reserve_bytes E m = Some ar"
  shows "arena_inv new E ar []"
proof (cases "reserve_bytes > 0")
  case True
  have "kGranule \<le> max (unat (reserve_bytes + of_nat kGranule)) kSlabBytes" by (simp add: kGranule_def kSlabBytes_def)
  from add_slab_wf [OF empty_arena_wf [OF E] new this] True ar show ?thesis
    using new unfolding arena_inv_def arena_new_def Let_def by fastforce
next
  case False
  then show ?thesis using empty_arena_wf [OF E] new ar unfolding arena_inv_def arena_new_def Let_def by fastforce
qed

text \<open>A released block is the next one of its class.\<close>

lemma reuse:
  assumes wf: "arena_wf E ar L F S" and p: "(p, n) \<in> set L" and n: "n \<le> kMaxBlock" and k: "arena_size_class k = arena_size_class n"
  shows "\<exists>ar'. arena_allocate new k (arena_deallocate p n ar) = Some (p, ar') \<and> sys_blocks ar' = sys_blocks ar \<and>
    sys_calls ar' = sys_calls ar \<and> free_heads ar' = free_heads ar"
proof -
  have "\<not> kMaxBlock < k" using k n size_class_bounds(1) by (metis not_le)
  moreover have "arena_size_class n < length (free_heads ar)"
    using arena_wfD(1) [OF wf] n size_class_bounds(1) [of n] by (simp add: chains_ok_def)
  moreover have "p \<noteq> 0" using live_aligned [OF wf p] by simp
  ultimately show ?thesis using n k by (simp add: arena_allocate_def arena_deallocate_def Let_def)
qed

lemma destroy_slabs:
  assumes "chain 0 (cells ar) (newest ar) (map fst S)" and "\<And>s. s \<in> set S \<Longrightarrow> cells ar (fst s + 8) = snd s"
    and "mset (sys_blocks ar) = mset S + N"
  shows "\<exists>ar'. arena_destroy ar = Some ar' \<and> mset (sys_blocks ar') = N"
  using assms
proof (induction S arbitrary: ar)
  case Nil
  then show ?case by (subst arena_destroy.simps) simp
next
  case (Cons s S)
  let ?ar = "(sys_delete (newest ar) (cells ar (newest ar + 8)) ar)\<lparr>newest := cells ar (newest ar)\<rparr>"
  have n: "newest ar = fst s" "newest ar \<noteq> 0" "cells ar (newest ar + 8) = snd s" using Cons.prems(1,2) by auto
  have "\<exists>ar'. arena_destroy ?ar = Some ar' \<and> mset (sys_blocks ar') = N"
    by (rule Cons.IH) (use Cons.prems n in \<open>auto simp: sys_delete_def\<close>)
  then show ?case using n(2) by (subst arena_destroy.simps) simp
qed

text \<open>An \<^verbatim>\<open>operator new\<close> for the witnesses: the next aligned address behind all allocated blocks.\<close>

definition bump_new :: op_new where
  "bump_new k L n = Some (kGranule * Suc (foldr (\<lambda>r m. max (fst r + snd r) m) L 0))"

lemma bump_new_ok: "op_new_ok bump_new"
proof -
  have "fst r + snd r \<le> foldr (\<lambda>r m. max (fst r + snd r) m) L 0" if "r \<in> set L" for r and L :: "region list"
    using that by (induction L) auto
  then have "bytes_of (kGranule * Suc (foldr (\<lambda>r m. max (fst r + snd r) m) L 0), n) \<inter> bytes_of r = {}" if "r \<in> set L" for r L n
    using that by (fastforce simp: bytes_of_def kGranule_def)
  then show ?thesis by (simp add: op_new_ok_def bump_new_def) (simp add: kGranule_def)
qed

text \<open>An arena without reserve after two allocations of 24 bytes.\<close>

lemma sample_arena:
  "\<exists>start ar. arena_new bump_new 0 [] (\<lambda>_. 0) = Some start \<and>
     alloc_reaches (arena_allocate bump_new) arena_deallocate arena_store start ar [(64, 24), (32, 24)]"
proof -
  obtain start where s: "arena_new bump_new 0 [] (\<lambda>_. 0) = Some start" by (simp add: arena_new_def)
  then have f: "free_heads start = replicate 17 0" "cursor start = 0" "slab_end start = 0" "sys_blocks start = []"
    by (auto simp: arena_new_def kMaxBlock_def kGranule_def)
  obtain a1 where a1: "arena_allocate bump_new 24 start = Some (32, a1)" "free_heads a1 = replicate 17 0" "cursor a1 = 64" "slab_end a1 = 65552"
    by (simp add: arena_allocate_def Let_def carve_def add_slab_def sys_new_def bump_new_def f arena_size_class_def
        kMaxBlock_def kGranule_def kSlabBytes_def del: replicate.simps)
  obtain a2 where a2: "arena_allocate bump_new 24 a1 = Some (64, a2)"
    using a1(2-4) by (simp add: arena_allocate_def Let_def carve_def arena_size_class_def kMaxBlock_def kGranule_def del: replicate.simps)
  have "alloc_reaches (arena_allocate bump_new) arena_deallocate arena_store start a1 [(32, 24)]"
    by (rule allocated [OF started]) (rule a1(1))
  then have "alloc_reaches (arena_allocate bump_new) arena_deallocate arena_store start a2 [(64, 24), (32, 24)]"
    by (rule allocated) (rule a2)
  then show ?thesis using s by blast
qed

subsection \<open>Properties\<close>

text \<open>
  (C37) The arena is a sound allocator. After any sequence of allocations, releases and writes by the owners of live blocks, on
  an arena of any initial reserve and next to any blocks \<open>E\<close> of the rest of the program: live blocks do not overlap
  each other, are not null and are aligned to the granule; the next allocation, whichever way it is served (free list, newest slab, new slab,
  system), returns a block outside all live ones and leaves their contents as they are; and a released block of at most
  \<^verbatim>\<open>kMaxBlock\<close> bytes is the one that the next request of its size class gets, without a call of the system.
\<close>

theorem arena_is_sound:
  assumes "op_new_ok new" and "apart (mset E)" and "arena_new new reserve_bytes E m = Some start"
    and "alloc_reaches (arena_allocate new) arena_deallocate arena_store start ar L"
  shows "apart (mset L) \<and> (\<forall>r\<in>set L. 0 < fst r \<and> kGranule dvd fst r) \<and>
    (\<forall>n p ar'. arena_allocate new n ar = Some (p, ar') \<longrightarrow>
       0 < p \<and> kGranule dvd p \<and> (\<forall>r\<in>set L. bytes_of (p, n) \<inter> bytes_of r = {} \<and> (\<forall>x\<in>bytes_of r. cells ar' x = cells ar x))) \<and>
    (\<forall>p n k. (p, n) \<in> set L \<and> n \<le> kMaxBlock \<and> arena_size_class k = arena_size_class n \<longrightarrow>
       (\<exists>ar'. arena_allocate new k (arena_deallocate p n ar) = Some (p, ar') \<and> sys_calls ar' = sys_calls ar))"
proof -
  have inv: "arena_inv new E ar L" by (rule arena.reaches_inv [OF assms(4)]) (rule arena_new_inv [OF assms(1-3)])
  then obtain F S where wf: "arena_wf E ar L F S" by (auto simp: arena_inv_def)
  show ?thesis using arena.separate_law [OF inv] arena.fresh_block [OF inv] reuse [OF wf] by blast
qed

theorem arena_is_sound_witness:
  "\<exists>start ar. alloc_reaches (arena_allocate bump_new) arena_deallocate arena_store start ar [(64, 24), (32, 24)] \<and>
     bytes_of (64, 24) \<inter> bytes_of (32, 24) = {} \<and> (\<exists>ar'. arena_allocate bump_new 20 (arena_deallocate 32 24 ar) = Some (32, ar'))"
proof -
  obtain start ar where s: "arena_new bump_new 0 [] (\<lambda>_. 0) = Some start"
    "alloc_reaches (arena_allocate bump_new) arena_deallocate arena_store start ar [(64, 24), (32, 24)]" using sample_arena by blast
  have "(24 :: nat) \<le> kMaxBlock" "arena_size_class 20 = arena_size_class 24" by (simp_all add: kMaxBlock_def arena_size_class_def kGranule_def)
  note sound = arena_is_sound [OF bump_new_ok _ s, simplified]
  have "bytes_of (64, 24) \<inter> bytes_of (32, 24) = {}" using sound by blast
  moreover have "\<exists>ar'. arena_allocate bump_new 20 (arena_deallocate 32 24 ar) = Some (32, ar')"
    using sound \<open>24 \<le> kMaxBlock\<close> \<open>arena_size_class 20 = arena_size_class 24\<close> by blast
  ultimately show ?thesis using s(2) by blast
qed

text \<open>
  (C38) Memory goes back to the system only when the arena is destroyed, and then all of it: whatever was allocated and
  released before, the destructor returns, and the system's blocks are those of the rest of the program and the live blocks of
  more than \<^verbatim>\<open>kMaxBlock\<close> bytes, which were never in a slab.
\<close>

theorem arena_destroy_releases:
  assumes "op_new_ok new" and "apart (mset E)" and "arena_new new reserve_bytes E m = Some start"
    and "alloc_reaches (arena_allocate new) arena_deallocate arena_store start ar L"
  shows "\<exists>ar'. arena_destroy ar = Some ar' \<and> mset (sys_blocks ar') = mset (filter (\<lambda>r. kMaxBlock < snd r) L) + mset E"
proof -
  have "arena_inv new E ar L" by (rule arena.reaches_inv [OF assms(4)]) (rule arena_new_inv [OF assms(1-3)])
  then obtain F S where wf: "arena_wf E ar L F S" by (auto simp: arena_inv_def)
  have "(\<lambda>r. \<not> small r) = (\<lambda>r. kMaxBlock < snd r)" by (simp add: fun_eq_iff small_def not_le)
  then show ?thesis
    using arena_wfD(1,2) [OF wf] destroy_slabs [of ar S "mset (filter (\<lambda>r. kMaxBlock < snd r) L) + mset E"]
    by (simp add: chains_ok_def add.assoc)
qed

theorem arena_destroy_releases_witness:
  "\<exists>start ar ar'. alloc_reaches (arena_allocate bump_new) arena_deallocate arena_store start ar [(64, 24), (32, 24)] \<and>
     arena_destroy ar = Some ar' \<and> sys_blocks ar' = []"
proof -
  obtain start ar where s: "arena_new bump_new 0 [] (\<lambda>_. 0) = Some start"
    "alloc_reaches (arena_allocate bump_new) arena_deallocate arena_store start ar [(64, 24), (32, 24)]" using sample_arena by blast
  have "filter (\<lambda>r. kMaxBlock < snd r) [(64, 24), (32, 24)] = ([] :: region list)" by (simp add: kMaxBlock_def)
  then obtain ar' where "arena_destroy ar = Some ar'" "sys_blocks ar' = []" using arena_destroy_releases [OF bump_new_ok _ s] by auto
  then show ?thesis using s(2) by blast
qed

end
