(* ===== verification/Capacity.thy ===== *)
theory Capacity
  imports Engine_Properties
begin

section \<open>How much memory a book holds\<close>

text \<open>
  The pool and the id index are the two parts of a book that grow while it matches. The comments on
  \<^verbatim>\<open>SlotPool\<close> and \<^verbatim>\<open>IdIndex\<close> promise that a book provisioned for its peak never grows either, and the
  benchmark reports \<^verbatim>\<open>order_pool_growths() + id_index_growths()\<close> to show it. This theory proves it: what
  one operation does to the two sizes and the two counters (\<open>room_step\<close>), and from that, for a book
  that never held more than \<open>N\<close> orders, that both sizes are the constructed ones doubled once per
  growth and stay below twice and four times \<open>N\<close>.
\<close>

definition order_pool_growths :: "book \<Rightarrow> 64 word" where
  "order_pool_growths b = pool_growths (pool b)"

definition id_index_growths :: "book \<Rightarrow> 64 word" where
  "id_index_growths b = ix_growths (order_index b)"

subsection \<open>What an operation leaves alone\<close>

text \<open>Sizes and counters of the pool and of the index.\<close>

definition pool_room :: "'a slot_pool \<Rightarrow> nat \<times> 64 word" where
  "pool_room P = (length (slots P), pool_growths P)"

definition index_room :: "'v id_index \<Rightarrow> nat \<times> 64 word" where
  "index_room ix = (length (table ix), ix_growths ix)"

definition same_room :: "book \<Rightarrow> book \<Rightarrow> bool" where
  "same_room b b' \<longleftrightarrow> pool_room (pool b') = pool_room (pool b) \<and> index_room (order_index b') = index_room (order_index b)"

lemma same_room_refl [simp]: "same_room b b"
  by (simp add: same_room_def)

lemma same_room_trans [trans]: "same_room a b \<Longrightarrow> same_room b c \<Longrightarrow> same_room a c"
  by (simp add: same_room_def)

lemma pool_room_upd [simp]: "pool_room (upd_slot i f P) = pool_room P"
  by (simp add: pool_room_def upd_slot_def)

lemma pool_room_release [simp]: "pool_room (release i P) = pool_room P"
  by (simp add: release_def pool_room_def upd_slot_def)

lemma pool_room_detach: "detach l i P = (l', P') \<Longrightarrow> pool_room P' = pool_room P"
  by (auto simp: detach_def Let_def split: if_splits prod.splits)

lemma append_slot_frame:
  "append_slot l i P = (l', P') \<Longrightarrow>
     pool_room P' = pool_room P \<and> free_head P' = free_head P \<and> pool_used P' = pool_used P"
  by (auto simp: append_slot_def Let_def split: if_splits prod.splits)

lemma close_gap_room:
  assumes "close_gap ix h j = Some ix'"
  shows "index_room ix' = index_room ix \<and> ix_count ix' = ix_count ix"
proof (rule close_gap.raw_induct [where P = "\<lambda>ix h j ix'. index_room ix' = index_room ix \<and> ix_count ix' = ix_count ix", OF _ assms],
    goal_cases)
  case prems: (1 f ix h j ix')
  have idx: "index_room (ix\<lparr>table := (table ix)[i := x]\<rparr>) = index_room ix" for i x
    by (simp add: index_room_def)
  show ?case using prems(2) by (auto simp: Let_def idx split: if_splits dest!: prems(1))
qed

lemma ix_take_room: "ix_take ix k = Some (r, ix') \<Longrightarrow> index_room ix' = index_room ix"
  by (auto simp: ix_take_def bind_eq_Some_conv index_room_def split: option.splits dest!: close_gap_room)

lemma drop_order_room:
  assumes "drop_order k l i b = Some (l', b')"
  shows "same_room b b'"
proof -
  obtain r ix where "ix_take (order_index b) k = Some (r, ix)" "b' = b\<lparr>order_index := ix, pool := snd (detach l i (pool b))\<rparr>"
    using assms by (auto simp: drop_order_def ix_erase_def bind_eq_Some_conv case_prod_beta)
  then show ?thesis
    using ix_take_room pool_room_detach [of l i "pool b", OF surjective_pairing] by (auto simp: same_room_def)
qed

text \<open>Matching only releases slots and erases ids.\<close>

lemma match_level_room:
  assumes "match_level stp p b l i rep = Some (b', l', i', rep')"
  shows "same_room b b'"
proof -
  have "same_room b (fst (b', l', i', rep'))"
  proof (rule match_level.raw_induct [where P = "\<lambda>stp p b l i rep y. same_room b (fst y)", OF _ assms], goal_cases)
    case prems: (1 f stp p b l i rep y)
    have step: "same_room b (fst y)" if "same_room b b1" "f st q b1 l1 i1 rep1 = Some y" for st q b1 l1 i1 rep1
      using same_room_trans [OF that(1) prems(1) [OF that(2)]] .
    have drop: "same_room b (fst y)"
      if "same_room b b0" and bound: "Option.bind (drop_order k l0 s b0) (\<lambda>(l1, b1). f st q b1 l1 i1 rep1) = Some y"
      for b0 k l0 s st q i1 rep1
    proof -
      obtain l1 b1 where "drop_order k l0 s b0 = Some (l1, b1)" "f st q b1 l1 i1 rep1 = Some y"
        using bound by (auto simp: bind_eq_Some_conv)
      then show ?thesis using step [OF same_room_trans [OF that(1) drop_order_room]] by blast
    qed
    have upd: "same_room b (b\<lparr>pool := upd_slot s g (pool b), next_seq := n, trade_out := t\<rparr>)" for s g n t
      by (simp add: same_room_def)
    show ?case
      using prems(2) by (auto simp: Let_def upd split: if_splits dest: drop [OF same_room_refl] drop [OF upd] step [OF upd])
  qed
  then show ?thesis by simp
qed

lemma same_room_ladder [simp]:
  "same_room b (set_ladder sd L b') = same_room b b'" "same_room (set_ladder sd L b) b' = same_room b b'"
  by (simp_all add: same_room_def set_ladder_def)

lemma bind_ret_conv: "Option.bind m k = ret r s \<longleftrightarrow> (\<exists>x. m = Some x \<and> k x = ret r s)"
  by (cases m) auto

lemma match_side_room:
  assumes "match_side stp opp lim i rep b = ret r b'"
  shows "same_room b b'"
proof -
  have "\<forall>r' s. (Inr r :: fault + order \<times> exec_report, b') = (Inr r', s) \<longrightarrow> same_room b s"
  proof (rule match_side.raw_induct
      [where P = "\<lambda>stp opp lim i rep b y. \<forall>r s. y = (Inr r, s) \<longrightarrow> same_room b s", OF _ assms [unfolded ret_def]], goal_cases)
    case prems: (1 f stp opp lim i rep b y)
    have IH: "same_room b s" if "f stp opp lim i rep b = ret r s" for stp opp lim i rep b r s
      using prems(1) that by (auto simp: ret_def)
    have "same_room b s" if "(if ord_qty i > 0 then
        (case ladder_best (is_bid opp) (ladder_of opp b) of
           None \<Rightarrow> ret (i, rep) b
         | Some (p, l) \<Rightarrow>
             if \<not> crosses (ord_side i) lim p then ret (i, rep) b
             else Option.bind (match_level stp p b l i rep)
               (\<lambda>(b1, l1, i1, rep1).
                  let L = set_level p l1 (ladder_of opp b1) in
                  bind_run (if level_empty l1 then ladder_closed (is_bid opp) p L else ret () L)
                    (\<lambda>_ L1. let b2 = set_ladder opp L1 b1 in
                       if stp_halted rep1 then ret (i1, rep1) b2 else f stp opp lim i1 rep1 b2)
                    (\<lambda>L1. set_ladder opp L1 b1)))
      else ret (i, rep) b) = ret r s" for r s
      using that by (auto simp: Let_def bind_run_eq_ret bind_ret_conv split: if_splits option.splits
          dest!: match_level_room IH) (blast intro: same_room_trans)+
    then show ?case using prems(2) by (auto simp: ret_def)
  qed
  then show ?thesis by simp
qed

subsection \<open>What resting one order may grow\<close>

text \<open>
  The pool doubles only when all its slots are live after the new order is queued but one, the index
  only when it would be more than half full.
\<close>

definition pool_step :: "'a slot_pool \<Rightarrow> 'a slot_pool \<Rightarrow> bool" where
  "pool_step P P' \<longleftrightarrow> pool_room P' = pool_room P \<or>
     length (slots P') = 2 * length (slots P) \<and> pool_growths P' = pool_growths P + 1 \<and> length (slots P) < pool_size P'"

definition index_step :: "'v id_index \<Rightarrow> 'v id_index \<Rightarrow> bool" where
  "index_step ix ix' \<longleftrightarrow> index_room ix' = index_room ix \<or>
     length (table ix') = 2 * length (table ix) \<and> ix_growths ix' = ix_growths ix + 1 \<and> length (table ix) < 2 * ix_size ix'"

definition room_step :: "book \<Rightarrow> book \<Rightarrow> bool" where
  "room_step b b' \<longleftrightarrow> pool_step (pool b) (pool b') \<and> index_step (order_index b) (order_index b')"

lemma same_room_step: "same_room b b' \<Longrightarrow> room_step b b'"
  by (simp add: same_room_def room_step_def pool_step_def index_step_def)

lemma room_step_cong: "same_room a b \<Longrightarrow> room_step b c \<Longrightarrow> room_step a c"
  by (simp add: same_room_def room_step_def pool_step_def index_step_def pool_room_def index_room_def)

lemma place_room: "place ix k v = Some ix' \<Longrightarrow> index_room ix' = index_room ix \<and> ix_count ix' = ix_count ix"
  by (auto simp: place_def index_room_def)

lemma place_all_room: "place_all es ix = Some ix' \<Longrightarrow> index_room ix' = index_room ix \<and> ix_count ix' = ix_count ix"
  by (induction es arbitrary: ix) (force simp: bind_eq_Some_conv dest: place_room split: if_splits)+

lemma ix_grow_room:
  assumes "ix_grow ix = ret () ix'"
  shows "length (table ix') = 2 * length (table ix)" "ix_growths ix' = ix_growths ix + 1" "ix_count ix' = ix_count ix"
proof -
  obtain iy where "place_all (table ix) (resize_table (length (table ix) * 2) ix) = Some iy" "ix' = iy\<lparr>ix_growths := ix_growths iy + 1\<rparr>"
    using assms by (auto simp: ix_grow_def bind_ret_conv split: if_splits)
  then show "length (table ix') = 2 * length (table ix)" "ix_growths ix' = ix_growths ix + 1" "ix_count ix' = ix_count ix"
    using place_all_room [of "table ix" "resize_table (length (table ix) * 2) ix" iy] by (auto simp: index_room_def resize_table_def)
qed

lemma ix_insert_step:
  assumes "ix_insert ix k v = ret () ix'"
  shows "index_step ix ix'"
proof -
  obtain iy iz where iy: "(if (ix_count ix + 1) * 2 > length (table ix) then ix_grow ix else ret () ix) = ret () iy"
      and iz: "place iy k v = Some iz" "ix' = iz\<lparr>ix_count := ix_count iz + 1\<rparr>"
    using assms by (auto simp: ix_insert_def bind_run_eq_ret bind_ret_conv)
  have e: "length (table ix') = length (table iy)" "ix_growths ix' = ix_growths iy" "ix_size ix' = ix_count iy + 1"
    using place_room [OF iz(1)] iz(2) by (simp_all add: index_room_def ix_size_def)
  show ?thesis
    using iy e ix_grow_room by (fastforce simp: index_step_def index_room_def split: if_splits)
qed

text \<open>The free list is used up before the pool grows, so after the growth every used slot is live.\<close>

lemma acquire_step:
  assumes "acquire d P = ret i P1"
    and later: "pool_room P' = pool_room P1" "free_head P' = free_head P1" "pool_used P' = pool_used P1"
    and inv: "pool_inv P'" "pool_size P' \<le> 2 ^ 31"
  shows "pool_step P P'"
proof (cases "free_head P \<noteq> kNoSlot \<or> pool_used P \<noteq> length (slots P)")
  case True
  then have "pool_room P1 = pool_room P"
    using assms(1) by (cases "free_head P = kNoSlot")
      (auto simp: acquire_def hand_out_def upd_slot_def pool_room_def Let_def)
  then show ?thesis using later(1) by (simp add: pool_step_def)
next
  case False
  then obtain P0 where P0: "pool_grow d P = ret () P0" "P1 = hand_out (of_nat (pool_used P0)) (P0\<lparr>pool_used := pool_used P0 + 1\<rparr>)"
    using assms(1) by (auto simp: acquire_def bind_run_eq_ret Let_def)
  then have used: "free_head P1 = kNoSlot" "pool_used P1 = length (slots P) + 1"
    using False by (auto simp: pool_grow_def hand_out_def upd_slot_def Let_def split: if_splits)
  have "free_list P' = []" using used(1) later(2) by (cases "pool_used P'") (simp_all add: free_list_def)
  then have "pool_size P' = length (slots P) + 1"
    using pool_invD(2) [OF inv(1)] used(2) later(3) by (simp add: pool_size_def)
  then show ?thesis
    using P0 inv(2) later(1)
    by (auto simp: pool_step_def pool_room_def pool_grow_def hand_out_def upd_slot_def Let_def split: if_splits)
qed

text \<open>Resting an order, and the operations.\<close>

lemma insert_order_step:
  assumes "insert_order sd x b = ret () b'" and "pool_inv (pool b')" and "pool_size (pool b') \<le> 2 ^ 31"
  shows "room_step b b'"
proof -
  define b1 where "b1 = set_ladder sd (ladder_open (is_bid sd) (ord_price x) (ladder_of sd (placed_book sd (ord_price x) b)))
      (placed_book sd (ord_price x) b)"
  have b1: "pool b1 = pool b" "order_index b1 = order_index b"
    by (simp_all add: b1_def placed_book_def place_windows_def set_ladder_def Let_def)
  obtain slot P where P: "acquire zero_resting (pool b) = ret slot P"
    and rest: "(if slot \<ge> 2 ^ 31 then throw Length_error (b1\<lparr>pool := P\<rparr>)
           else
             (let r = \<lparr>res_id = ord_id x, res_price = ord_price x, res_qty = ord_qty x,
                       res_owner = ord_owner x\<rparr>;
                  P1 = upd_slot slot (\<lambda>s. s\<lparr>slot_value := r\<rparr>) P;
                  L = ladder_of sd b1
              in case append_slot (level_ref L (ord_price x)) slot P1 of
                 (level, P2) \<Rightarrow>
                   let b2 = set_ladder sd (set_level (ord_price x) level L) (b1\<lparr>pool := P2\<rparr>)
                   in bind_run (ix_insert (order_index b2) (ord_id x) (index_value slot (ord_side x)))
                     (\<lambda>_ ix. ret () (b2\<lparr>order_index := ix\<rparr>))
                     (\<lambda>ix. b2\<lparr>order_index := ix\<rparr>))) = ret () b'"
    using assms(1) unfolding insert_order_def Let_def bind_run_eq_ret b1(1) [symmetric] b1_def placed_book_def by blast
  let ?P1 = "upd_slot slot (\<lambda>s. s\<lparr>slot_value := \<lparr>res_id = ord_id x, res_price = ord_price x, res_qty = ord_qty x,
      res_owner = ord_owner x\<rparr>\<rparr>) P"
  obtain l P2 where P2: "append_slot (level_ref (ladder_of sd b1) (ord_price x)) slot ?P1 = (l, P2)" by fastforce
  obtain ix where ix: "ix_insert (order_index b) (ord_id x) (index_value slot (ord_side x)) = ret () ix"
    and b': "pool b' = P2" "order_index b' = ix"
    using rest P2 b1(2) by (auto simp: Let_def bind_run_eq_ret set_ladder_def split: if_splits)
  have "pool_step (pool b) (pool b')"
    using acquire_step [OF P, of P2] append_slot_frame [OF P2] assms(2,3) b' by simp
  then show ?thesis using ix_insert_step [OF ix] b' by (simp add: room_step_def)
qed

lemma submit_step:
  assumes "submit k owner sd lim qty rest b = ret rep b'" and "pool_inv (pool b')" and "pool_size (pool b') \<le> 2 ^ 31"
  shows "room_step b b'"
proof -
  have match: "same_room b b1" if "match_order opp i lim r b = ret y b1" for opp i r y b1
    using that match_side_room by (simp add: match_order_def)
  show ?thesis
    using assms by (auto simp: submit_def bind_ret_conv bind_run_eq_ret Let_def same_room_step split: if_splits
        dest!: match dest: insert_order_step room_step_cong)
qed

lemma remove_order_room: "remove_order sd slot b = ret () b' \<Longrightarrow> same_room b b'"
  by (auto simp: remove_order_def Let_def bind_run_eq_ret same_room_def set_ladder_def split: option.splits prod.splits if_splits
      dest!: pool_room_detach)

lemma cancel_room:
  assumes "cancel k b = ret r b'"
  shows "same_room b b'"
proof -
  have "same_room b b1" if "ix_take (order_index b) k = Some (y, ix)" "remove_order sd slot (b\<lparr>order_index := ix\<rparr>) = ret () b1" for y ix sd slot b1
    using ix_take_room [OF that(1)] remove_order_room [OF that(2)] by (simp add: same_room_def)
  then show ?thesis
    using assms by (auto simp: cancel_def bind_ret_conv bind_run_eq_ret split: option.splits)
qed

lemma modify_step:
  assumes "modify k p qty b = ret rep b'" and "pool_inv (pool b')" and "pool_size (pool b') \<le> 2 ^ 31"
  shows "room_step b b'"
proof -
  have "room_step b b'" if "cancel k b = ret r b1" "add_limit k owner sd p qty b1 = ret rep b'" for r b1 owner sd
    using cancel_room [OF that(1)] submit_step [OF that(2) [unfolded add_limit_def] assms(2,3)] by (rule room_step_cong)
  moreover have "room_step b b'" if "cancel k b = ret r b'" for r
    using cancel_room [OF that] by (rule same_room_step)
  moreover obtain r where "ix_find (order_index b) k = Some r" using assms(1) by (auto simp: modify_def bind_ret_conv)
  ultimately show ?thesis
    using assms(1) by (cases r) (auto simp: modify_def bind_run_eq_ret Let_def same_room_step split: if_splits)
qed

lemma returned_Some: "returned m = Some (a, s) \<longleftrightarrow> m = ret a s"
  by (auto simp: returned_def ret_def split: option.splits sum.splits)

lemma engine_step_room:
  assumes "engine_step x b = Some (rep, b')" and "pool_inv (pool b')" and "pool_size (pool b') \<le> 2 ^ 31"
  shows "room_step b b'"
  using assms
  by (cases "op_what x") (auto simp: engine_step_def returned_Some add_limit_def add_market_def
      intro: submit_step modify_step same_room_step [OF cancel_room])

subsection \<open>Growth along a run\<close>

text \<open>\<open>reaches_within cfg N n b\<close>: \<open>b\<close> is reached with \<open>n\<close> operations and no book on the way held more than \<open>N\<close> orders.\<close>

inductive reaches_within :: "config \<Rightarrow> nat \<Rightarrow> nat \<Rightarrow> book \<Rightarrow> bool" for cfg N where
  new_within: "book_new cfg = Some b \<Longrightarrow> reaches_within cfg N 0 b"
| step_within: "reaches_within cfg N n b \<Longrightarrow> engine_step x b = Some (rep, b') \<Longrightarrow> book_size b' \<le> N \<Longrightarrow>
    reaches_within cfg N (Suc n) b'"
| pop_within: "reaches_within cfg N n b \<Longrightarrow> reaches_within cfg N n (b\<lparr>trade_out := snd (ring_pop (trade_out b))\<rparr>)"

lemma reaches_within_reaches: "reaches_within cfg N n b \<Longrightarrow> reaches cfg n b"
  by (induction rule: reaches_within.induct) (auto intro: reaches.intros)

text \<open>\<open>n\<close> operations never leave more than \<open>n\<close> orders.\<close>

lemma reaches_within_operations:
  assumes "reaches cfg n b" and "n \<le> N" and "N \<le> 2 ^ 31"
  shows "reaches_within cfg N n b"
  using assms
proof (induction rule: reaches.induct)
  case (operated n b x rep b')
  obtain Q where "book_size b' \<le> Suc n"
    using reaches_rel [OF reaches.operated [OF operated(1,2)]] operated.prems by auto
  then show ?case using operated by (intro step_within) auto
qed (auto intro: reaches_within.intros)

lemma reaches_new:
  assumes "reaches cfg n b"
  obtains b0 where "book_new cfg = Some b0"
  using assms by (induction rule: reaches.induct) auto

lemma book_new_room:
  assumes "book_new cfg = Some b0"
  shows "pool_room (pool b0) = (if expected_orders cfg > 0 then unat (expected_orders cfg) else 1024, 0)"
    "ix_growths (order_index b0) = 0" "2 * length (slots (pool b0)) \<le> length (table (order_index b0))"
    "0 < length (table (order_index b0))"
proof -
  let ?e = "if expected_orders cfg > 0 then expected_orders cfg else kDefaultPoolSlots"
  have small: "?e \<le> 2 ^ 57" using book_new_allocatable [OF assms] wanted_orders_le [of cfg] by (simp add: allocatable_def)
  have ix: "ix_new ?e = Some (Inr (order_index b0))" "pool b0 = pool_new zero_resting (unat ?e)"
    using assms book_init_outcome [where grants = "\<lambda>_. True" and cfg = cfg] by (auto simp: book_new_eq_Some)
  have pos: "unat ?e \<noteq> 0" by (simp add: kDefaultPoolSlots_def unat_eq_0 word_gt_0)
  show "pool_room (pool b0) = (if expected_orders cfg > 0 then unat (expected_orders cfg) else 1024, 0)"
    using pos ix(2) by (auto simp: pool_new_def pool_room_def kDefaultPoolSlots_def unat_eq_0)
  have l: "length (slots (pool b0)) = unat ?e" using pos ix(2) by (simp add: pool_new_def)
  show "ix_growths (order_index b0) = 0" using ix(1) by (auto simp: ix_new_def resize_table_def split: if_splits dest: sym)
  show "2 * length (slots (pool b0)) \<le> length (table (order_index b0))" "0 < length (table (order_index b0))"
    using ix_new_spec [OF small, where 'a = "32 word"] ix(1) l by auto
qed

text \<open>One doubling keeps the account of a size \<open>s\<close> after \<open>g\<close> growths from \<open>s0\<close>.\<close>

lemma doubled_account:
  assumes s: "s = s0 * 2 ^ unat (g :: 64 word)" and "0 < (s0 :: nat)" and "s < 2 ^ 63"
  shows "2 * s = s0 * 2 ^ unat (g + 1)"
proof -
  have "2 ^ unat g \<le> s" using s assms(2) by simp
  then have "(2::nat) ^ unat g < 2 ^ 63" using assms(3) by (rule le_less_trans)
  then have "unat g < 63" by (rule power_less_imp_less_exp [rotated]) simp
  then have "unat (g + 1) = Suc (unat g)" by (subst unat_plus_simple [THEN iffD1]) (auto simp: word_le_nat_alt unat_word_ariths)
  then show ?thesis using s by simp
qed

definition accounts :: "nat \<Rightarrow> nat \<Rightarrow> nat \<times> 64 word \<Rightarrow> bool" where
  "accounts s0 m r \<longleftrightarrow> fst r = s0 * 2 ^ unat (snd r) \<and> (snd r = 0 \<or> fst r < m)"

lemma accounts_step:
  assumes "accounts s0 m r" and "0 < s0" and "2 * fst r < m" and "m \<le> 2 ^ 63"
  shows "accounts s0 m (2 * fst r, snd r + 1)"
  using doubled_account [of "fst r" s0 "snd r"] assms by (simp add: accounts_def)

lemma room_within:
  assumes "reaches_within cfg N n b" and "n \<le> 2 ^ 31" and "N \<le> 2 ^ 31" and new: "book_new cfg = Some b0"
  shows "accounts (length (slots (pool b0))) (2 * N) (pool_room (pool b)) \<and>
    accounts (length (table (order_index b0))) (4 * N) (index_room (order_index b))"
  using assms(1,2)
proof (induction rule: reaches_within.induct)
  case (new_within b)
  then show ?case using new book_new_room [OF new] by (simp add: accounts_def pool_room_def index_room_def)
next
  case (step_within n b x rep b')
  have "reaches cfg (Suc n) b'" using reaches_within_reaches [OF step_within(1)] step_within(2) by (rule operated)
  then obtain Q where rel: "book_rel b' Q (book_view b')" using reaches_rel step_within.prems by blast
  note core = book_wfD(1) [OF book_relD(1) [OF rel]]
  have sz: "pool_size (pool b') = book_size b'" using core_counts [OF core] by (simp add: book_size_def)
  have step: "room_step b b'"
    using engine_step_room [OF step_within(2) core_wfD(1) [OF core]] sz step_within(3) assms(3) by simp
  have pos: "0 < length (slots (pool b0))" "0 < length (table (order_index b0))"
    using book_new_room [OF new] by (auto simp: pool_room_def word_gt_0 unat_gt_0 split: if_splits)
  have IH: "accounts (length (slots (pool b0))) (2 * N) (pool_room (pool b))"
    "accounts (length (table (order_index b0))) (4 * N) (index_room (order_index b))"
    using step_within.IH step_within.prems by simp_all
  have "accounts (length (slots (pool b0))) (2 * N) (pool_room (pool b'))"
    using step sz step_within(3) assms(3) IH(1) accounts_step [OF IH(1) pos(1)]
    by (auto simp: room_step_def pool_step_def pool_room_def)
  moreover have "accounts (length (table (order_index b0))) (4 * N) (index_room (order_index b'))"
    using step step_within(3) assms(3) IH(2) accounts_step [OF IH(2) pos(2)]
    by (auto simp: room_step_def index_step_def index_room_def book_size_def)
  ultimately show ?case by blast
next
  case (pop_within n b)
  then show ?case by simp
qed

text \<open>Every level of the fallback maps holds an order, so there are no more of them than orders.\<close>

definition fallback_levels :: "book \<Rightarrow> nat" where
  "fallback_levels b = length (overflow (bids b)) + length (overflow (asks b))"

lemma fallback_levels_le:
  assumes wf: "book_wf b Q"
  shows "fallback_levels b \<le> book_size b"
proof -
  note core = book_wfD(1) [OF wf]
  define K where "K = (\<lambda>sd. fst ` set (overflow (ladder_of sd b)))"
  define head where "head = (\<lambda>sd p. hd (Q sd p))"
  have inv: "ladder_inv (is_bid sd) (ladder_of sd b)" for sd using wf by (simp add: book_wf_def ladders_wf_def)
  have ne: "head sd p \<in> set (Q sd p)" if p: "p \<in> K sd" for sd p
  proof -
    have "map_of (overflow (ladder_of sd b)) p \<noteq> None" using p by (simp add: K_def map_of_eq_None_iff)
    then obtain l where "map_of (overflow (ladder_of sd b)) p = Some l" by blast
    then have "find_of b sd p = Some l" using ladder_invD(9) [OF inv] by (simp add: ladder_find_def)
    then show ?thesis using queue_facts(3) [OF core] by (simp add: head_def)
  qed
  have inj: "sd = sd' \<and> p = p'" if "p \<in> K sd" "p' \<in> K sd'" "head sd p = head sd' p'" for sd sd' p p'
    using queued_once [OF core ne [OF that(1)], of sd' p'] ne [OF that(2)] that(3) by auto
  have card: "card (K sd) = length (overflow (ladder_of sd b))" for sd
    using distinct_card [OF ranked_distinct [OF ladder_invD(8) [OF inv]]] by (simp add: K_def)
  have "head Buy ` K Buy \<inter> head Sell ` K Sell = {}" using inj by blast
  moreover have "card (head sd ` K sd) = card (K sd)" for sd using inj by (intro card_image) (auto simp: inj_on_def)
  moreover have "finite (K sd)" for sd by (simp add: K_def)
  ultimately have "fallback_levels b = card (head Buy ` K Buy \<union> head Sell ` K Sell)"
    by (simp add: card_Un_disjoint card fallback_levels_def ladder_of_def)
  also have "head Buy ` K Buy \<union> head Sell ` K Sell \<subseteq> live_slots (pool b)"
    using ne queue_facts(4) [OF core] by blast
  then have "card (head Buy ` K Buy \<union> head Sell ` K Sell) \<le> card (live_slots (pool b))" by (rule card_mono [OF finite])
  finally show ?thesis
    using card_live_slots [OF core_wfD(1) [OF core]] core_counts [OF core] by (simp add: book_size_def pool_size_def)
qed

text \<open>
  (C19) A book that never holds more than \<open>N\<close> orders: its pool and its index are the constructed ones,
  doubled once per growth that \<^verbatim>\<open>order_pool_growths()\<close> and \<^verbatim>\<open>id_index_growths()\<close> count; after a growth
  the pool has fewer than \<open>2 * N\<close> slots and the index fewer than \<open>4 * N\<close> entries; and when the book was
  provisioned for \<open>N\<close> orders (\<^verbatim>\<open>Config::expected_orders\<close>, 1024 by default), neither ever grows. The fallback maps
  hold at most as many levels as there are orders.
\<close>

theorem provisioned_never_grows:
  assumes "book_new cfg = Some b0" and "reaches_within cfg N n b" and "n \<le> 2 ^ 31" and "N \<le> 2 ^ 31"
  shows "pool_capacity (pool b) = pool_capacity (pool b0) * 2 ^ unat (order_pool_growths b) \<and>
    length (table (order_index b)) = length (table (order_index b0)) * 2 ^ unat (id_index_growths b) \<and>
    (order_pool_growths b \<noteq> 0 \<longrightarrow> pool_capacity (pool b) < 2 * N) \<and>
    (id_index_growths b \<noteq> 0 \<longrightarrow> length (table (order_index b)) < 4 * N) \<and>
    (N \<le> (if expected_orders cfg > 0 then unat (expected_orders cfg) else 1024) \<longrightarrow>
       order_pool_growths b = 0 \<and> id_index_growths b = 0) \<and>
    fallback_levels b \<le> book_size b"
proof -
  obtain Q where "book_rel b Q (book_view b)" using reaches_rel [OF reaches_within_reaches [OF assms(2)] assms(3)] by blast
  then have levels: "fallback_levels b \<le> book_size b" using fallback_levels_le [OF book_relD(1)] by blast
  note acc = room_within [OF assms(2,3,4,1), unfolded accounts_def pool_room_def index_room_def fst_conv snd_conv]
  note new = book_new_room [OF assms(1)]
  have cap: "length (slots (pool b0)) = (if expected_orders cfg > 0 then unat (expected_orders cfg) else 1024)"
    using new(1) by (simp add: pool_room_def)
  have grown: "2 * s0 \<le> s0 * 2 ^ unat g" if "g \<noteq> 0" for s0 :: nat and g :: "64 word"
    using that power_increasing [of 1 "unat g" "2::nat"] by (simp add: unat_gt_0 Suc_le_eq)
  have "pool_growths (pool b) = 0" if "N \<le> length (slots (pool b0))"
  proof (rule ccontr)
    assume g: "pool_growths (pool b) \<noteq> 0"
    have "2 * length (slots (pool b0)) \<le> length (slots (pool b))" using grown [OF g, of "length (slots (pool b0))"] acc by simp
    moreover have "length (slots (pool b)) < 2 * N" using acc g by blast
    ultimately show False using that by linarith
  qed
  moreover have "ix_growths (order_index b) = 0" if "N \<le> length (slots (pool b0))"
  proof (rule ccontr)
    assume g: "ix_growths (order_index b) \<noteq> 0"
    have "2 * length (table (order_index b0)) \<le> length (table (order_index b))" using grown [OF g, of "length (table (order_index b0))"] acc by simp
    moreover have "length (table (order_index b)) < 4 * N" using acc g by blast
    ultimately show False using that new(3) by linarith
  qed
  ultimately have "order_pool_growths b = 0 \<and> id_index_growths b = 0" if "N \<le> length (slots (pool b0))"
    using that by (simp add: order_pool_growths_def id_index_growths_def)
  then show ?thesis
    unfolding cap [symmetric] pool_capacity_def order_pool_growths_def id_index_growths_def using acc levels by blast
qed

theorem provisioned_never_grows_witness:
  "\<exists>b. reaches default_config 3 b \<and> book_view b = sample_view CancelResting \<and>
     order_pool_growths b = 0 \<and> id_index_growths b = 0"
proof -
  obtain b where b: "reaches default_config 3 b" "book_view b = sample_view CancelResting" using sample_default by blast
  obtain b0 where "book_new default_config = Some b0" using reaches_new [OF b(1)] .
  moreover have "reaches_within default_config 3 3 b" using reaches_within_operations [OF b(1)] by simp
  ultimately have "order_pool_growths b = 0 \<and> id_index_growths b = 0"
    using provisioned_never_grows [of default_config b0 3 3 b] by (simp add: default_config_def)
  then show ?thesis using b by blast
qed

end
