(* ===== verification/Map_Allocator.thy ===== *)
theory Map_Allocator
  imports Node_Arena Capacity
begin

section \<open>Where the fallback map's nodes live (\<^verbatim>\<open>ArenaAllocator\<close>, \<^verbatim>\<open>make_arena\<close>)\<close>

text \<open>
  The allocator that \<^verbatim>\<open>std::map\<close> is given: over the book's arena, or over the system when the arena pointer is null. Both
  ways keep the contract \<open>block_allocator\<close>. The arena is sized by \<^verbatim>\<open>make_arena\<close> from \<^verbatim>\<open>Config::expected_orders\<close>, and
  the last part shows what that is worth: an arena that serves the nodes of at most as many levels never asks the
  system again. The layout of a node is the standard library's; what is assumed of it is that it fits \<^verbatim>\<open>kBytesPerOrder\<close>.
\<close>

subsection \<open>Model\<close>

text \<open>A \<^verbatim>\<open>std::pair<const Price, PriceLevel>\<close> has 24 bytes and a pointer 8.\<close>

definition kBytesPerOrder :: nat where
  "kBytesPerOrder = (24 + 4 * 8 + kGranule - 1) div kGranule * kGranule"

text \<open>\<open>asan\<close> is \<^verbatim>\<open>kAsan\<close>. The result says whether there is an arena; without one the record only holds the system's blocks.\<close>

definition make_arena :: "bool \<Rightarrow> op_new \<Rightarrow> config \<Rightarrow> region list \<Rightarrow> (addr \<Rightarrow> nat) \<Rightarrow> (bool \<times> arena) option" where
  "make_arena asan new cfg L m =
     (if asan \<or> \<not> pool_nodes cfg
      then Some (False, \<lparr>free_heads = [], cursor = 0, slab_end = 0, newest = 0, slab_total = 0, cells = m, sys_blocks = L, sys_calls = 0\<rparr>)
      else map_option (\<lambda>ar. (True, ar)) (arena_new new (expected_orders cfg * of_nat kBytesPerOrder) L m))"

text \<open>The block that the constructor of the book accounts for is the one that the arena asks the system for.\<close>

lemma make_arena_request:
  "make_arena False new cfg L m = None \<longleftrightarrow> arena_request cfg > 0 \<and> new 0 L (arena_request cfg) = None"
  "make_arena False new cfg L m = Some (pooled, ar) \<Longrightarrow>
     sys_blocks ar = (if arena_request cfg > 0 then (the (new 0 L (arena_request cfg)), arena_request cfg) # L else L)"
  by (cases "new 0 L (arena_request cfg)"; auto simp: make_arena_def arena_new_def arena_request_def kBytesPerOrder_def kGranule_def
      kSlabBytes_def add_slab_def sys_new_def Let_def split: if_splits)+

definition array_bytes :: "nat \<Rightarrow> nat \<Rightarrow> nat" where
  "array_bytes elem n = unat (of_nat n * of_nat elem :: 64 word)"

definition node_allocate :: "op_new \<Rightarrow> bool \<Rightarrow> nat \<Rightarrow> nat \<Rightarrow> arena \<Rightarrow> (addr \<times> arena) option" where
  "node_allocate new pooled elem n ar =
     (let bytes = array_bytes elem n in if pooled then arena_allocate new bytes ar else sys_new new bytes ar)"

definition node_deallocate :: "bool \<Rightarrow> nat \<Rightarrow> addr \<Rightarrow> nat \<Rightarrow> arena \<Rightarrow> arena" where
  "node_deallocate pooled elem p n ar =
     (let bytes = array_bytes elem n in if pooled then arena_deallocate p bytes ar else sys_delete p bytes ar)"

subsection \<open>The system allocator keeps the same contract\<close>

definition system_inv :: "op_new \<Rightarrow> region list \<Rightarrow> arena \<Rightarrow> region list \<Rightarrow> bool" where
  "system_inv new E ar L \<longleftrightarrow> op_new_ok new \<and> mset (sys_blocks ar) = mset L + mset E \<and> apart (mset (sys_blocks ar)) \<and>
     (\<forall>r\<in>set L. 0 < fst r \<and> kGranule dvd fst r)"

interpretation system: block_allocator "sys_new new" sys_delete arena_store cells "system_inv new E" for new E
proof
  fix ar L n p ar'
  assume i: "system_inv new E ar L"
  have new: "op_new_ok new" and m: "mset (sys_blocks ar) = mset L + mset E" and ap: "apart (mset (sys_blocks ar))"
    and al: "\<forall>r\<in>set L. 0 < fst r \<and> kGranule dvd fst r" using i by (auto simp: system_inv_def)
  show "apart (mset L) \<and> (\<forall>r\<in>set L. 0 < fst r \<and> kGranule dvd fst r)"
    using ap al unfolding m by (simp only: apart_union)
  show "system_inv new E ar' ((p, n) # L) \<and> (\<forall>r\<in>set L. \<forall>x\<in>bytes_of r. cells ar' x = cells ar x)"
    if s: "sys_new new n ar = Some (p, ar')"
  proof -
    note sys = sys_new_apart [OF new s ap]
    have c: "cells ar' = cells ar" using s by (auto simp: sys_new_def)
    have "sys_blocks ar' = (p, n) # sys_blocks ar" using sys by blast
    then have "mset (sys_blocks ar') = mset ((p, n) # L) + mset E" using m by simp
    moreover have "\<forall>r\<in>set ((p, n) # L). 0 < fst r \<and> kGranule dvd fst r" using sys al by auto
    moreover have "apart (mset (sys_blocks ar'))" using sys by blast
    ultimately show ?thesis using new unfolding system_inv_def c by blast
  qed
  show "system_inv new E (sys_delete p n ar) (remove1 (p, n) L) \<and>
      (\<forall>r\<in>set (remove1 (p, n) L). \<forall>x\<in>bytes_of r. cells (sys_delete p n ar) x = cells ar x)" if p: "(p, n) \<in> set L"
  proof -
    have mL: "mset L = add_mset (p, n) (mset (remove1 (p, n) L))" using p by simp
    have "apart (add_mset (p, n) (mset (remove1 (p, n) L) + mset E))" using ap unfolding m by (subst (asm) mL) simp
    then have "apart (mset (remove1 (p, n) L) + mset E)" by simp
    moreover have "mset (sys_blocks (sys_delete p n ar)) = mset (remove1 (p, n) L) + mset E"
      using m p by (simp add: sys_delete_def)
    moreover have "cells (sys_delete p n ar) = cells ar" by (simp add: sys_delete_def)
    ultimately show ?thesis using new al set_remove1_subset [of "(p, n)" L] by (auto simp: system_inv_def)
  qed
next
  fix ar L r a v
  assume "system_inv new E ar L"
  moreover have "sys_blocks (arena_store a v ar) = sys_blocks ar" by (simp add: arena_store_def)
  ultimately show "system_inv new E (arena_store a v ar) L" unfolding system_inv_def by metis
qed

subsection \<open>An arena that serves one class of nodes\<close>

text \<open>
  \<open>nodes_within N c start ar L\<close>: \<open>ar\<close> is reached from \<open>start\<close> by allocating, releasing and writing blocks of the
  size class \<open>c\<close>, with at most \<open>N\<close> of them live at a time; \<open>L\<close> are the live ones.
\<close>

inductive nodes_within :: "op_new \<Rightarrow> nat \<Rightarrow> nat \<Rightarrow> arena \<Rightarrow> arena \<Rightarrow> region list \<Rightarrow> bool" for new N c start where
  none: "nodes_within new N c start start []"
| another: "nodes_within new N c start ar L \<Longrightarrow> length L < N \<Longrightarrow> arena_size_class n = c \<Longrightarrow>
    arena_allocate new n ar = Some (p, ar') \<Longrightarrow> nodes_within new N c start ar' ((p, n) # L)"
| dropped: "nodes_within new N c start ar L \<Longrightarrow> (p, n) \<in> set L \<Longrightarrow>
    nodes_within new N c start (arena_deallocate p n ar) (remove1 (p, n) L)"
| stored: "nodes_within new N c start ar L \<Longrightarrow> r \<in> set L \<Longrightarrow> a \<in> bytes_of r \<Longrightarrow>
    nodes_within new N c start (arena_store a v ar) L"

lemma nodes_within_class: "nodes_within new N c start ar L \<Longrightarrow> (p, n) \<in> set L \<Longrightarrow> arena_size_class n = c"
  by (induction arbitrary: p n rule: nodes_within.induct) (auto dest: in_set_remove1 [THEN iffD1] notin_set_remove1)

text \<open>Blocks are carved off the slab one after another; those not live are in the free list of the class.\<close>

definition carved :: "arena \<Rightarrow> nat \<Rightarrow> nat \<Rightarrow> arena \<Rightarrow> region list \<Rightarrow> bool" where
  "carved start N c ar L \<longleftrightarrow> (\<exists>fs. chain 0 (cells ar) (free_heads ar ! c) fs \<and> length L + length fs \<le> N \<and>
     cursor ar = cursor start + (length L + length fs) * (c * kGranule)) \<and>
     slab_end ar = slab_end start \<and> sys_calls ar = sys_calls start \<and> slab_total ar = slab_total start \<and> length L \<le> N"

lemma carvedI:
  assumes "chain 0 (cells ar) (free_heads ar ! c) fs" and "length L + length fs \<le> N"
    and "cursor ar = cursor start + (length L + length fs) * (c * kGranule)"
    and "slab_end ar = slab_end start" "sys_calls ar = sys_calls start" "slab_total ar = slab_total start"
  shows "carved start N c ar L"
  unfolding carved_def using assms by (intro conjI exI [of _ fs]) simp_all

lemma carved_allocate:
  assumes wf: "arena_wf E ar L F S" and ca: "carved start N c ar L" and c: "1 \<le> c" "c \<le> 16" and len: "length L < N" and n: "arena_size_class n = c"
    and room: "cursor start + N * (c * kGranule) \<le> slab_end start"
  shows "\<exists>p ar'. arena_allocate new n ar = Some (p, ar') \<and> carved start N c ar' ((p, n) # L)"
proof -
  have small: "\<not> kMaxBlock < n" using size_class_bounds(1) [of n] c n by simp
  have heads: "length (free_heads ar) = 17" using arena_wfD(1) [OF wf] by (simp add: chains_ok_def)
  obtain fs where fs: "chain 0 (cells ar) (free_heads ar ! c) fs" "length L + length fs \<le> N"
      "cursor ar = cursor start + (length L + length fs) * (c * kGranule)"
    using ca by (auto simp: carved_def)
  show ?thesis
  proof (cases "free_heads ar ! c = 0")
    case True
    then have "fs = []" using fs(1) by (cases fs) auto
    then have cur: "cursor ar = cursor start + length L * (c * kGranule)" using fs(3) by simp
    have "Suc (length L) * (c * kGranule) \<le> N * (c * kGranule)" using len by (intro mult_le_mono1) simp
    then have "\<not> slab_end ar - cursor ar < c * kGranule" using room ca unfolding cur carved_def by simp
    then have "arena_allocate new n ar = Some (cursor ar, ar\<lparr>cursor := cursor ar + c * kGranule\<rparr>)"
      using small True n by (simp add: arena_allocate_def carve_def Let_def)
    moreover have "carved start N c (ar\<lparr>cursor := cursor ar + c * kGranule\<rparr>) ((cursor ar, n) # L)"
      by (rule carvedI [where fs = "[]"]) (use ca cur len True in \<open>simp_all add: carved_def\<close>)
    ultimately show ?thesis by blast
  next
    case False
    then obtain ps where ps: "fs = free_heads ar ! c # ps" "chain 0 (cells ar) (cells ar (free_heads ar ! c)) ps"
      using chain_head [OF fs(1)] by blast
    let ?ar = "ar\<lparr>free_heads := (free_heads ar)[c := cells ar (free_heads ar ! c)]\<rparr>"
    have "arena_allocate new n ar = Some (free_heads ar ! c, ?ar)"
      using small False n by (simp add: arena_allocate_def Let_def)
    moreover have "carved start N c ?ar ((free_heads ar ! c, n) # L)"
      by (rule carvedI [where fs = ps]) (use ca fs(2,3) ps heads c in \<open>simp_all add: carved_def\<close>)
    ultimately show ?thesis by blast
  qed
qed

lemma carved_deallocate:
  assumes wf: "arena_wf E ar L F S" and ca: "carved start N c ar L" and c: "1 \<le> c" "c \<le> 16"
    and p: "(p, n) \<in> set L" and n: "arena_size_class n = c"
  shows "carved start N c (arena_deallocate p n ar) (remove1 (p, n) L)"
proof -
  have small: "\<not> kMaxBlock < n" using size_class_bounds(1) [of n] c n by simp
  have heads: "length (free_heads ar) = 17" using arena_wfD(1) [OF wf] by (simp add: chains_ok_def)
  obtain fs where fs: "chain 0 (cells ar) (free_heads ar ! c) fs" "length L + length fs \<le> N"
      "cursor ar = cursor start + (length L + length fs) * (c * kGranule)"
    using ca by (auto simp: carved_def)
  have "chain 0 (cells ar) (free_heads ar ! c) (F c)" using arena_wfD(1) [OF wf] c by (auto simp: chains_ok_def)
  then have F: "F c = fs" by (rule chain_unique) (rule fs(1))
  have "p \<in> bytes_of (live_region (p, n))" using c n by (simp add: bytes_of_def live_region_def class_region_def kGranule_def)
  then have "p \<notin> control_cells F S" using live_small(3) [OF wf p] small by (simp add: small_def disjoint_iff)
  moreover have "c \<in> {1..16}" using c by simp
  then have "set (F c) \<subseteq> control_cells F S" using control_cellsI(1) by blast
  ultimately have "p \<notin> set fs" using F by blast
  then have "chain 0 ((cells ar)(p := free_heads ar ! c)) (free_heads ar ! c) fs"
    by (intro chain_cong [OF fs(1)]) auto
  moreover have "p \<noteq> 0" using live_aligned [OF wf p] by simp
  moreover have l: "length (remove1 (p, n) L) + length (p # fs) = length L + length fs"
    using p length_pos_if_in_set [OF p] by (simp add: length_remove1)
  moreover have "arena_deallocate p n ar = ar\<lparr>cells := (cells ar)(p := free_heads ar ! c), free_heads := (free_heads ar)[c := p]\<rparr>"
    using small n by (simp add: arena_deallocate_def Let_def)
  ultimately show ?thesis
    by (intro carvedI [where fs = "p # fs"]) (use ca fs(2,3) heads c in \<open>simp_all only: l carved_def, simp_all\<close>)
qed

lemma nodes_within_carved:
  assumes new: "op_new_ok new" and wf: "arena_inv new E start []" and c: "1 \<le> c" "c \<le> 16"
    and heads: "free_heads start ! c = 0" and room: "cursor start + N * (c * kGranule) \<le> slab_end start"
    and run: "nodes_within new N c start ar L"
  shows "arena_inv new E ar L \<and> carved start N c ar L"
  using run
proof (induction rule: nodes_within.induct)
  case none
  show ?case using wf heads by (auto intro: carvedI [where fs = "[]"])
next
  case (another ar L n p ar')
  obtain F S where aw: "arena_wf E ar L F S" using another.IH by (auto simp: arena_inv_def)
  obtain q ar2 where q: "arena_allocate new n ar = Some (q, ar2)" "carved start N c ar2 ((q, n) # L)"
    using carved_allocate [OF aw _ c another(2,3) room] another.IH by blast
  then show ?case using another(4) arena.alloc_law another.IH by auto
next
  case (dropped ar L p n)
  obtain F S where aw: "arena_wf E ar L F S" using dropped.IH by (auto simp: arena_inv_def)
  have "arena_size_class n = c" using nodes_within_class [OF dropped(1,2)] .
  then show ?case using carved_deallocate [OF aw _ c dropped(2)] arena.dealloc_law dropped.IH dropped(2) by blast
next
  case (stored ar L r a v)
  obtain F S where aw: "arena_wf E ar L F S" using stored.IH by (auto simp: arena_inv_def)
  obtain fs where fs: "chain 0 (cells ar) (free_heads ar ! c) fs" "length L + length fs \<le> N"
      "cursor ar = cursor start + (length L + length fs) * (c * kGranule)"
    using stored.IH by (auto simp: carved_def)
  have cc: "c \<in> {1..16}" using c by simp
  have "chain 0 (cells ar) (free_heads ar ! c) (F c)" using arena_wfD(1) [OF aw] cc by (simp add: chains_ok_def)
  then have F: "F c = fs" by (rule chain_unique) (rule fs(1))
  have "a \<notin> set fs" using live_not_control [OF aw stored(2)] stored(3) control_cellsI(1) [OF cc, of a F S] F by blast
  then have "chain 0 (cells (arena_store a v ar)) (free_heads ar ! c) fs"
    by (intro chain_cong [OF fs(1)]) (auto simp: arena_store_def)
  then have "carved start N c (arena_store a v ar) L"
    by (intro carvedI [where fs = fs]) (use stored.IH fs(2,3) in \<open>simp_all add: carved_def arena_store_def\<close>)
  then show ?case using arena.store_law stored by blast
qed

text \<open>The first slab of an arena that \<^verbatim>\<open>make_arena\<close> sizes.\<close>

lemma make_arena_room:
  assumes m: "make_arena asan new cfg E m = Some (True, start)" and n: "0 < expected_orders cfg" "expected_orders cfg \<le> 2 ^ 57"
  shows "free_heads start ! c = 0 \<or> 16 < c" "cursor start + unat (expected_orders cfg) * kBytesPerOrder \<le> slab_end start"
    "sys_calls start = 1" "arena_new new (expected_orders cfg * of_nat kBytesPerOrder) E m = Some start"
proof -
  let ?r = "expected_orders cfg * of_nat kBytesPerOrder"
  have k: "kBytesPerOrder = 64" by (simp add: kBytesPerOrder_def kGranule_def)
  show new: "arena_new new ?r E m = Some start" using m by (auto simp: make_arena_def split: if_splits)
  have small: "unat (expected_orders cfg) \<le> 2 ^ 57" using n(2) by (simp add: word_le_nat_alt)
  then have "unat (expected_orders cfg) * 64 + 16 < 2 ^ 64" by simp
  then have sum: "unat (?r + of_nat kGranule) = unat (expected_orders cfg) * 64 + 16"
    unfolding k by (simp add: unat_word_ariths kGranule_def)
  have "unat ?r = unat (expected_orders cfg) * 64" unfolding k using small by (simp add: unat_word_ariths)
  moreover have "0 < unat (expected_orders cfg)" using n(1) by (simp add: unat_gt_0 word_gt_0)
  ultimately have "?r > 0" by (simp add: word_gt_0 unat_gt_0 [symmetric])
  then have "add_slab new (max (unat (expected_orders cfg) * 64 + 16) kSlabBytes)
      \<lparr>free_heads = replicate (kMaxBlock div kGranule + 1) 0, cursor = 0, slab_end = 0, newest = 0, slab_total = 0,
       cells = m, sys_blocks = E, sys_calls = 0\<rparr> = Some start"
    using new unfolding arena_new_def Let_def sum by simp
  then obtain slab where start: "cursor start = slab + kGranule" "slab_end start = slab + max (unat (expected_orders cfg) * 64 + 16) kSlabBytes"
      "sys_calls start = 1" "free_heads start = replicate (kMaxBlock div kGranule + 1) 0"
    by (auto simp: add_slab_def sys_new_def bind_eq_Some_conv)
  show "sys_calls start = 1" using start(3) .
  show "free_heads start ! c = 0 \<or> 16 < c" unfolding start(4) by (cases "c \<le> 16") (simp_all add: kMaxBlock_def kGranule_def del: replicate.simps)
  show "cursor start + unat (expected_orders cfg) * kBytesPerOrder \<le> slab_end start"
    unfolding start(1,2) k by (simp add: kGranule_def)
qed

text \<open>
  (C39) An arena that \<^verbatim>\<open>make_arena\<close> sized for \<^verbatim>\<open>expected_orders\<close> never asks the system again while it holds at most that many
  nodes of the map: whatever nodes of one size of at most \<^verbatim>\<open>kBytesPerOrder\<close> bytes are allocated, released and written, and whatever
  \<^verbatim>\<open>operator new\<close> would answer, the slab of the constructor stays the only one, and the next allocation below the limit
  succeeds.
\<close>

theorem provisioned_arena:
  assumes "op_new_ok new" and "apart (mset E)" and "make_arena asan new cfg E m = Some (True, start)"
    and "0 < expected_orders cfg" and "expected_orders cfg \<le> 2 ^ 57" and "1 \<le> c" and "c * kGranule \<le> kBytesPerOrder"
    and "nodes_within new (unat (expected_orders cfg)) c start ar L"
  shows "sys_calls ar = 1 \<and> slab_total ar = slab_total start \<and> length L \<le> unat (expected_orders cfg) \<and>
    (length L < unat (expected_orders cfg) \<longrightarrow>
       (\<forall>n. arena_size_class n = c \<longrightarrow> (\<exists>p ar'. arena_allocate new n ar = Some (p, ar') \<and> sys_calls ar' = 1)))"
proof -
  note st = make_arena_room [OF assms(3-5)]
  have c: "c \<le> 16" using assms(7) by (simp add: kBytesPerOrder_def kGranule_def)
  have "unat (expected_orders cfg) * (c * kGranule) \<le> unat (expected_orders cfg) * kBytesPerOrder"
    by (rule mult_le_mono2) (rule assms(7))
  then have room: "cursor start + unat (expected_orders cfg) * (c * kGranule) \<le> slab_end start"
    using st(2) by linarith
  have inv: "arena_inv new E start []" using arena_new_inv [OF assms(1,2) st(4)] .
  have run: "arena_inv new E ar L \<and> carved start (unat (expected_orders cfg)) c ar L"
    using nodes_within_carved [OF assms(1) inv assms(6) c _ room assms(8)] st(1) c by (metis not_le)
  then obtain F S where wf: "arena_wf E ar L F S" by (auto simp: arena_inv_def)
  have "\<exists>p ar'. arena_allocate new n ar = Some (p, ar') \<and> sys_calls ar' = 1"
    if len: "length L < unat (expected_orders cfg)" and cls: "arena_size_class n = c" for n
  proof -
    obtain p ar' where "arena_allocate new n ar = Some (p, ar')" "carved start (unat (expected_orders cfg)) c ar' ((p, n) # L)"
      using carved_allocate [OF wf _ assms(6) c len cls room] run by blast
    then show ?thesis using st(3) by (auto simp: carved_def)
  qed
  moreover have "sys_calls ar = 1 \<and> slab_total ar = slab_total start \<and> length L \<le> unat (expected_orders cfg)"
    using run st(3) by (simp add: carved_def)
  ultimately show ?thesis by blast
qed

text \<open>An \<^verbatim>\<open>operator new\<close> that only answers once.\<close>

definition once_new :: op_new where
  "once_new k L n = (if k = 0 then bump_new k L n else None)"

lemma once_new_ok: "op_new_ok once_new"
proof -
  have "bump_new k L n = Some a \<Longrightarrow> 0 < a \<and> kGranule dvd a \<and> (\<forall>r\<in>set L. bytes_of (a, n) \<inter> bytes_of r = {})" for k L n a
    using bump_new_ok unfolding op_new_ok_def by blast
  then show ?thesis unfolding op_new_ok_def once_new_def by (metis option.distinct(1))
qed

theorem provisioned_arena_witness:
  "\<exists>start. make_arena False once_new (default_config\<lparr>expected_orders := 2\<rparr>) [] (\<lambda>_. 0) = Some (True, start) \<and>
     (\<exists>p ar. arena_allocate once_new 56 start = Some (p, ar) \<and> sys_calls ar = 1)"
proof -
  let ?cfg = "default_config\<lparr>expected_orders := 2\<rparr>"
  obtain start where s: "make_arena False once_new ?cfg [] (\<lambda>_. 0) = Some (True, start)"
    by (auto simp: make_arena_def default_config_def arena_new_def add_slab_def sys_new_def once_new_def bump_new_def
        kBytesPerOrder_def kGranule_def)
  have c: "c * kGranule \<le> kBytesPerOrder" "1 \<le> c" "arena_size_class 56 = c" if "c = 4" for c
    using that by (simp_all add: kBytesPerOrder_def kGranule_def arena_size_class_def)
  have e: "expected_orders ?cfg = 2" "unat (2 :: 64 word) = 2" "(0 :: 64 word) < 2" "(2 :: 64 word) \<le> 2 ^ 57" by simp_all
  have "nodes_within once_new 2 4 start start []" by (rule none)
  then have "\<forall>n. arena_size_class n = 4 \<longrightarrow> (\<exists>p ar. arena_allocate once_new n start = Some (p, ar) \<and> sys_calls ar = 1)"
    using provisioned_arena [OF once_new_ok _ s, unfolded e(1), of 4 start "[]"] c(1,2) [OF refl] e by simp
  then show ?thesis using s c(3) [OF refl] by blast
qed

end
