(* ===== verification/Huge_Pages.thy ===== *)
theory Huge_Pages
  imports Lob_Prelude
begin

section \<open>The allocator for huge pages (\<^verbatim>\<open>huge_pages.hpp\<close>)\<close>

text \<open>
  The address arithmetic of \<^verbatim>\<open>HugePageAllocator\<close> on Linux, in 64-bit words as in the code. \<^verbatim>\<open>mmap\<close> is a parameter, the address
  for a length or \<open>None\<close> for \<^verbatim>\<open>MAP_FAILED\<close>; the calls of \<^verbatim>\<open>munmap\<close> are returned as the list of their arguments. \<^verbatim>\<open>madvise\<close> is advice
  and changes nothing here; small blocks come from \<^verbatim>\<open>operator new\<close>, another parameter.
\<close>

subsection \<open>Model\<close>

definition kHugePage :: "64 word" where
  "kHugePage = push_bit 20 2"

definition round_up :: "64 word \<Rightarrow> 64 word" where
  "round_up bytes = (bytes + kHugePage - 1) div kHugePage * kHugePage"

definition map_huge :: "(64 word \<Rightarrow> 64 word option) \<Rightarrow> 64 word \<Rightarrow> (64 word \<times> (64 word \<times> 64 word) list) option" where
  "map_huge mmap length_mapped =
     (case mmap (length_mapped + kHugePage) of
        None \<Rightarrow> None
      | Some base \<Rightarrow>
          let start = (base + kHugePage - 1) div kHugePage * kHugePage;
              stop = base + length_mapped + kHugePage
          in Some (start, (if start > base then [(base, start - base)] else []) @
               (if stop > start + length_mapped then [(start + length_mapped, stop - (start + length_mapped))] else [])))"

definition unmap_huge :: "64 word \<Rightarrow> 64 word \<Rightarrow> 64 word \<times> 64 word" where
  "unmap_huge p length_mapped = (p, length_mapped)"

text \<open>\<^verbatim>\<open>allocate(n)\<close> for elements of \<open>elem\<close> bytes, and the calls that \<^verbatim>\<open>deallocate\<close> makes: the unmapped range, or none.\<close>

definition huge_allocate :: "(64 word \<Rightarrow> 64 word option) \<Rightarrow> (64 word \<Rightarrow> 64 word option) \<Rightarrow> 64 word \<Rightarrow> 64 word \<Rightarrow>
    (64 word \<times> (64 word \<times> 64 word) list) option" where
  "huge_allocate mmap new elem n =
     (let bytes = n * elem in
      if bytes \<ge> kHugePage then map_huge mmap (round_up bytes) else map_option (\<lambda>p. (p, [])) (new bytes))"

definition huge_deallocate :: "64 word \<Rightarrow> 64 word \<Rightarrow> 64 word \<Rightarrow> (64 word \<times> 64 word) list" where
  "huge_deallocate elem p n =
     (let bytes = n * elem in if bytes \<ge> kHugePage then [unmap_huge p (round_up bytes)] else [])"

subsection \<open>Rounding\<close>

lemma kHugePage_unat: "unat kHugePage = 2097152" "kHugePage = 2097152"
  by (simp_all add: kHugePage_def push_bit_eq_mult)

lemma unat_round:
  assumes "unat x + 2097151 < 2 ^ 64"
  shows "unat ((x + kHugePage - 1) div kHugePage * kHugePage) = (unat x + 2097151) div 2097152 * 2097152"
proof -
  have "x + kHugePage - 1 = x + 2097151" by (simp add: kHugePage_unat)
  moreover have u: "unat (x + 2097151) = unat x + 2097151" using assms by (simp add: unat_word_ariths)
  moreover have "(unat x + 2097151) div 2097152 * 2097152 < 2 ^ 64" using assms by linarith
  ultimately show ?thesis by (simp add: unat_word_ariths unat_div kHugePage_unat)
qed

lemma round_up_bounds: "n \<le> (n + 2097151) div 2097152 * 2097152" "(n + 2097151) div 2097152 * 2097152 < n + 2097152"
  for n :: nat
  by linarith+

definition range_of :: "64 word \<times> 64 word \<Rightarrow> nat set" where
  "range_of r = {unat (fst r) ..< unat (fst r) + unat (snd r)}"

lemma pieces: "b \<le> p \<Longrightarrow> p < b + h \<Longrightarrow> {p ..< p + s} \<union> ({b ..< p} \<union> {p + s ..< b + s + h}) = {b ..< b + s + h}" for b p h s :: nat
  by auto

text \<open>
  (C40) For every request of at least one huge page, if \<^verbatim>\<open>mmap\<close> returns a range inside the address space: the block starts on a
  2 MiB boundary, is a whole number of huge pages and large enough; it and the slack that is unmapped again are
  disjoint and together are exactly the mapped range, so nothing stays mapped but the block; and \<^verbatim>\<open>deallocate\<close> with the same
  count unmaps exactly the block.
\<close>

theorem huge_block_exact:
  assumes "kHugePage \<le> n * elem" and "unat (n * elem) + 2 * unat kHugePage \<le> 2 ^ 64"
    and "mmap (round_up (n * elem) + kHugePage) = Some base"
    and "unat base + unat (round_up (n * elem)) + unat kHugePage < 2 ^ 64"
  shows "\<exists>p cuts. huge_allocate mmap new elem n = Some (p, cuts) \<and> unat kHugePage dvd unat p \<and>
    unat kHugePage dvd unat (round_up (n * elem)) \<and> unat (n * elem) \<le> unat (round_up (n * elem)) \<and>
    range_of (p, round_up (n * elem)) \<union> (\<Union>c\<in>set cuts. range_of c) = range_of (base, round_up (n * elem) + kHugePage) \<and>
    list_all (\<lambda>c. range_of c \<inter> range_of (p, round_up (n * elem)) = {}) cuts \<and>
    huge_deallocate elem p n = [(p, round_up (n * elem))]"
proof -
  let ?b = "n * elem" and ?s = "round_up (n * elem)"
  let ?p = "(base + kHugePage - 1) div kHugePage * kHugePage"
  have sz: "unat ?s = (unat ?b + 2097151) div 2097152 * 2097152"
    unfolding round_up_def by (rule unat_round) (use assms(2) in \<open>simp add: kHugePage_unat\<close>)
  have big: "2097152 \<le> unat ?b" using assms(1) by (simp add: word_le_nat_alt kHugePage_unat)
  have sb: "unat ?b \<le> unat ?s" using round_up_bounds(1) [of "unat ?b"] unfolding sz .
  have p: "unat ?p = (unat base + 2097151) div 2097152 * 2097152"
    by (rule unat_round) (use assms(4) sb big in \<open>simp add: kHugePage_unat\<close>)
  have pb: "unat base \<le> unat ?p" "unat ?p < unat base + 2097152" using round_up_bounds [of "unat base"] unfolding p by simp_all
  have fit: "unat base + unat ?s + 2097152 < 2 ^ 64" using assms(4) by (simp add: kHugePage_unat)
  have sh: "unat (?s + kHugePage) = unat ?s + 2097152" using fit by (simp add: unat_word_ariths kHugePage_unat)
  have stop: "unat (base + ?s + kHugePage) = unat base + unat ?s + 2097152" using fit by (simp add: unat_word_ariths kHugePage_unat)
  have ps: "unat (?p + ?s) = unat ?p + unat ?s" using pb fit by (simp add: unat_word_ariths)
  have front: "?p > base \<longleftrightarrow> unat base < unat ?p" "unat (?p - base) = unat ?p - unat base"
    using pb by (simp_all add: word_less_nat_alt unat_sub word_le_nat_alt)
  have "?p + ?s \<le> base + ?s + kHugePage" using pb by (simp only: word_le_nat_alt ps stop)
  then have tail: "base + ?s + kHugePage > ?p + ?s" "unat (base + ?s + kHugePage - (?p + ?s)) = unat base + 2097152 - unat ?p"
    using pb by (simp_all only: word_less_nat_alt unat_sub ps stop)
  define p where "p = ?p"
  define rest where "rest = base + ?s + kHugePage - (p + ?s)"
  define cuts where "cuts = (if p > base then [(base, p - base)] else []) @ [(p + ?s, rest)]"
  note facts = pb front ps tail [folded p_def, folded rest_def]
  have al: "huge_allocate mmap new elem n = Some (p, cuts)"
    using assms(1,3) tail(1) unfolding huge_allocate_def map_huge_def Let_def cuts_def rest_def p_def by simp
  have r: "range_of (p, ?s) = {unat p ..< unat p + unat ?s}" "range_of (base, ?s + kHugePage) = {unat base ..< unat base + unat ?s + 2097152}"
      "range_of (p + ?s, rest) = {unat p + unat ?s ..< unat base + unat ?s + 2097152}" "range_of (base, p - base) = {unat base ..< unat p}"
    using facts sh by (simp_all add: range_of_def p_def ac_simps)
  have "unat kHugePage dvd unat p" "unat kHugePage dvd unat ?s" unfolding p_def p sz kHugePage_unat(1) by simp_all
  moreover have "(\<Union>c\<in>set cuts. range_of c) = {unat base ..< unat p} \<union> {unat p + unat ?s ..< unat base + unat ?s + 2097152}"
  proof (cases "p > base")
    case True
    then have "cuts = [(base, p - base), (p + ?s, rest)]" by (simp add: cuts_def)
    then show ?thesis using r(3,4) by simp
  next
    case False
    then have "cuts = [(p + ?s, rest)]" "unat p \<le> unat base" using front(1) by (simp_all add: cuts_def p_def)
    then show ?thesis using r(3) by simp
  qed
  then have "range_of (p, ?s) \<union> (\<Union>c\<in>set cuts. range_of c) = range_of (base, ?s + kHugePage)"
    using pieces [of "unat base" "unat p" 2097152 "unat ?s"] pb unfolding r(1,2) p_def [symmetric] by simp
  moreover have "list_all (\<lambda>c. range_of c \<inter> range_of (p, ?s) = {}) cuts"
  proof -
    have "range_of (base, p - base) \<inter> range_of (p, ?s) = {}" "range_of (p + ?s, rest) \<inter> range_of (p, ?s) = {}"
      unfolding r by auto
    then show ?thesis by (simp add: cuts_def)
  qed
  moreover have "huge_deallocate elem p n = [(p, ?s)]" using assms(1) by (simp add: huge_deallocate_def unmap_huge_def)
  ultimately show ?thesis using al sb by blast
qed

text \<open>A request of 3 MiB at an address 4 KiB behind a boundary.\<close>

theorem huge_block_exact_witness:
  "huge_allocate (\<lambda>_. Some 0x7F0000001000) (\<lambda>_. None) 1 0x300000 =
     Some (0x7F0000200000, [(0x7F0000001000, 0x1FF000), (0x7F0000600000, 0x1000)]) \<and>
   huge_deallocate 1 0x7F0000200000 0x300000 = [(0x7F0000200000, 0x400000)]"
proof -
  have ru: "round_up (0x300000 * 1) = 0x400000" by (simp add: round_up_def kHugePage_unat)
  have "huge_allocate (\<lambda>_. Some 0x7F0000001000) (\<lambda>_. None) 1 0x300000 =
     Some (0x7F0000200000, [(0x7F0000001000, 0x1FF000), (0x7F0000600000, 0x1000)])"
    using ru by (simp add: huge_allocate_def map_huge_def Let_def kHugePage_unat)
  moreover have "\<exists>p cuts. huge_allocate (\<lambda>_. Some 0x7F0000001000) (\<lambda>_. None) 1 0x300000 = Some (p, cuts) \<and>
      huge_deallocate 1 p 0x300000 = [(p, 0x400000)]"
    using huge_block_exact [where n = "0x300000" and elem = 1 and mmap = "\<lambda>_. Some 0x7F0000001000" and base = "0x7F0000001000" and new = "\<lambda>_. None"] ru by (auto simp: kHugePage_unat)
  ultimately show ?thesis by auto
qed

end
