(* ===== verification/Diff_Generator.thy ===== *)
theory Diff_Generator
  imports Differential Text_Numbers "HOL-Library.Monad_Syntax"
begin

section \<open>The random sequences of the differential tests (\<^verbatim>\<open>tests/diff_harness.hpp\<close>)\<close>

text \<open>
  The class \<^verbatim>\<open>difftest::Rng\<close>, whose draws are 32 bits wide, and the class \<^verbatim>\<open>difftest::Generator\<close> with its members in a
  record that every draw takes and returns. \<^verbatim>\<open>pick_known\<close> computes an index in 64 bits and reads \<^verbatim>\<open>issued\<close> there; a read
  out of range is \<open>None\<close>. What \<^verbatim>\<open>generate()\<close> promises is a typing of its sequence: \<open>op_fits\<close> for the fields of an
  operation, \<open>ids_fit\<close> for its id, given how many ids have been issued before it.
\<close>

subsection \<open>Model: random numbers\<close>

definition xs_new :: "64 word \<Rightarrow> 64 word" where
  "xs_new seed = (if seed \<noteq> 0 then seed else 0x9E3779B97F4A7C15)"

definition xs_next :: "64 word \<Rightarrow> 64 word \<times> 64 word" where
  "xs_next s =
     (let s1 = s XOR drop_bit 12 s;
          s2 = s1 XOR push_bit 25 s1;
          s3 = s2 XOR drop_bit 27 s2
      in (s3 * 0x2545F4914F6CDD1D, s3))"

definition xs_below :: "32 word \<Rightarrow> 64 word \<Rightarrow> 32 word \<times> 64 word" where
  "xs_below n s = (if n = 0 then (0, s) else case xs_next s of (r, s') \<Rightarrow> (ucast (r mod ucast n), s'))"

definition xs_chance :: "32 word \<Rightarrow> 64 word \<Rightarrow> bool \<times> 64 word" where
  "xs_chance percent s = (case xs_below 100 s of (r, s') \<Rightarrow> (r < percent, s'))"

subsection \<open>Model: the generator\<close>

record gen_config =
  gc_mid :: price
  gc_half_band :: price
  gc_max_qty :: quantity
  gc_owners :: participant_id
  gc_anonymous_percent :: "32 word"
  gc_recent_window :: "32 word"
  gc_length :: nat

definition default_gen :: gen_config where
  "default_gen = \<lparr>gc_mid = 1000, gc_half_band = 3, gc_max_qty = 6, gc_owners = 3, gc_anonymous_percent = 25,
     gc_recent_window = 6, gc_length = 40\<rparr>"

record op_generator =
  og_rng :: "64 word"
  og_cfg :: gen_config
  og_next_id :: order_id
  og_issued :: "order_id list"

definition op_generator_new :: "64 word \<Rightarrow> gen_config \<Rightarrow> op_generator" where
  "op_generator_new seed c = \<lparr>og_rng = xs_new seed, og_cfg = c, og_next_id = 1, og_issued = []\<rparr>"

text \<open>A call on the member \<^verbatim>\<open>rng\<close>.\<close>

definition on_rng :: "(64 word \<Rightarrow> 'a \<times> 64 word) \<Rightarrow> op_generator \<Rightarrow> 'a \<times> op_generator" where
  "on_rng f g = (case f (og_rng g) of (a, s) \<Rightarrow> (a, g\<lparr>og_rng := s\<rparr>))"

definition pick_known :: "op_generator \<Rightarrow> (order_id \<times> op_generator) option" where
  "pick_known g =
     (let issued = og_issued g; count = of_nat (length issued) :: 64 word in
      if issued = [] then Some (1, g)
      else
        (let recent = min (gc_recent_window (og_cfg g)) (ucast count);
             (pick_recent, g1) = on_rng (xs_chance 75) g;
             (idx, g2) =
               (if pick_recent
                then (case on_rng (xs_below recent) g1 of (r, g2) \<Rightarrow> (count - 1 - ucast r, g2))
                else (case on_rng (xs_below (ucast count)) g1 of (r, g2) \<Rightarrow> (ucast r, g2)))
         in if unat idx < length issued then Some (issued ! unat idx, g2) else None))"

definition pick_price :: "op_generator \<Rightarrow> price \<times> op_generator" where
  "pick_price g =
     (let cfg = og_cfg g; span = gc_half_band cfg * 2 + 1 in
      case on_rng (xs_below (ucast span)) g of (r, g1) \<Rightarrow> (gc_mid cfg - gc_half_band cfg + ucast r, g1))"

definition pick_owner :: "op_generator \<Rightarrow> participant_id \<times> op_generator" where
  "pick_owner g =
     (case on_rng (xs_chance (gc_anonymous_percent (og_cfg g))) g of (anonymous, g1) \<Rightarrow>
        if anonymous then (kAnonymous, g1)
        else (case on_rng (xs_below (gc_owners (og_cfg g))) g1 of (r, g2) \<Rightarrow> (1 + r, g2)))"

text \<open>The two arms of the switch of \<^verbatim>\<open>make_op\<close>: a new id, which is sometimes thrown away for one that was used; and the
  target of a cancel or modify, which is sometimes an id that was never issued.\<close>

definition issue_id :: "op_generator \<Rightarrow> (order_id \<times> op_generator) option" where
  "issue_id g =
     (let k = og_next_id g; g1 = g\<lparr>og_next_id := k + 1, og_issued := og_issued g @ [k]\<rparr> in
      if og_issued g1 \<noteq> []
      then (case on_rng (xs_chance 4) g1 of (again, g2) \<Rightarrow> if again then pick_known g2 else Some (k, g2))
      else Some (k, g1))"

definition target_id :: "op_generator \<Rightarrow> (order_id \<times> op_generator) option" where
  "target_id g =
     do {
       (k, g1) \<leftarrow> pick_known g;
       let (unknown, g2) = on_rng (xs_chance 5) g1;
       Some (if unknown then og_next_id g2 + 1000 else k, g2)
     }"

definition roll_kind :: "32 word \<Rightarrow> op_kind" where
  "roll_kind roll = (if roll < 55 then AddLimit else if roll < 68 then AddMarket else if roll < 86 then Cancel else Modify)"

definition make_op :: "op_generator \<Rightarrow> (op \<times> op_generator) option" where
  "make_op g =
     (let (roll, g1) = on_rng (xs_below 100) g;
          what = roll_kind roll;
          (owner, g2) = pick_owner g1;
          (buy, g3) = on_rng (xs_chance 50) g2;
          (p, g4) = pick_price g3;
          (r, g5) = on_rng (xs_below (gc_max_qty (og_cfg g4))) g4
      in map_option
           (\<lambda>(k, g6). (\<lparr>op_what = what, op_id = k, op_owner = owner, op_side = (if buy then Buy else Sell),
              op_price = p, op_qty = 1 + r\<rparr>, g6))
           (case what of AddLimit \<Rightarrow> issue_id g5 | AddMarket \<Rightarrow> issue_id g5 | Cancel \<Rightarrow> target_id g5 | Modify \<Rightarrow> target_id g5))"

fun make_ops :: "nat \<Rightarrow> op_generator \<Rightarrow> op list option" where
  "make_ops 0 g = Some []"
| "make_ops (Suc n) g = do { (x, g1) \<leftarrow> make_op g; xs \<leftarrow> make_ops n g1; Some (x # xs) }"

definition generate_sequence :: "64 word \<Rightarrow> gen_config \<Rightarrow> op list option" where
  "generate_sequence seed cfg = make_ops (gc_length cfg) (op_generator_new seed cfg)"

subsection \<open>Draws\<close>

text \<open>A draw changes nothing but the state of the random numbers.\<close>

lemma on_rng_keeps:
  assumes "on_rng f g = (a, g')"
  shows "og_cfg g' = og_cfg g" "og_next_id g' = og_next_id g" "og_issued g' = og_issued g" "a = fst (f (og_rng g))"
  using assms by (auto simp: on_rng_def split: prod.splits)

lemma xs_below_less: "n \<noteq> 0 \<Longrightarrow> fst (xs_below n s) < n"
proof -
  assume n: "n \<noteq> 0"
  have "unat (ucast (r mod ucast n) :: 32 word) < unat n" for r :: "64 word"
  proof -
    have "unat (r mod ucast n) = unat r mod unat n" by (simp add: unat_mod)
    also have "\<dots> < unat n" using n by (simp add: unat_gt_0)
    finally have less: "unat (r mod ucast n) < unat n" .
    then have "unat (r mod ucast n) < 2 ^ 32" using unat_lt32 [of n] by (rule less_trans)
    then have "unat (ucast (r mod ucast n) :: 32 word) = unat (r mod ucast n)"
      by (simp add: unsigned_ucast_eq take_bit_nat_eq_self_iff)
    then show ?thesis using less by simp
  qed
  then show ?thesis using n by (auto simp: xs_below_def word_less_nat_alt split: prod.splits)
qed

lemma xs_below_le: "unat (fst (xs_below n s)) \<le> unat n - 1"
proof (cases "n = 0")
  case True
  then show ?thesis by (simp add: xs_below_def)
next
  case False
  then show ?thesis using xs_below_less [OF False, of s] by (simp add: word_less_nat_alt)
qed

subsection \<open>Every index read is in range\<close>

text \<open>After \<open>n\<close> ids have been issued they are \<open>1\<close> to \<open>n\<close>.\<close>

definition gen_ok :: "nat \<Rightarrow> op_generator \<Rightarrow> bool" where
  "gen_ok n g \<longleftrightarrow> og_issued g = map of_nat [1..<Suc n] \<and> og_next_id g = of_nat (Suc n)"

lemma gen_ok_draw: "on_rng f g = (a, g') \<Longrightarrow> gen_ok n g' \<longleftrightarrow> gen_ok n g"
  unfolding gen_ok_def by (simp only: on_rng_keeps(2,3) [of f g a g'])

text \<open>The index that \<^verbatim>\<open>pick_known\<close> computes for \<open>n\<close> ids.\<close>

lemma recent_index:
  assumes n: "0 < n" "n < 2 ^ 64"
  shows "unat (of_nat n - 1 - ucast (fst (xs_below (min wnd (ucast (of_nat n :: 64 word))) s)) :: 64 word) < n"
    "unat (ucast (fst (xs_below (ucast (of_nat n :: 64 word)) s)) :: 64 word) < n"
proof -
  have count: "unat (of_nat n :: 64 word) = n" using n(2) by (simp add: unat_of_nat)
  have low: "unat (ucast (of_nat n :: 64 word) :: 32 word) \<le> n"
    using count by (simp add: unsigned_ucast_eq take_bit_eq_mod)
  have min: "unat (min wnd (ucast (of_nat n :: 64 word)) :: 32 word) \<le> n"
    using low by (auto simp: min_def word_le_nat_alt)
  define r where "r = fst (xs_below (min wnd (ucast (of_nat n :: 64 word))) s)"
  have r: "unat r \<le> n - 1" using xs_below_le [of "min wnd (ucast (of_nat n :: 64 word))" s] min by (simp add: r_def)
  have one: "unat (of_nat n - 1 :: 64 word) = n - 1" using n count unat_sub [of 1 "of_nat n :: 64 word"]
    by (simp add: word_le_nat_alt)
  have "unat (of_nat n - 1 - ucast r :: 64 word) = n - 1 - unat r"
    using r one unat_sub [of "ucast r :: 64 word" "of_nat n - 1"] by (simp add: word_le_nat_alt)
  then show "unat (of_nat n - 1 - ucast (fst (xs_below (min wnd (ucast (of_nat n :: 64 word))) s)) :: 64 word) < n"
    using n(1) by (simp add: r_def)
  show "unat (ucast (fst (xs_below (ucast (of_nat n :: 64 word)) s)) :: 64 word) < n"
    using xs_below_le [of "ucast (of_nat n :: 64 word)" s] low n(1) by simp
qed

lemma issued_id:
  assumes "i < n" "n < 2 ^ 64"
  shows "1 \<le> unat (map of_nat [1..<Suc n] ! i :: 64 word)" "unat (map of_nat [1..<Suc n] ! i :: 64 word) \<le> n"
proof -
  have "map of_nat [1..<Suc n] ! i = (of_nat (Suc i) :: 64 word)" using assms(1) by (simp del: upt_Suc)
  moreover have "unat (of_nat (Suc i) :: 64 word) = Suc i"
    using assms by (intro unat_of_nat64) simp
  ultimately show "1 \<le> unat (map of_nat [1..<Suc n] ! i :: 64 word)" "unat (map of_nat [1..<Suc n] ! i :: 64 word) \<le> n"
    using assms(1) by simp_all
qed

lemma pick_known_spec:
  assumes g: "gen_ok n g" and n: "n < 2 ^ 64"
  shows "\<exists>k g'. pick_known g = Some (k, g') \<and> gen_ok n g' \<and> og_cfg g' = og_cfg g \<and> 1 \<le> unat k \<and> unat k \<le> max n 1"
proof (cases "n = 0")
  case True
  then show ?thesis using g by (simp add: pick_known_def gen_ok_def)
next
  case False
  have issued: "og_issued g = map of_nat [1..<Suc n]" "length (og_issued g) = n" "og_issued g \<noteq> []"
    using g False by (simp_all add: gen_ok_def del: upt_Suc)
  obtain recent g1 where g1: "on_rng (xs_chance 75) g = (recent, g1)" by fastforce
  define w where "w = (if recent then min (gc_recent_window (og_cfg g)) (ucast (of_nat n :: 64 word)) else ucast (of_nat n :: 64 word))"
  obtain r g2 where g2: "on_rng (xs_below w) g1 = (r, g2)" by fastforce
  have r: "r = fst (xs_below w (og_rng g1))" using on_rng_keeps(4) [OF g2] .
  let ?idx = "if recent then of_nat n - 1 - ucast r else ucast r :: 64 word"
  have idx: "unat ?idx < n" using recent_index(1) [of n _ "og_rng g1"] recent_index(2) [of n "og_rng g1"] False n by (simp add: r w_def)
  have pk: "pick_known g = Some (og_issued g ! unat ?idx, g2)"
    using issued(2,3) g1 g2 idx by (simp add: pick_known_def Let_def w_def split: if_splits)
  have "gen_ok n g2" "og_cfg g2 = og_cfg g" using gen_ok_draw [OF g1] gen_ok_draw [OF g2] g on_rng_keeps(1) [OF g1] on_rng_keeps(1) [OF g2] by simp_all
  moreover have "1 \<le> unat (og_issued g ! unat ?idx)" "unat (og_issued g ! unat ?idx) \<le> max n 1"
    unfolding issued(1) using issued_id [OF idx n] by (simp_all del: upt_Suc)
  ultimately show ?thesis using pk by blast
qed

subsection \<open>What an operation looks like\<close>

definition adds :: "op \<Rightarrow> bool" where
  "adds x \<longleftrightarrow> op_what x = AddLimit \<or> op_what x = AddMarket"

text \<open>The fields that do not depend on the history: the price is in the band, the quantity positive, the owner known.\<close>

definition op_fits :: "gen_config \<Rightarrow> op \<Rightarrow> bool" where
  "op_fits cfg x \<longleftrightarrow> gc_mid cfg - gc_half_band cfg \<le> op_price x \<and> op_price x \<le> gc_mid cfg + gc_half_band cfg \<and>
     1 \<le> op_qty x \<and> op_qty x \<le> max 1 (gc_max_qty cfg) \<and> op_owner x \<le> max 1 (gc_owners cfg)"

text \<open>The id, when \<open>n\<close> ids have been issued: a new order has the next one or one that was used; a target was issued, or lies
  beyond every id that the run will issue next.\<close>

definition id_fits :: "nat \<Rightarrow> op \<Rightarrow> bool" where
  "id_fits n x \<longleftrightarrow> 1 \<le> unat (op_id x) \<and>
     (if adds x then unat (op_id x) \<le> n + 1 else unat (op_id x) \<le> max n 1 \<or> unat (op_id x) = n + 1001)"

fun ids_fit :: "nat \<Rightarrow> op list \<Rightarrow> bool" where
  "ids_fit n [] \<longleftrightarrow> True"
| "ids_fit n (x # xs) \<longleftrightarrow> id_fits n x \<and> ids_fit (if adds x then n + 1 else n) xs"

lemma issue_id_spec:
  assumes g: "gen_ok n g" and n: "n + 1 < 2 ^ 64"
  shows "\<exists>k g'. issue_id g = Some (k, g') \<and> gen_ok (n + 1) g' \<and> og_cfg g' = og_cfg g \<and> 1 \<le> unat k \<and> unat k \<le> n + 1"
proof -
  let ?g1 = "g\<lparr>og_next_id := og_next_id g + 1, og_issued := og_issued g @ [og_next_id g]\<rparr>"
  have g1: "gen_ok (n + 1) ?g1" using g by (simp add: gen_ok_def)
  have next_id: "unat (og_next_id g) = n + 1" using g n unat_of_nat64 [of "Suc n"] by (simp add: gen_ok_def del: of_nat_Suc)
  obtain again g2 where g2: "on_rng (xs_chance 4) ?g1 = (again, g2)" by fastforce
  have ok: "gen_ok (n + 1) g2" "og_cfg g2 = og_cfg g" using gen_ok_draw [OF g2] g1 on_rng_keeps(1) [OF g2] by simp_all
  have e: "issue_id g = (if again then pick_known g2 else Some (og_next_id g, g2))"
    using g2 by (simp add: issue_id_def Let_def)
  show ?thesis
  proof (cases again)
    case True
    then show ?thesis using e pick_known_spec [OF ok(1) n] ok(2) by auto
  next
    case False
    then show ?thesis using e ok next_id by simp
  qed
qed

lemma target_id_spec:
  assumes g: "gen_ok n g" and n: "n + 1001 < 2 ^ 64"
  shows "\<exists>k g'. target_id g = Some (k, g') \<and> gen_ok n g' \<and> og_cfg g' = og_cfg g \<and> 1 \<le> unat k \<and>
    (unat k \<le> max n 1 \<or> unat k = n + 1001)"
proof -
  have "n < 2 ^ 64" using n by simp
  from pick_known_spec [OF g this] obtain k g1 where k: "pick_known g = Some (k, g1)" "gen_ok n g1" "og_cfg g1 = og_cfg g"
      "1 \<le> unat k" "unat k \<le> max n 1" by blast
  obtain unknown g2 where g2: "on_rng (xs_chance 5) g1 = (unknown, g2)" by fastforce
  have ok: "gen_ok n g2" "og_cfg g2 = og_cfg g" using gen_ok_draw [OF g2] k(2,3) on_rng_keeps(1) [OF g2] by simp_all
  have "og_next_id g2 + 1000 = of_nat (n + 1001)" using ok(1) by (simp add: gen_ok_def)
  then have "unat (og_next_id g2 + 1000) = n + 1001" using unat_of_nat64 [OF n] by (simp only:)
  then show ?thesis using k g2 ok by (auto simp: target_id_def)
qed

lemma pick_price_spec:
  assumes "pick_price g = (p, g')" and cfg: "gc_half_band (og_cfg g) \<le> gc_mid (og_cfg g)"
    and "unat (gc_mid (og_cfg g)) + unat (gc_half_band (og_cfg g)) < 2 ^ 64" and "unat (gc_half_band (og_cfg g)) < 2 ^ 31"
  shows "gc_mid (og_cfg g) - gc_half_band (og_cfg g) \<le> p \<and> p \<le> gc_mid (og_cfg g) + gc_half_band (og_cfg g) \<and>
    og_cfg g' = og_cfg g \<and> (gen_ok n g' \<longleftrightarrow> gen_ok n g)"
proof -
  let ?mid = "gc_mid (og_cfg g)" and ?half = "gc_half_band (og_cfg g)"
  obtain r where r: "on_rng (xs_below (ucast (?half * 2 + 1))) g = (r, g')" "p = ?mid - ?half + ucast r"
    using assms(1) by (auto simp: pick_price_def Let_def split: prod.splits)
  have span: "unat (?half * 2 + 1) = unat ?half * 2 + 1" using assms(4) by (simp add: unat_word_ariths)
  then have span32: "unat (ucast (?half * 2 + 1) :: 32 word) = unat ?half * 2 + 1"
    using assms(4) by (simp add: unsigned_ucast_eq take_bit_nat_eq_self_iff)
  have "unat r \<le> unat ?half * 2"
    using xs_below_le [of "ucast (?half * 2 + 1)" "og_rng g"] on_rng_keeps(4) [OF r(1)] unfolding span32 by simp
  moreover have low: "unat (?mid - ?half) = unat ?mid - unat ?half" using cfg by (simp add: unat_sub word_le_nat_alt)
  moreover have "unat ?half \<le> unat ?mid" using cfg by (simp add: word_le_nat_alt)
  ultimately have "unat (?mid - ?half) + unat (ucast r :: 64 word) \<le> unat ?mid + unat ?half" by simp
  moreover from this have "unat p = unat (?mid - ?half) + unat (ucast r :: 64 word)"
    using assms(3) unat_add_lem [of "?mid - ?half" "ucast r"] r(2) by simp
  moreover have "unat (?mid + ?half) = unat ?mid + unat ?half" using assms(3) unat_add_lem [of ?mid ?half] by simp
  ultimately show ?thesis
    using on_rng_keeps(1) [OF r(1)] gen_ok_draw [OF r(1)] by (simp add: word_le_nat_alt)
qed

lemma one_plus_draw: "1 \<le> 1 + fst (xs_below n s) \<and> 1 + fst (xs_below n s) \<le> max 1 n"
proof (cases "n = 0")
  case False
  then have "unat (fst (xs_below n s)) < unat n" using xs_below_less by (simp add: word_less_nat_alt)
  moreover from this have "unat (1 + fst (xs_below n s)) = 1 + unat (fst (xs_below n s))"
    using unat_lt32 [of n] unat_add_lem [of 1 "fst (xs_below n s)"] by simp
  ultimately show ?thesis by (simp add: word_le_nat_alt max_def)
qed (simp add: xs_below_def)

lemma pick_owner_spec:
  assumes "pick_owner g = (owner, g')"
  shows "owner \<le> max 1 (gc_owners (og_cfg g)) \<and> og_cfg g' = og_cfg g \<and> (gen_ok n g' \<longleftrightarrow> gen_ok n g)"
proof -
  obtain anonymous g1 where g1: "on_rng (xs_chance (gc_anonymous_percent (og_cfg g))) g = (anonymous, g1)" by fastforce
  obtain r g2 where g2: "on_rng (xs_below (gc_owners (og_cfg g))) g1 = (r, g2)" by fastforce
  note keeps = on_rng_keeps [OF g1] on_rng_keeps [OF g2] gen_ok_draw [OF g1, of n] gen_ok_draw [OF g2, of n]
  have "(owner, g') = (if anonymous then (kAnonymous, g1) else (1 + r, g2))"
    using assms g1 g2 keeps(1) by (simp add: pick_owner_def split: if_splits)
  then show ?thesis using keeps one_plus_draw [of "gc_owners (og_cfg g)" "og_rng g1"]
    by (auto simp: kAnonymous_def split: if_splits)
qed

subsection \<open>Generated sequences are well typed\<close>

lemma make_op_spec:
  assumes g: "gen_ok n g" and n: "n + 1001 < 2 ^ 64" and cfg: "gc_half_band (og_cfg g) \<le> gc_mid (og_cfg g)"
      "unat (gc_mid (og_cfg g)) + unat (gc_half_band (og_cfg g)) < 2 ^ 64" "unat (gc_half_band (og_cfg g)) < 2 ^ 31"
  shows "\<exists>x g'. make_op g = Some (x, g') \<and> op_fits (og_cfg g) x \<and> id_fits n x \<and>
    gen_ok (if adds x then n + 1 else n) g' \<and> og_cfg g' = og_cfg g"
proof -
  obtain roll g1 where g1: "on_rng (xs_below 100) g = (roll, g1)" by fastforce
  obtain owner g2 where g2: "pick_owner g1 = (owner, g2)" by fastforce
  obtain buy g3 where g3: "on_rng (xs_chance 50) g2 = (buy, g3)" by fastforce
  obtain p g4 where g4: "pick_price g3 = (p, g4)" by fastforce
  obtain r g5 where g5: "on_rng (xs_below (gc_max_qty (og_cfg g4))) g4 = (r, g5)" by fastforce
  have c13: "og_cfg g1 = og_cfg g" "og_cfg g2 = og_cfg g" "og_cfg g3 = og_cfg g"
    using on_rng_keeps(1) [OF g1] pick_owner_spec [OF g2] on_rng_keeps(1) [OF g3] by simp_all
  note price = pick_price_spec [OF g4, unfolded c13, OF cfg]
  have c: "og_cfg g5 = og_cfg g" "gen_ok n g5"
    using on_rng_keeps(1) [OF g5] price [of n] g gen_ok_draw [OF g1] pick_owner_spec [OF g2, of n] gen_ok_draw [OF g3] gen_ok_draw [OF g5]
    by simp_all
  define k where "k = (if roll_kind roll = AddLimit \<or> roll_kind roll = AddMarket then issue_id g5 else target_id g5)"
  define y where "y = (\<lambda>k. \<lparr>op_what = roll_kind roll, op_id = k, op_owner = owner, op_side = (if buy then Buy else Sell),
     op_price = p, op_qty = 1 + r\<rparr>)"
  have "make_op g = map_option (\<lambda>(k, g6). (y k, g6)) k"
    using g1 g2 g3 g4 g5 by (cases "roll_kind roll") (simp_all add: make_op_def y_def k_def)
  moreover have "op_fits (og_cfg g) (y k)" for k
    using price [of n] pick_owner_spec [OF g2, of n] one_plus_draw [of "gc_max_qty (og_cfg g4)" "og_rng g4"] on_rng_keeps(4) [OF g5]
    by (simp add: op_fits_def y_def c13)
  moreover have "adds (y k') \<longleftrightarrow> roll_kind roll = AddLimit \<or> roll_kind roll = AddMarket" "op_id (y k') = k'" for k'
    by (simp_all add: adds_def y_def)
  moreover have "\<exists>k' g'. k = Some (k', g') \<and> og_cfg g' = og_cfg g \<and> 1 \<le> unat k' \<and>
      (if roll_kind roll = AddLimit \<or> roll_kind roll = AddMarket then gen_ok (n + 1) g' \<and> unat k' \<le> n + 1
       else gen_ok n g' \<and> (unat k' \<le> max n 1 \<or> unat k' = n + 1001))"
  proof -
    have "n + 1 < 2 ^ 64" using n by simp
    from issue_id_spec [OF c(2) this] target_id_spec [OF c(2) n] show ?thesis by (auto simp: k_def c(1))
  qed
  ultimately show ?thesis by (force simp: id_fits_def)
qed

lemma make_ops_spec:
  assumes "gen_ok n g" "n + len + 1001 \<le> 2 ^ 64" "gc_half_band (og_cfg g) \<le> gc_mid (og_cfg g)"
    "unat (gc_mid (og_cfg g)) + unat (gc_half_band (og_cfg g)) < 2 ^ 64" "unat (gc_half_band (og_cfg g)) < 2 ^ 31"
  shows "\<exists>xs. make_ops len g = Some xs \<and> length xs = len \<and> list_all (op_fits (og_cfg g)) xs \<and> ids_fit n xs"
  using assms
proof (induction len arbitrary: n g)
  case (Suc len)
  have "n + 1001 < 2 ^ 64" using Suc.prems(2) by simp
  from make_op_spec [OF Suc.prems(1) this Suc.prems(3-5)] obtain x g1 where x: "make_op g = Some (x, g1)" "op_fits (og_cfg g) x"
      "id_fits n x" "gen_ok (if adds x then n + 1 else n) g1" "og_cfg g1 = og_cfg g" by blast
  have "\<exists>xs. make_ops len g1 = Some xs \<and> length xs = len \<and> list_all (op_fits (og_cfg g1)) xs \<and> ids_fit (if adds x then n + 1 else n) xs"
    by (rule Suc.IH [OF x(4)]) (use Suc.prems(2-5) x(5) in auto)
  then show ?case using x by auto
qed simp

lemma gen_ok_new: "gen_ok 0 (op_generator_new seed cfg)" "og_cfg (op_generator_new seed cfg) = cfg"
  by (simp_all add: gen_ok_def op_generator_new_def)

lemma generate_sequence_spec:
  assumes "gc_length cfg < 2 ^ 63" and "gc_half_band cfg \<le> gc_mid cfg"
    and "unat (gc_mid cfg) + unat (gc_half_band cfg) < 2 ^ 64" and "unat (gc_half_band cfg) < 2 ^ 31"
  shows "\<exists>xs. generate_sequence seed cfg = Some xs \<and> length xs = gc_length cfg \<and> list_all (op_fits cfg) xs \<and> ids_fit 0 xs"
  using make_ops_spec [OF gen_ok_new(1), unfolded gen_ok_new(2), of "gc_length cfg" cfg seed] assms
  by (simp add: generate_sequence_def)

text \<open>
  (C17) Generated sequences are well typed. For every seed and every configuration whose price band neither wraps nor
  is \<open>2 ^ 31\<close> ticks wide to a side, \<^verbatim>\<open>generate()\<close> returns without reading \<^verbatim>\<open>issued\<close> out of range, and gives exactly
  \<^verbatim>\<open>length\<close> operations: prices in the band, quantities between one and the maximum, owners among the configured ones or
  anonymous; a new order has the next id or one used before, and a cancel or modify names an issued id or one
  a thousand beyond the next. The wrapping index arithmetic of \<^verbatim>\<open>pick_known\<close> is covered for every window of recent ids.
\<close>

theorem sequence_well_typed:
  assumes "gc_length cfg < 2 ^ 63" and "gc_half_band cfg \<le> gc_mid cfg"
    and "unat (gc_mid cfg) + unat (gc_half_band cfg) < 2 ^ 64" and "unat (gc_half_band cfg) < 2 ^ 31"
  shows "\<exists>xs. generate_sequence seed cfg = Some xs \<and> length xs = gc_length cfg \<and> list_all (op_fits cfg) xs \<and> ids_fit 0 xs"
  by (rule generate_sequence_spec [OF assms])

theorem sequence_well_typed_witness:
  "\<exists>xs. generate_sequence 7 default_gen = Some xs \<and> length xs = 40 \<and> list_all (op_fits default_gen) xs \<and> ids_fit 0 xs"
  using sequence_well_typed [of default_gen 7] by (simp add: default_gen_def word_le_nat_alt)

end
