(* ===== verification/Trade_Count.thy ===== *)
theory Trade_Count
  imports Differential
begin

section \<open>A run prints at most one trade per operation\<close>

text \<open>
  Every trade consumes its maker or ends its taker, and an operation adds at most one order; so trades and resting orders
  together grow by at most one with each operation. With a ring at least as large as the number of operations no trade is
  dropped, and the two books of the differential tests agree.
\<close>

lemma sweep_trade_room:
  "sweep pol lim os i rep seq = (os', i', rep', ts) \<Longrightarrow>
   length ts + length os' \<le> length os + (if ord_qty i' = 0 then 1 else 0)"
  by (induction rule: sweep_induct) auto

lemma spec_submit_trades:
  assumes "spec_submit k owner sd lim qty rest A = (rep, ts, A')"
  shows "length ts + length (spec_ids A') \<le> Suc (length (spec_ids A))"
proof (cases "qty = 0 \<or> spec_find k A \<noteq> None")
  case True
  then show ?thesis using assms spec_submit_rejected [OF True] by simp
next
  case False
  define i where "i = \<lparr>ord_id = k, ord_owner = owner, ord_price = (case lim of None \<Rightarrow> 0 | Some p \<Rightarrow> p),
    ord_qty = qty, ord_side = sd\<rparr>"
  obtain os i1 r us where sw: "sweep (spec_policy A) lim (spec_orders A (opposite sd)) i new_report (spec_seq A) = (os, i1, r, us)"
    by (cases "sweep (spec_policy A) lim (spec_orders A (opposite sd)) i new_report (spec_seq A)") auto
  have "(rep, ts, A') = spec_submit k owner sd lim qty rest A" using assms by simp
  then show ?thesis
    using spec_submit_accepted [OF _ _ i_def sw refl refl, of rest] False sweep_trade_room [OF sw]
    by (auto simp: spec_ids_length [of _ sd] rank_insert_length split: if_splits)
qed

lemma spec_step_trades:
  assumes "spec_step x A = (rep, ts, A')"
  shows "length ts + length (spec_ids A') \<le> Suc (length (spec_ids A))"
proof (cases "op_what x")
  case Modify
  show ?thesis
  proof (cases "spec_find (op_id x) A")
    case (Some y)
    then show ?thesis
      using assms Modify spec_cancel_length [of "op_id x" A]
        spec_submit_trades [of "op_id x" "ord_owner y" "ord_side y" "Some (op_price x)" "op_qty x" True "snd (spec_cancel (op_id x) A)" rep ts A']
      by (auto simp: spec_step_def spec_modify_def split: if_splits)
  qed (use assms Modify in \<open>auto simp: spec_step_def spec_modify_def\<close>)
qed (use assms spec_submit_trades spec_cancel_length [of "op_id x" A] in
    \<open>auto simp: spec_step_def intro: le_SucI split: prod.splits\<close>)

lemma spec_run_trades:
  "spec_run xs A = (reps, ts, A') \<Longrightarrow> length ts + length (spec_ids A') \<le> length xs + length (spec_ids A)"
proof (induction xs arbitrary: A reps ts A')
  case (Cons x xs)
  obtain rep us A1 where st: "spec_step x A = (rep, us, A1)" by (cases "spec_step x A")
  obtain reps1 vs A2 where rn: "spec_run xs A1 = (reps1, vs, A2)" by (cases "spec_run xs A1")
  show ?case using Cons.IH [OF rn] spec_step_trades [OF st] Cons.prems st rn by auto
qed simp

lemma reference_trades:
  assumes "length ops \<le> 2 ^ 31"
  shows "length (obs_trades (run_reference ops pol)) \<le> length ops"
proof -
  obtain reps ts A where sp: "spec_run ops (spec_new pol) = (reps, ts, A)" by (cases "spec_run ops (spec_new pol)")
  have "ref_rel (length ops + 0) (ref_new pol) (spec_new pol) []" by (rule ref_new_rel) (use assms in simp)
  from reference.run_law [OF this sp] obtain R where "reference_loop ops (ref_new pol) = (reps, R)" "ref_rel 0 R A ts"
    unfolding reference_loop_run_ops by auto
  then have "obs_trades (run_reference ops pol) = ts" using ref_relD(5) by (auto simp: run_reference_def)
  then show ?thesis using spec_run_trades [OF sp] by (simp add: spec_ids_def spec_new_def)
qed

text \<open>The engine and the naive book observe the same when the ring has a place for every operation.\<close>

lemma engine_run_is_reference:
  assumes "length ops \<le> 2 ^ 31" "allocatable cfg"
    and "length ops \<le> unat (trade_capacity cfg)"
  shows "run_engine ops cfg = Some (run_reference ops (self_trade cfg))"
proof -
  obtain ring where "unat (trade_capacity cfg) \<le> ring_capacity ring" and run: "run_engine ops cfg =
      Some ((run_reference ops (self_trade cfg))\<lparr>obs_trades := take (ring_capacity ring) (obs_trades (run_reference ops (self_trade cfg)))\<rparr>)"
    using engine_matches_reference [OF assms(1,2)] by blast
  then show ?thesis using reference_trades [OF assms(1), of "self_trade cfg"] assms(3) by simp
qed

text \<open>Without that room, the harness takes a full ring for a divergence.\<close>

lemma verdict:
  assumes "length ops \<le> 2 ^ 31" "allocatable cfg" "trade_capacity cfg = 2 ^ 16"
  shows "diverges ops cfg = Some (2 ^ 16 < length (obs_trades (run_reference ops (self_trade cfg))))"
proof -
  have cap: "trade_capacity cfg \<le> 2 ^ 57" "unat (trade_capacity cfg) = 2 ^ 16" unfolding assms(3) by simp_all
  obtain ring where new: "trade_ring_new (trade_capacity cfg) = Some (Inr ring)" and run: "run_engine ops cfg =
      Some ((run_reference ops (self_trade cfg))\<lparr>obs_trades := take (ring_capacity ring) (obs_trades (run_reference ops (self_trade cfg)))\<rparr>)"
    using engine_matches_reference [OF assms(1,2)] by blast
  obtain r j where r: "trade_ring_new (trade_capacity cfg) = Some (Inr r)" "ring_capacity r = 2 ^ j" "2 ^ 16 \<le> (2::nat) ^ j"
      "j = 0 \<or> 2 ^ (j - 1) < (2::nat) ^ 16"
    using trade_ring_new_returns [OF cap(1)] unfolding cap(2) by blast
  have "16 \<le> j" using power_le_imp_le_exp [OF _ r(3)] by simp
  moreover have "j - 1 < 16" using r(4) power_strict_increasing_iff [of "2::nat" "j - 1" 16] by auto
  ultimately have "ring_capacity ring = 2 ^ 16" using r(1,2) new by (cases "j = 16") auto
  moreover have "(take n xs = xs) = (\<not> n < length xs)" for n and xs :: "trade list" by (auto simp: not_less)
  ultimately show ?thesis unfolding diverges_def run same_observed_iff
    by (cases "run_reference ops (self_trade cfg)") simp
qed

end
