(* ===== verification/Reproducer.thy ===== *)
theory Reproducer
  imports Trade_Count Text_Numbers "HOL-Library.Monad_Syntax"
begin

section \<open>The reproducer of a failing sequence (\<^verbatim>\<open>difftest::format\<close>)\<close>

text \<open>
  The C++ text that the harness prints for a divergence, and a reader of that text. The reader is the reference: it
  understands what a compiler would make of the printed lines, a \<^verbatim>\<open>Config\<close> whose first two members are given, two
  assignments to it, and calls on the book. What a call does not print, the reader leaves at the zero of \<^verbatim>\<open>Op{}\<close>.
\<close>

subsection \<open>Model\<close>

definition policy_text :: "self_trade_policy \<Rightarrow> string" where
  "policy_text pol = (if pol = Allow then ''Allow'' else if pol = CancelIncoming then ''CancelIncoming'' else ''CancelResting'')"

definition side_text :: "side \<Rightarrow> string" where
  "side_text sd = (if sd = Buy then ''Side::Buy'' else ''Side::Sell'')"

definition op_text :: "op \<Rightarrow> string" where
  "op_text x =
     (let k = to_string (unat (op_id x)); owner = to_string (unat (op_owner x)); sd = side_text (op_side x);
          p = to_string (unat (op_price x)); qty = to_string (unat (op_qty x))
      in case op_what x of
           AddLimit \<Rightarrow> ''book.add_limit('' @ k @ '', '' @ owner @ '', '' @ sd @ '', '' @ p @ '', '' @ qty @ '');'' @ eol
         | AddMarket \<Rightarrow> ''book.add_market('' @ k @ '', '' @ owner @ '', '' @ sd @ '', '' @ qty @ '');'' @ eol
         | Cancel \<Rightarrow> ''book.cancel('' @ k @ '');'' @ eol
         | Modify \<Rightarrow> ''book.modify('' @ k @ '', '' @ p @ '', '' @ qty @ '');'' @ eol)"

definition format :: "op list \<Rightarrow> config \<Rightarrow> string" where
  "format ops cfg =
     eol @ ''// SelfTradePolicy::'' @ policy_text (self_trade cfg) @ '', '' @ to_string (length ops) @ '' ops'' @ eol @
     ''lob::Config cfg{lob::SelfTradePolicy::'' @ policy_text (self_trade cfg) @ '', 4096};'' @ eol @
     (if price_levels cfg \<noteq> price_levels default_config
      then ''cfg.price_levels = '' @ to_string (unat (price_levels cfg)) @ '';'' @ eol else []) @
     (case price_base cfg of None \<Rightarrow> [] | Some p \<Rightarrow> ''cfg.price_base = '' @ to_string (unat p) @ ''u;'' @ eol) @
     ''lob::OrderBook book(cfg);'' @ eol @ concat (map op_text ops)"

subsection \<open>Reading the text\<close>

text \<open>A parser takes the text and returns what it read with the rest of the text.\<close>

fun after :: "string \<Rightarrow> string \<Rightarrow> string option" where
  "after [] r = Some r"
| "after (c # cs) [] = None"
| "after (c # cs) (x # xs) = (if c = x then after cs xs else None)"

definition read_number :: "string \<Rightarrow> (nat \<times> string) option" where
  "read_number r =
     (let d = takeWhile is_digit r in if d = [] then None else Some (of_digits d, dropWhile is_digit r))"

fun one_of :: "(string \<times> 'a) list \<Rightarrow> string \<Rightarrow> ('a \<times> string) option" where
  "one_of [] r = None"
| "one_of ((s, a) # alts) r = (case after s r of Some r' \<Rightarrow> Some (a, r') | None \<Rightarrow> one_of alts r)"

definition read_policy :: "string \<Rightarrow> (self_trade_policy \<times> string) option" where
  "read_policy = one_of (map (\<lambda>pol. (policy_text pol, pol)) [Allow, CancelIncoming, CancelResting])"

definition read_side :: "string \<Rightarrow> (side \<times> string) option" where
  "read_side = one_of (map (\<lambda>sd. (side_text sd, sd)) [Buy, Sell])"

definition next_number :: "string \<Rightarrow> (nat \<times> string) option" where
  "next_number r = Option.bind (after '', '' r) read_number"

definition read_op :: "string \<Rightarrow> (op \<times> string) option" where
  "read_op r =
     do {
       (what, r) \<leftarrow> one_of [(''book.add_limit('', AddLimit), (''book.add_market('', AddMarket), (''book.cancel('', Cancel),
                    (''book.modify('', Modify)] r;
       (k, r) \<leftarrow> read_number r;
       (owner, r) \<leftarrow> (if what = AddLimit \<or> what = AddMarket then next_number r else Some (0, r));
       (sd, r) \<leftarrow> (if what = AddLimit \<or> what = AddMarket then Option.bind (after '', '' r) read_side else Some (Buy, r));
       (p, r) \<leftarrow> (if what = AddLimit \<or> what = Modify then next_number r else Some (0, r));
       (qty, r) \<leftarrow> (if what = Cancel then Some (0, r) else next_number r);
       r \<leftarrow> after ('');'' @ eol) r;
       Some (\<lparr>op_what = what, op_id = of_nat k, op_owner = of_nat owner, op_side = sd, op_price = of_nat p, op_qty = of_nat qty\<rparr>, r)
     }"

fun read_ops :: "nat \<Rightarrow> string \<Rightarrow> (op list \<times> string) option" where
  "read_ops 0 r = Some ([], r)"
| "read_ops (Suc n) r = do { (x, r) \<leftarrow> read_op r; (xs, r) \<leftarrow> read_ops n r; Some (x # xs, r) }"

text \<open>An assignment \<^verbatim>\<open>cfg.member = number\<close> that may be missing.\<close>

definition read_member :: "string \<Rightarrow> string \<Rightarrow> string \<Rightarrow> (nat option \<times> string) option" where
  "read_member name close r =
     (case after name r of
        None \<Rightarrow> Some (None, r)
      | Some r1 \<Rightarrow> do { (n, r2) \<leftarrow> read_number r1; r3 \<leftarrow> after (close @ eol) r2; Some (Some n, r3) })"

definition read_reproducer :: "string \<Rightarrow> (config \<times> op list) option" where
  "read_reproducer s =
     do {
       r \<leftarrow> after (eol @ ''// SelfTradePolicy::'') s;
       (_, r) \<leftarrow> read_policy r;
       (n, r) \<leftarrow> next_number r;
       r \<leftarrow> after ('' ops'' @ eol @ ''lob::Config cfg{lob::SelfTradePolicy::'') r;
       (pol, r) \<leftarrow> read_policy r;
       (capacity, r) \<leftarrow> next_number r;
       r \<leftarrow> after (''};'' @ eol) r;
       (levels, r) \<leftarrow> read_member ''cfg.price_levels = '' '';'' r;
       (base, r) \<leftarrow> read_member ''cfg.price_base = '' ''u;'' r;
       r \<leftarrow> after (''lob::OrderBook book(cfg);'' @ eol) r;
       (ops, r) \<leftarrow> read_ops n r;
       if r = []
       then Some (default_config\<lparr>self_trade := pol, trade_capacity := of_nat capacity,
           price_levels := (case levels of None \<Rightarrow> price_levels default_config | Some l \<Rightarrow> of_nat l),
           price_base := map_option of_nat base\<rparr>, ops)
       else None
     }"

subsection \<open>Each element is read back\<close>

lemma after_append [simp]: "after s (s @ r) = Some r"
  by (induction s) auto

lemma after_append' [simp]: "after (s @ t) (s @ r) = after t r"
  by (induction s) auto

lemma digits_span:
  "r = [] \<or> \<not> is_digit (hd r) \<Longrightarrow> takeWhile is_digit (to_string n @ r) = to_string n \<and> dropWhile is_digit (to_string n @ r) = r"
  using to_string_digits [of n] by (cases r) (auto simp: is_digit_def takeWhile_append dropWhile_append)

lemma read_number_to_string: "r = [] \<or> \<not> is_digit (hd r) \<Longrightarrow> read_number (to_string n @ r) = Some (n, r)"
  using digits_span [of r n] to_string_digits [of n] by (simp add: read_number_def of_digits_to_string)

lemma read_number_Cons [simp]: "\<not> is_digit c \<Longrightarrow> read_number (to_string n @ c # r) = Some (n, c # r)"
  by (rule read_number_to_string) simp

lemma not_digits [simp]:
  "\<not> is_digit (CHR '','')" "\<not> is_digit (CHR '')'')" "\<not> is_digit (CHR '' '')" "\<not> is_digit (CHR '';'')" "\<not> is_digit (CHR ''u'')" "\<not> is_digit (CHR ''}'')"
  by (simp_all add: is_digit_def)

lemma next_number_Cons [simp]: "\<not> is_digit c \<Longrightarrow> next_number (CHR '','' # CHR '' '' # to_string n @ c # r) = Some (n, c # r)"
  by (simp add: next_number_def)

lemma read_policy_text [simp]: "read_policy (policy_text pol @ r) = Some (pol, r)"
  by (cases pol) (simp_all add: read_policy_def policy_text_def)

lemma read_side_text [simp]: "read_side (side_text sd @ r) = Some (sd, r)"
  by (cases sd) (simp_all add: read_side_def side_text_def)

text \<open>The operation that a printed call denotes.\<close>

definition as_called :: "op \<Rightarrow> op" where
  "as_called x =
     (case op_what x of
        AddLimit \<Rightarrow> x
      | AddMarket \<Rightarrow> x\<lparr>op_price := 0\<rparr>
      | Cancel \<Rightarrow> x\<lparr>op_owner := 0, op_side := Buy, op_price := 0, op_qty := 0\<rparr>
      | Modify \<Rightarrow> x\<lparr>op_owner := 0, op_side := Buy\<rparr>)"

lemma read_op_text: "read_op (op_text x @ r) = Some (as_called x, r)"
  by (cases x; cases "op_what x") (simp_all add: read_op_def op_text_def as_called_def Let_def eol_def)

lemma read_ops_text: "read_ops (length ops) (concat (map op_text ops) @ r) = Some (map as_called ops, r)"
  by (induction ops) (simp_all add: read_op_text)

lemma read_member_text: "\<not> is_digit (hd close) \<Longrightarrow> close \<noteq> [] \<Longrightarrow>
    read_member name close (name @ to_string n @ close @ eol @ r) = Some (Some n, r)"
  using read_number_to_string [of "close @ eol @ r" n] after_append [of "close @ eol" r]
  by (simp add: read_member_def)

lemma read_member_missing: "after name r = None \<Longrightarrow> read_member name close r = Some (None, r)"
  by (simp add: read_member_def)

subsection \<open>The text says what was run\<close>

definition reproducer_config :: "config \<Rightarrow> config" where
  "reproducer_config cfg = default_config\<lparr>self_trade := self_trade cfg, price_levels := price_levels cfg, price_base := price_base cfg\<rparr>"

text \<open>The two assignments, before a text \<open>t\<close> that is not one.\<close>

lemma read_member_optional:
  assumes "after name t = None" and "\<not> is_digit (hd close)" "close \<noteq> []"
  shows "read_member name close ((case v of None \<Rightarrow> [] | Some n \<Rightarrow> name @ to_string n @ close @ eol) @ t) = Some (v, t)"
proof (cases v)
  case (Some n)
  then show ?thesis using read_member_text [OF assms(2,3), of name n t] by simp
qed (simp add: assms(1) read_member_missing)

lemma read_format: "read_reproducer (format ops cfg) = Some (reproducer_config cfg, map as_called ops)"
proof -
  define r where "r = ''lob::OrderBook book(cfg);'' @ eol @ concat (map op_text ops)"
  define base where "base = map_option unat (price_base cfg)"
  define levels where "levels = (if price_levels cfg \<noteq> price_levels default_config then Some (unat (price_levels cfg)) else None)"
  define b where "b = (case base of None \<Rightarrow> [] | Some n \<Rightarrow> ''cfg.price_base = '' @ to_string n @ ''u;'' @ eol) @ r"
  define l where "l = (case levels of None \<Rightarrow> [] | Some n \<Rightarrow> ''cfg.price_levels = '' @ to_string n @ '';'' @ eol) @ b"
  have cap: "to_string 4096 = ''4096''" by (simp add: to_string.simps char_of_eq_iff)
  have printed: "format ops cfg = (eol @ ''// SelfTradePolicy::'') @ policy_text (self_trade cfg) @ '', '' @ to_string (length ops) @
      ('' ops'' @ eol @ ''lob::Config cfg{lob::SelfTradePolicy::'') @ policy_text (self_trade cfg) @ '', '' @ to_string 4096 @ (''};'' @ eol) @ l"
    by (simp add: format_def cap l_def b_def r_def base_def levels_def split: option.split)
  have nn: "next_number ('', '' @ to_string n @ t) = Some (n, t)" if "\<not> is_digit (hd t)" for n t
    using that read_number_to_string [of t n] by (simp add: next_number_def)
  have lv: "read_member ''cfg.price_levels = '' '';'' l = Some (levels, b)"
    unfolding l_def by (rule read_member_optional) (simp_all add: b_def r_def split: option.split)
  have bs: "read_member ''cfg.price_base = '' ''u;'' b = Some (base, r)"
    unfolding b_def by (rule read_member_optional) (simp_all add: r_def)
  have r: "after (''lob::OrderBook book(cfg);'' @ eol) r = Some (concat (map op_text ops))"
    unfolding r_def by (simp only: append_assoc [symmetric] after_append)
  have ops: "read_ops (length ops) (concat (map op_text ops)) = Some (map as_called ops, [])"
    using read_ops_text [of ops "[]"] by simp
  have cfg: "default_config\<lparr>self_trade := self_trade cfg, trade_capacity := of_nat 4096,
      price_levels := (case levels of None \<Rightarrow> price_levels default_config | Some l \<Rightarrow> of_nat l), price_base := map_option of_nat base\<rparr> =
      reproducer_config cfg"
    by (cases "price_base cfg") (simp_all add: reproducer_config_def levels_def base_def default_config_def)
  show ?thesis
    unfolding read_reproducer_def printed after_append read_policy_text bind.bind_lunit option.case prod.case
    by (subst nn, simp, simp only: option.case bind.bind_lunit prod.case after_append read_policy_text, subst nn, simp)
      (simp only: bind.bind_lunit prod.case after_append lv bs r ops cfg refl if_True)
qed

lemma reference_as_called: "run_reference (map as_called ops) pol = run_reference ops pol"
proof -
  have "ref_step (as_called x) = ref_step x" for x
    by (cases "op_what x") (simp_all add: fun_eq_iff ref_step_def as_called_def)
  then have "reference_loop (map as_called ops) R = reference_loop ops R" for R
    by (induction ops arbitrary: R) simp_all
  then show ?thesis by (simp add: run_reference_def)
qed

text \<open>
  (C18) The reproducer reproduces. For every sequence and configuration the printed text reads back as the self-trade policy,
  the price window and the calls, in order, with every printed number exact; and for up to 4096 operations, the ring
  capacity that is printed, where the storage of the configuration can exist, running what was read shows what running the original showed, although the expected orders
  and the true ring capacity are not in the text.
\<close>

theorem reproducer_roundtrip:
  "\<exists>cfg' ops'. read_reproducer (format ops cfg) = Some (cfg', ops') \<and> length ops' = length ops \<and>
    self_trade cfg' = self_trade cfg \<and> price_levels cfg' = price_levels cfg \<and> price_base cfg' = price_base cfg \<and>
    ops' = map as_called ops \<and>
    (allocatable cfg \<and> 4096 \<le> trade_capacity cfg \<and> length ops \<le> 4096 \<longrightarrow> run_engine ops' cfg' = run_engine ops cfg \<and> run_engine ops cfg \<noteq> None)"
proof -
  have "run_engine (map as_called ops) (reproducer_config cfg) = Some (run_reference ops (self_trade cfg))"
    if "allocatable cfg" "length ops \<le> 4096"
    using engine_run_is_reference [of "map as_called ops" "reproducer_config cfg"] that
    by (simp add: reproducer_config_def default_config_def reference_as_called allocatable_def)
  moreover have "run_engine ops cfg = Some (run_reference ops (self_trade cfg))"
    if "allocatable cfg" "4096 \<le> trade_capacity cfg" "length ops \<le> 4096"
    by (rule engine_run_is_reference) (use that in \<open>auto simp: word_le_nat_alt\<close>)
  ultimately show ?thesis by (simp add: read_format) (simp add: reproducer_config_def)
qed

theorem reproducer_roundtrip_witness:
  "\<exists>cfg' ops'. read_reproducer (format sample_ops (default_config\<lparr>price_base := Some 999\<rparr>)) = Some (cfg', ops') \<and>
     length ops' = 6 \<and> price_base cfg' = Some 999 \<and> run_engine ops' cfg' = run_engine sample_ops (default_config\<lparr>price_base := Some 999\<rparr>)"
proof -
  have "length sample_ops = 6" by (simp add: sample_ops_def)
  then show ?thesis using reproducer_roundtrip [where cfg = "default_config\<lparr>price_base := Some 999\<rparr>" and ops = sample_ops]
    by (auto simp: default_config_def allocatable_def)
qed

end
