(* ===== verification/Shrink.thy ===== *)
theory Shrink
  imports Differential "HOL-Library.Sublist"
begin

section \<open>Shrinking a failing sequence (\<^verbatim>\<open>difftest::shrink\<close>)\<close>

text \<open>
  The greedy delta-debugging loop of \<^verbatim>\<open>tests/diff_harness.cpp\<close>: three nested loops that drop chunks of
  operations while the divergence survives. The loops are written for any test \<open>bad\<close>; \<open>shrink\<close>
  instantiates it with the comparison of the two books. They terminate for every test, return a
  failing subsequence of the input, and what they return is minimal.
\<close>

subsection \<open>Model\<close>

definition candidate :: "nat \<Rightarrow> nat \<Rightarrow> 'a list \<Rightarrow> 'a list" where
  "candidate i chunk failing = take i failing @ drop (i + chunk) failing"

text \<open>The loop on the position \<open>i\<close>. Its condition includes \<open>chunk \<ge> 1\<close>, the condition of the enclosing loop.\<close>

function shrink_at :: "('a list \<Rightarrow> bool) \<Rightarrow> nat \<Rightarrow> nat \<Rightarrow> 'a list \<Rightarrow> bool \<Rightarrow> 'a list \<times> bool" where
  "shrink_at bad chunk i failing progress =
     (if chunk \<ge> 1 \<and> i + chunk \<le> length failing
      then if candidate i chunk failing \<noteq> [] \<and> bad (candidate i chunk failing)
           then shrink_at bad chunk i (candidate i chunk failing) True
           else shrink_at bad chunk (i + 1) failing progress
      else (failing, progress))"
  by pat_completeness auto
termination
  by (relation "measures [\<lambda>(bad, chunk, i, xs, p). length xs, \<lambda>(bad, chunk, i, xs, p). length xs - i]")
    (auto simp: candidate_def)

declare shrink_at.simps [simp del]

lemma shrink_at_cases:
  "chunk \<ge> 1 \<and> i + chunk \<le> length xs \<Longrightarrow> candidate i chunk xs \<noteq> [] \<and> bad (candidate i chunk xs) \<Longrightarrow>
     shrink_at bad chunk i xs p = shrink_at bad chunk i (candidate i chunk xs) True"
  "chunk \<ge> 1 \<and> i + chunk \<le> length xs \<Longrightarrow> \<not> (candidate i chunk xs \<noteq> [] \<and> bad (candidate i chunk xs)) \<Longrightarrow>
     shrink_at bad chunk i xs p = shrink_at bad chunk (i + 1) xs p"
  "\<not> (chunk \<ge> 1 \<and> i + chunk \<le> length xs) \<Longrightarrow> shrink_at bad chunk i xs p = (xs, p)"
  by (simp_all only: shrink_at.simps [of bad chunk i xs] if_True if_False simp_thms)

fun shrink_chunks :: "('a list \<Rightarrow> bool) \<Rightarrow> nat \<Rightarrow> 'a list \<Rightarrow> bool \<Rightarrow> 'a list \<times> bool" where
  "shrink_chunks bad chunk failing progress =
     (if chunk \<ge> 1
      then (case shrink_at bad chunk 0 failing progress of
          (failing', progress') \<Rightarrow>
            if chunk = 1 then (failing', progress') else shrink_chunks bad (chunk div 2) failing' progress')
      else (failing, progress))"

declare shrink_chunks.simps [simp del]

text \<open>What one position loop and one round keep, and that progress means a shorter sequence.\<close>

definition shrinks :: "('a list \<Rightarrow> bool) \<Rightarrow> 'a list \<Rightarrow> bool \<Rightarrow> 'a list \<Rightarrow> bool \<Rightarrow> bool" where
  "shrinks bad xs p ys q \<longleftrightarrow> subseq ys xs \<and> (bad xs \<longrightarrow> bad ys) \<and> (p \<longrightarrow> q) \<and>
     (ys = xs \<or> q \<and> length ys < length xs) \<and> (q \<and> \<not> p \<longrightarrow> length ys < length xs)"

lemma shrinks_refl: "shrinks bad xs p xs p"
  by (auto simp: shrinks_def)

lemma shrinks_trans: "shrinks bad xs p ys q \<Longrightarrow> shrinks bad ys q zs r \<Longrightarrow> shrinks bad xs p zs r"
  unfolding shrinks_def by (meson less_trans subseq_order.trans)

lemma candidate_subseq: "subseq (candidate i chunk xs) xs"
proof -
  have "suffix (drop (i + chunk) xs) (drop i xs)" by (metis add.commute drop_drop suffix_drop)
  then have "subseq (take i xs @ drop (i + chunk) xs) (take i xs @ drop i xs)"
    by (intro list_emb_append_mono) (auto intro: suffix_imp_subseq)
  then show ?thesis by (simp add: candidate_def)
qed

lemma candidate_shrinks:
  "bad (candidate i chunk xs) \<Longrightarrow> 1 \<le> chunk \<Longrightarrow> i + chunk \<le> length xs \<Longrightarrow>
   shrinks bad xs p (candidate i chunk xs) True"
  using candidate_subseq [of i chunk xs] by (auto simp: shrinks_def candidate_def)

lemma shrink_at_shrinks: "shrink_at bad chunk i xs p = (ys, q) \<Longrightarrow> shrinks bad xs p ys q"
proof (induction bad chunk i xs p rule: shrink_at.induct)
  case (1 bad chunk i xs p)
  show ?case
  proof (cases "chunk \<ge> 1 \<and> i + chunk \<le> length xs")
    case in_range: True
    show ?thesis
    proof (cases "candidate i chunk xs \<noteq> [] \<and> bad (candidate i chunk xs)")
      case True
      then have "shrinks bad (candidate i chunk xs) True ys q"
        using 1 in_range shrink_at_cases(1) by metis
      then show ?thesis using candidate_shrinks [of bad i chunk xs p] True in_range shrinks_trans by blast
    next
      case False
      then show ?thesis using 1 in_range shrink_at_cases(2) by metis
    qed
  next
    case False
    then show ?thesis using 1(3) shrinks_refl shrink_at_cases(3) [OF False] by simp
  qed
qed

lemma shrink_chunks_shrinks: "shrink_chunks bad chunk xs p = (ys, q) \<Longrightarrow> shrinks bad xs p ys q"
proof (induction bad chunk xs p arbitrary: ys q rule: shrink_chunks.induct)
  case (1 bad chunk xs p)
  obtain zs r where zs: "shrink_at bad chunk 0 xs p = (zs, r)" by (cases "shrink_at bad chunk 0 xs p")
  note s = shrink_at_shrinks [OF zs]
  show ?case
    using 1 zs s shrinks_refl [of bad xs p] shrinks_trans [OF s]
    by (auto simp: shrink_chunks.simps [of bad chunk xs p] split: if_splits)
qed

lemma shrink_progress: "shrink_chunks bad chunk xs False = (ys, True) \<Longrightarrow> length ys < length xs"
  using shrink_chunks_shrinks by (force simp: shrinks_def)

function shrink_by :: "('a list \<Rightarrow> bool) \<Rightarrow> 'a list \<Rightarrow> 'a list" where
  "shrink_by bad failing =
     (if length failing > 1
      then (case shrink_chunks bad (length failing div 2) failing False of
          (failing', progress) \<Rightarrow> if progress then shrink_by bad failing' else failing')
      else failing)"
  by pat_completeness auto
termination
  by (relation "measure (\<lambda>(bad, xs). length xs)") (auto dest: shrink_progress [OF sym])

declare shrink_by.simps [simp del]

text \<open>The instance of the harness; a run that aborts or hangs is not a candidate it could return.\<close>

definition shrink :: "op list \<Rightarrow> config \<Rightarrow> op list" where
  "shrink failing cfg = shrink_by (\<lambda>ops. diverges ops cfg = Some True) failing"

subsection \<open>A pass without progress has tried every removal\<close>

lemma shrink_at_stuck:
  "shrink_at bad chunk i xs p = (ys, False) \<Longrightarrow> 1 \<le> chunk \<Longrightarrow> i \<le> j \<Longrightarrow> j + chunk \<le> length xs \<Longrightarrow>
   candidate j chunk xs = [] \<or> \<not> bad (candidate j chunk xs)"
proof (induction bad chunk i xs p rule: shrink_at.induct)
  case (1 bad chunk i xs p)
  have r: "chunk \<ge> 1 \<and> i + chunk \<le> length xs" using "1.prems" by simp
  show ?case
  proof (cases "candidate i chunk xs \<noteq> [] \<and> bad (candidate i chunk xs)")
    case True
    then have "shrink_at bad chunk i (candidate i chunk xs) True = (ys, False)"
      using "1.prems"(1) shrink_at_cases(1) [where bad = bad, OF r True] by simp
    then show ?thesis using shrink_at_shrinks by (force simp: shrinks_def)
  next
    case False
    then have "shrink_at bad chunk (i + 1) xs p = (ys, False)"
      using "1.prems"(1) shrink_at_cases(2) [where bad = bad, OF r False] by simp
    then show ?thesis using "1.IH"(2) [OF r False] "1.prems" False by (cases "i = j") auto
  qed
qed

lemma shrink_chunks_stuck:
  "shrink_chunks bad chunk xs p = (ys, False) \<Longrightarrow> 1 \<le> chunk \<Longrightarrow>
   ys = xs \<and> (\<forall>j < length xs. candidate j 1 xs = [] \<or> \<not> bad (candidate j 1 xs))"
proof (induction bad chunk xs p arbitrary: ys rule: shrink_chunks.induct)
  case (1 bad chunk xs p)
  obtain zs r where zs: "shrink_at bad chunk 0 xs p = (zs, r)" by (cases "shrink_at bad chunk 0 xs p")
  show ?case
  proof (cases "chunk = 1")
    case True
    then have e: "zs = ys" "r = False"
      using "1.prems" zs unfolding shrink_chunks.simps [of bad chunk xs p] by auto
    then have "ys = xs" using shrink_at_shrinks [OF zs] by (auto simp: shrinks_def)
    then show ?thesis using shrink_at_stuck [of bad chunk 0 xs p ys] zs e True by auto
  next
    case False
    then have sc: "shrink_chunks bad (chunk div 2) zs r = (ys, False)"
      using "1.prems" zs by (simp add: shrink_chunks.simps [of bad chunk xs p])
    then have "r = False" using shrink_chunks_shrinks by (force simp: shrinks_def)
    then have "zs = xs" using shrink_at_shrinks [OF zs] by (auto simp: shrinks_def)
    then show ?thesis using "1.IH" [OF "1.prems"(2) zs [symmetric] False sc] False "1.prems"(2) by simp
  qed
qed

lemma shrink_by_spec:
  "subseq (shrink_by bad xs) xs \<and> (bad xs \<longrightarrow> bad (shrink_by bad xs)) \<and>
   (\<forall>j < length (shrink_by bad xs). length (shrink_by bad xs) > 1 \<longrightarrow> \<not> bad (candidate j 1 (shrink_by bad xs)))"
proof (induction bad xs rule: shrink_by.induct)
  case (1 bad xs)
  show ?case
  proof (cases "length xs > 1")
    case False
    then show ?thesis by (simp add: shrink_by.simps [of bad xs])
  next
    case long: True
    obtain ys q where ys: "shrink_chunks bad (length xs div 2) xs False = (ys, q)"
      by (cases "shrink_chunks bad (length xs div 2) xs False")
    note s = shrink_chunks_shrinks [OF ys, unfolded shrinks_def]
    show ?thesis
    proof (cases q)
      case True
      then show ?thesis using 1 [OF long ys [symmetric]] s long ys
        by (auto simp: shrink_by.simps [of bad xs] intro: subseq_order.trans)
    next
      case False
      then have "ys = xs" "\<forall>j < length xs. candidate j 1 xs = [] \<or> \<not> bad (candidate j 1 xs)"
        using shrink_chunks_stuck [of bad "length xs div 2" xs False ys] ys long by auto
      moreover have "candidate j 1 xs \<noteq> []" if "j < length xs" for j
      proof -
        have "length (candidate j 1 xs) = length xs - 1" using that by (simp add: candidate_def)
        then show ?thesis using long by auto
      qed
      ultimately show ?thesis using False ys long by (simp add: shrink_by.simps [of bad xs])
    qed
  qed
qed

text \<open>
  (C21) Shrinking terminates for every divergence test and every input, returns a subsequence of the
  failing operations that still fails, and is minimal: unless one operation is left, dropping any
  single operation from the result makes the failure disappear.
\<close>

theorem shrink_minimal:
  assumes "xs = shrink_by bad failing"
  shows "subseq xs failing \<and> (bad failing \<longrightarrow> bad xs) \<and>
    (length xs > 1 \<longrightarrow> (\<forall>j < length xs. \<not> bad (take j xs @ drop (Suc j) xs)))"
  using shrink_by_spec [of bad failing] unfolding assms by (simp add: candidate_def)

theorem shrink_minimal_witness:
  "shrink_by (\<lambda>xs. {(2::nat), 5} \<subseteq> set xs) [1, 2, 3, 4, 5] = [2, 5] \<and> subseq [(2::nat), 5] [1, 2, 3, 4, 5] \<and>
   \<not> {2, 5} \<subseteq> set (take 0 [(2::nat), 5] @ drop (Suc 0) [2, 5])"
proof -
  have run: "shrink_by (\<lambda>xs. {(2::nat), 5} \<subseteq> set xs) [1, 2, 3, 4, 5] = [2, 5]"
    by (simp add: shrink_by.simps shrink_chunks.simps shrink_at.simps candidate_def)
  then show ?thesis using shrink_minimal [OF run [symmetric]] by auto
qed

end
