(* ===== verification/Diff_Fuzzer.thy ===== *)
theory Diff_Fuzzer
  imports Diff_Generator Reproducer Shrink
begin

section \<open>The differential fuzzer (\<^verbatim>\<open>tests/difftest_main.cpp\<close>)\<close>

text \<open>
  The program that runs the harness on random sequences: its command line, the rotation of self-trade policies, price windows and
  pool sizes with the seed, and what it prints. A result is the exit code with the text on standard output; \<open>None\<close> is a run
  that is aborted by a failed check or does not return.
\<close>

subsection \<open>Model\<close>

definition engine_config :: "self_trade_policy \<Rightarrow> config" where
  "engine_config pol = default_config\<lparr>self_trade := pol, trade_capacity := push_bit 16 1\<rparr>"

definition policies :: "self_trade_policy list" where
  "policies = [CancelResting, Allow, CancelIncoming]"

definition windows :: "(64 word \<times> price option) list" where
  "windows = [(price_levels default_config, None), (3, Some 999), (1, None), (4, None), (0, None)]"

definition fuzz_config :: "64 word \<Rightarrow> config" where
  "fuzz_config seed =
     (let engine = engine_config (policies ! unat (seed mod 3));
          (levels, base) = windows ! unat (seed div 3 mod of_nat (length windows));
          engine1 = engine\<lparr>price_levels := levels, price_base := base\<rparr>
      in if seed div 15 mod 2 \<noteq> 0 then engine1\<lparr>expected_orders := 1\<rparr> else engine1)"

text \<open>The argument \<open>argv[i + 1]\<close> as a number, or its default.\<close>

definition numeric_argument :: "string list \<Rightarrow> nat \<Rightarrow> 64 word \<Rightarrow> 64 word" where
  "numeric_argument args i d = (if i < length args then strtoull (args ! i) else d)"

definition divergence_text :: "64 word \<Rightarrow> op list \<Rightarrow> op list \<Rightarrow> config \<Rightarrow> string" where
  "divergence_text seed ops minimal engine =
     eol @ ''DIVERGENCE at seed '' @ to_string (unat seed) @ '': shrunk '' @ to_string (length ops) @ '' ops -> '' @
     to_string (length minimal) @ eol @ format minimal engine @ eol"

definition progress_text :: "nat \<Rightarrow> nat \<Rightarrow> string" where
  "progress_text i n = (if (i + 1) mod 25000 = 0 then ''  '' @ to_string (i + 1) @ ''/'' @ to_string n @ '' clean'' @ eol else [])"

text \<open>The loop from sequence \<open>i\<close> on; \<open>todo\<close> is \<open>n - i\<close>.\<close>

fun fuzz_loop :: "64 word \<Rightarrow> gen_config \<Rightarrow> nat \<Rightarrow> nat \<Rightarrow> nat \<Rightarrow> (nat \<times> string) option" where
  "fuzz_loop first_seed cfg n i 0 = Some (0, ''all '' @ to_string n @ '' sequences agree'' @ eol)"
| "fuzz_loop first_seed cfg n i (Suc todo) =
     do {
       let seed = first_seed + of_nat i;
       let engine = fuzz_config seed;
       ops \<leftarrow> generate_sequence seed cfg;
       bad \<leftarrow> diverges ops engine;
       if bad then Some (1, divergence_text seed ops (shrink ops engine) engine)
       else do {
         (code, out) \<leftarrow> fuzz_loop first_seed cfg n (i + 1) todo;
         Some (code, progress_text i n @ out)
       }
     }"

definition difftest_main :: "string list \<Rightarrow> (nat \<times> string) option" where
  "difftest_main args =
     (let count = numeric_argument args 0 100000;
          first_seed = numeric_argument args 1 1;
          len = numeric_argument args 2 40;
          cfg = default_gen\<lparr>gc_length := unat len\<rparr>
      in map_option
           (\<lambda>(code, out). (code, ''running '' @ to_string (unat count) @ '' sequences x '' @ to_string (unat len) @ '' ops, seeds '' @
              to_string (unat first_seed) @ ''..'' @ to_string (unat (first_seed + count - 1)) @ eol @ out))
           (fuzz_loop first_seed cfg (unat count) 0 (unat count)))"

subsection \<open>The rotation\<close>

lemma fuzz_config_fields: "expected_orders (fuzz_config seed) \<le> 1" "trade_capacity (fuzz_config seed) = 2 ^ 16"
  by (auto simp: fuzz_config_def engine_config_def default_config_def Let_def split: prod.splits)

lemma fuzz_config_allocatable: "allocatable (fuzz_config seed)"
proof -
  have "unat (seed div 3 mod of_nat (length windows)) < length windows" by (simp add: windows_def unat_mod)
  then have "fst (windows ! unat (seed div 3 mod of_nat (length windows))) \<in> fst ` set windows" by (intro imageI nth_mem)
  then have "fst (windows ! unat (seed div 3 mod of_nat (length windows))) < 2 ^ 59"
    by (auto simp: windows_def default_config_def)
  then show ?thesis
    by (auto simp: allocatable_def fuzz_config_def engine_config_def default_config_def Let_def split: prod.split)
qed

text \<open>The indices into the two tables are in range.\<close>

lemma rotation_in_range:
  "unat (seed mod 3) < length policies" "unat (seed div 3 mod of_nat (length windows)) < length windows" for seed :: "64 word"
  by (simp_all add: policies_def windows_def unat_mod)

lemma rotation_index:
  assumes "pol < 3" and "w < 5" and "e < 2"
  shows "\<exists>seed<30. unat (of_nat seed mod 3 :: 64 word) = pol \<and> unat (of_nat seed div 3 mod 5 :: 64 word) = w \<and>
    unat (of_nat seed div 15 mod 2 :: 64 word) = e"
proof -
  have small: "unat (of_nat s mod 3 :: 64 word) = s mod 3 \<and> unat (of_nat s div 3 mod 5 :: 64 word) = s div 3 mod 5 \<and>
      unat (of_nat s div 15 mod 2 :: 64 word) = s div 15 mod 2" if "s < 30" for s :: nat
    using that by (simp add: unat_mod unat_div unat_of_nat)
  define q where "q = w + 5 * e"
  have q: "q mod 5 = w" "q div 5 = e" "q < 10" using assms by (simp_all add: q_def)
  define s where "s = pol + 3 * q"
  have s: "s mod 3 = pol" "s div 3 = q" "s < 30" using assms(1) q(3) by (simp_all add: s_def)
  have "s div 15 = q div 5" using div_mult2_eq [of s 3 5] by (simp add: s(2))
  then have "unat (of_nat s mod 3 :: 64 word) = pol" "unat (of_nat s div 3 mod 5 :: 64 word) = w" "unat (of_nat s div 15 mod 2 :: 64 word) = e"
    using small [OF s(3)] s q assms(3) by simp_all
  then show ?thesis using s(3) by blast
qed

text \<open>Every policy meets every window and both pool sizes: the 30 combinations are the configurations of the seeds \<open>0\<close> to \<open>29\<close>.\<close>

lemma table_lengths: "length policies = 3" "length windows = 5"
  by (simp_all add: policies_def windows_def)

lemma rotation_complete:
  assumes "pol \<in> set policies" and "(levels, base) \<in> set windows" and "e \<in> {0, 1}"
  shows "\<exists>seed<30. fuzz_config (of_nat seed) = (engine_config pol)\<lparr>price_levels := levels, price_base := base, expected_orders := e\<rparr>"
proof -
  obtain i where i: "i < 3" "pol = policies ! i" using assms(1) unfolding in_set_conv_nth by (metis table_lengths(1))
  obtain j where j: "j < 5" "(levels, base) = windows ! j" using assms(2) unfolding in_set_conv_nth by (metis table_lengths(2))
  define n where "n = unat e"
  have n: "n < 2" "e = of_nat n" "n = 0 \<longleftrightarrow> e = 0" using assms(3) by (auto simp: n_def)
  from rotation_index [OF i(1) j(1) n(1)] obtain seed where seed: "seed < 30" "unat (of_nat seed mod 3 :: 64 word) = i"
      "unat (of_nat seed div 3 mod 5 :: 64 word) = j" "unat (of_nat seed div 15 mod 2 :: 64 word) = n" by blast
  have "(of_nat seed div 15 mod 2 :: 64 word) \<noteq> 0 \<longleftrightarrow> e \<noteq> 0" unfolding n(3) [symmetric] seed(4) [symmetric] unat_eq_0 ..
  moreover have "(of_nat (length windows) :: 64 word) = 5" by (simp add: table_lengths)
  moreover have "expected_orders (engine_config pol) = 0" by (simp add: engine_config_def default_config_def)
  ultimately have "fuzz_config (of_nat seed) = (engine_config pol)\<lparr>price_levels := levels, price_base := base, expected_orders := e\<rparr>"
    using seed(2,3) i(2) j(2) [symmetric] assms(3)
    by (cases "engine_config pol") (auto simp: fuzz_config_def Let_def)
  then show ?thesis using seed(1) by blast
qed

subsection \<open>The fuzzer never reports a divergence\<close>

lemma fuzz_round:
  assumes "len \<le> 2 ^ 16"
  shows "\<exists>ops. generate_sequence seed (default_gen\<lparr>gc_length := len\<rparr>) = Some ops \<and> length ops = len \<and>
    diverges ops (fuzz_config seed) = Some False"
proof -
  obtain ops where ops: "generate_sequence seed (default_gen\<lparr>gc_length := len\<rparr>) = Some ops" "length ops = len"
    using generate_sequence_spec [of "default_gen\<lparr>gc_length := len\<rparr>" seed] assms by (auto simp: default_gen_def word_le_nat_alt)
  have "allocatable (fuzz_config seed)" by (rule fuzz_config_allocatable)
  moreover have "length ops \<le> 2 ^ 31" using ops(2) assms by simp
  moreover have "\<not> 2 ^ 16 < length (obs_trades (run_reference ops (self_trade (fuzz_config seed))))"
    using reference_trades [of ops "self_trade (fuzz_config seed)"] ops(2) assms by simp
  ultimately show ?thesis using verdict [of ops "fuzz_config seed"] fuzz_config_fields(2) ops by simp
qed

lemma fuzz_loop_clean:
  assumes "len \<le> 2 ^ 16"
  shows "fuzz_loop first_seed (default_gen\<lparr>gc_length := len\<rparr>) n i todo =
    Some (0, concat (map (\<lambda>j. progress_text j n) [i..<i + todo]) @ ''all '' @ to_string n @ '' sequences agree'' @ eol)"
proof (induction todo arbitrary: i)
  case (Suc todo)
  obtain ops where ops: "generate_sequence (first_seed + of_nat i) (default_gen\<lparr>gc_length := len\<rparr>) = Some ops"
      "diverges ops (fuzz_config (first_seed + of_nat i)) = Some False"
    using fuzz_round [OF assms] by blast
  have "[i..<i + Suc todo] = i # [i + 1..<i + 1 + todo]" by (simp add: upt_conv_Cons del: upt_Suc)
  then show ?case using Suc.IH [of "i + 1"] ops by (simp add: Let_def del: upt_Suc)
qed simp

text \<open>
  (C14) The fuzzer never cries wolf, and never finds anything. For every command line that asks for sequences of at most 65536 operations,
  whatever the number of sequences and the first seed, and also when the seeds wrap, \<^verbatim>\<open>main\<close> returns 0: every sequence is
  generated, every run of the engine passes its checks, no comparison fails, and the output is the first line, the progress lines, and
  the line that says that all sequences agree. At most 65536, because the ring of the harness has that many places and
  a sequence prints at most one trade per operation.
\<close>

theorem fuzzer_always_clean:
  assumes "numeric_argument args 2 40 \<le> 2 ^ 16"
  shows "\<exists>first. difftest_main args =
    Some (0, first @ concat (map (\<lambda>j. progress_text j (unat (numeric_argument args 0 100000))) [0..<unat (numeric_argument args 0 100000)]) @
      ''all '' @ to_string (unat (numeric_argument args 0 100000)) @ '' sequences agree'' @ eol)"
proof -
  have "unat (numeric_argument args 2 40) \<le> 2 ^ 16" using assms by (simp add: word_le_nat_alt)
  from fuzz_loop_clean [OF this] show ?thesis by (simp add: difftest_main_def Let_def del: upt_Suc)
qed

theorem fuzzer_always_clean_witness:
  "\<exists>first. difftest_main [''2'', ''9''] = Some (0, first @ ''all 2 sequences agree'' @ eol)"
proof -
  have args: "numeric_argument [''2'', ''9''] 0 100000 = 2" "numeric_argument [''2'', ''9''] 2 40 \<le> 2 ^ 16"
    by (simp_all add: numeric_argument_def strtoull_def signed_digits_def is_space_def is_digit_def of_digits_def)
  have two: "unat (2 :: 64 word) = 2" "to_string 2 = ''2''" "concat (map (\<lambda>j. progress_text j 2) [0..<2]) = []"
    by (simp_all add: to_string.simps char_of_eq_iff progress_text_def upt_rec)
  from fuzzer_always_clean [OF args(2)] show ?thesis unfolding args(1) two by simp
qed

end
