(* ===== verification/Asan_Pool.thy ===== *)
theory Asan_Pool
  imports Order_Queue
begin

section \<open>The slot pool under AddressSanitizer\<close>

text \<open>
  The build of \<^verbatim>\<open>lob::SlotPool\<close> with \<^verbatim>\<open>LOB_ASAN\<close>: released slots are poisoned, and any read or write of a poisoned slot is
  reported and ends the program. A pool is the pool of \<^verbatim>\<open>Slot_Pool\<close> with the set of its poisoned slots; an operation is
  translated access by access, and yields \<open>Inl i\<close> when slot \<open>i\<close> is accessed while poisoned. \<open>fill\<close> is the value with which a build
  without \<^verbatim>\<open>NDEBUG\<close> overwrites a released element. New memory is not poisoned.
\<close>

subsection \<open>Model: accesses\<close>

text \<open>What the preprocessor finds: the macro of GCC, or Clang's \<^verbatim>\<open>__has_feature\<close> and its answer.\<close>

definition kAsan :: "bool \<Rightarrow> bool option \<Rightarrow> bool" where
  "kAsan sanitize_address has_feature = (if sanitize_address then True else has_feature = Some True)"

record 'a asan_pool =
  ap_pool :: "'a slot_pool"
  ap_poisoned :: "slot_index set"

type_synonym 'x asan = "slot_index + 'x"

definition bind_asan :: "'x asan \<Rightarrow> ('x \<Rightarrow> 'y asan) \<Rightarrow> 'y asan" where
  "bind_asan m k = (case m of Inl i \<Rightarrow> Inl i | Inr x \<Rightarrow> k x)"

definition poison :: "slot_index \<Rightarrow> 'a asan_pool \<Rightarrow> 'a asan_pool" where
  "poison i A = A\<lparr>ap_poisoned := insert i (ap_poisoned A)\<rparr>"

definition unpoison :: "slot_index \<Rightarrow> 'a asan_pool \<Rightarrow> 'a asan_pool" where
  "unpoison i A = A\<lparr>ap_poisoned := ap_poisoned A - {i}\<rparr>"

definition unpoison_all :: "'a asan_pool \<Rightarrow> 'a asan_pool" where
  "unpoison_all A =
     (if slots (ap_pool A) \<noteq> [] then A\<lparr>ap_poisoned := {i \<in> ap_poisoned A. unat i \<ge> length (slots (ap_pool A))}\<rparr> else A)"

definition read_slot :: "slot_index \<Rightarrow> 'a asan_pool \<Rightarrow> 'a slot asan" where
  "read_slot i A = (if i \<in> ap_poisoned A then Inl i else Inr (slot_at (ap_pool A) i))"

definition write_slot :: "slot_index \<Rightarrow> ('a slot \<Rightarrow> 'a slot) \<Rightarrow> 'a asan_pool \<Rightarrow> 'a asan_pool asan" where
  "write_slot i f A = (if i \<in> ap_poisoned A then Inl i else Inr (A\<lparr>ap_pool := upd_slot i f (ap_pool A)\<rparr>))"

text \<open>A change of members other than the slots.\<close>

definition on_pool :: "('a slot_pool \<Rightarrow> 'a slot_pool) \<Rightarrow> 'a asan_pool \<Rightarrow> 'a asan_pool" where
  "on_pool f A = A\<lparr>ap_pool := f (ap_pool A)\<rparr>"

subsection \<open>Model: operations\<close>

definition asan_new :: "'a \<Rightarrow> nat \<Rightarrow> 'a asan_pool" where
  "asan_new d capacity = \<lparr>ap_pool = pool_new d capacity, ap_poisoned = {}\<rparr>"

text \<open>Growing copies every slot of the block.\<close>

definition asan_grow :: "'a \<Rightarrow> 'a asan_pool \<Rightarrow> (unit, 'a asan_pool) run asan" where
  "asan_grow d A =
     (let size = length (slots (ap_pool A)) in
      if size \<ge> unat kNoSlot then Inr (throw Length_error A)
      else case find (\<lambda>i. i \<in> ap_poisoned A) (map of_nat [0..<size]) of
          Some i \<Rightarrow> Inl i
        | None \<Rightarrow> Inr (bind_run (pool_grow d (ap_pool A)) (\<lambda>u P. ret u (A\<lparr>ap_pool := P\<rparr>)) (\<lambda>P. A\<lparr>ap_pool := P\<rparr>)))"

definition reset_links :: "'a slot \<Rightarrow> 'a slot" where
  "reset_links s = s\<lparr>slot_prev := kNoSlot, slot_next := kNoSlot\<rparr>"

text \<open>The common end: reset the links of slot \<open>i\<close> and count it as live.\<close>

definition asan_hand_out :: "slot_index \<Rightarrow> 'a asan_pool \<Rightarrow> (slot_index, 'a asan_pool) run asan" where
  "asan_hand_out i A =
     bind_asan (write_slot i reset_links A) (\<lambda>A1. Inr (ret i (on_pool (\<lambda>P. P\<lparr>pool_live := pool_live P + 1\<rparr>) A1)))"

definition asan_acquire :: "'a \<Rightarrow> 'a asan_pool \<Rightarrow> (slot_index, 'a asan_pool) run asan" where
  "asan_acquire d A =
     (if free_head (ap_pool A) \<noteq> kNoSlot
      then let i = free_head (ap_pool A); A1 = unpoison i A in
        bind_asan (read_slot i A1) (\<lambda>s. asan_hand_out i (on_pool (\<lambda>P. P\<lparr>free_head := slot_next s\<rparr>) A1))
      else
        bind_asan (if pool_used (ap_pool A) = length (slots (ap_pool A)) then asan_grow d A else Inr (ret () A))
          (\<lambda>m. case m of
             Some (Inr _, A1) \<Rightarrow>
               (let i = of_nat (pool_used (ap_pool A1)) in
                asan_hand_out i (on_pool (\<lambda>P. P\<lparr>pool_used := pool_used P + 1\<rparr>) A1))
           | Some (Inl e, A1) \<Rightarrow> Inr (throw e A1)
           | None \<Rightarrow> Inr None))"

definition asan_release :: "'a option \<Rightarrow> slot_index \<Rightarrow> 'a asan_pool \<Rightarrow> 'a asan_pool asan" where
  "asan_release fill i A =
     bind_asan (case fill of None \<Rightarrow> Inr A | Some v \<Rightarrow> write_slot i (\<lambda>s. s\<lparr>slot_value := v\<rparr>) A) (\<lambda>A1.
       bind_asan (write_slot i (\<lambda>s. s\<lparr>slot_prev := kNoSlot, slot_next := free_head (ap_pool A1)\<rparr>) A1) (\<lambda>A2.
         Inr (poison i (on_pool (\<lambda>P. P\<lparr>free_head := i, pool_live := pool_live P - 1\<rparr>) A2))))"

text \<open>The loop of \<^verbatim>\<open>consistent()\<close> lifts the poison of each free slot while it reads the link.\<close>

function asan_consistent_loop :: "slot_index \<Rightarrow> nat \<Rightarrow> 'a asan_pool \<Rightarrow> (bool \<times> 'a asan_pool) asan" where
  "asan_consistent_loop i c A =
     (if i = kNoSlot then Inr (c + pool_live (ap_pool A) = pool_used (ap_pool A), A)
      else if unat i \<ge> pool_used (ap_pool A) \<or> c + 1 > pool_used (ap_pool A) then Inr (False, A)
      else
        (case read_slot i (unpoison i A) of
           Inl j \<Rightarrow> Inl j
         | Inr s \<Rightarrow> asan_consistent_loop (slot_next s) (c + 1) (poison i (unpoison i A))))"
  by pat_completeness auto
termination
  by (relation "measure (\<lambda>(i, c, A). pool_used (ap_pool A) - c)") (auto simp: poison_def unpoison_def)

declare asan_consistent_loop.simps [simp del]

definition asan_consistent :: "'a asan_pool \<Rightarrow> (bool \<times> 'a asan_pool) asan" where
  "asan_consistent A = asan_consistent_loop (free_head (ap_pool A)) 0 A"

subsection \<open>The poisoned slots are the free ones\<close>

definition asan_inv :: "'a asan_pool \<Rightarrow> bool" where
  "asan_inv A \<longleftrightarrow> pool_inv (ap_pool A) \<and> ap_poisoned A = set (free_list (ap_pool A))"

lemma bind_asan_simps [simp]: "bind_asan (Inl i) k = Inl i" "bind_asan (Inr x) k = k x"
  by (simp_all add: bind_asan_def)

lemma case_run:
  "(case ret a s of None \<Rightarrow> x | Some y \<Rightarrow> g y) = g (Inr a, s)"
  "(case throw e s of None \<Rightarrow> x | Some y \<Rightarrow> g y) = g (Inl e, s)"
  by (simp_all add: ret_def throw_def)

lemma asan_fields [simp]:
  "ap_pool (poison i A) = ap_pool A" "ap_pool (unpoison i A) = ap_pool A" "ap_pool (on_pool f A) = f (ap_pool A)"
  "ap_poisoned (poison i A) = insert i (ap_poisoned A)" "ap_poisoned (unpoison i A) = ap_poisoned A - {i}"
  "ap_poisoned (on_pool f A) = ap_poisoned A"
  by (simp_all add: poison_def unpoison_def on_pool_def)

lemma poison_unpoison: "i \<in> ap_poisoned A \<Longrightarrow> poison i (unpoison i A) = A"
  by (cases A) (auto simp: poison_def unpoison_def)

lemma asan_new_inv: "asan_inv (asan_new d n)" "live_slots (ap_pool (asan_new d n)) = {}"
  using pool_new_inv [of d n] by (simp_all add: asan_inv_def asan_new_def)

text \<open>The unpoisoned slots that have been handed out are the live ones.\<close>

lemma asan_poisoned_iff: "asan_inv A \<Longrightarrow> unat i < pool_used (ap_pool A) \<Longrightarrow> i \<in> ap_poisoned A \<longleftrightarrow> i \<notin> live_slots (ap_pool A)"
  by (auto simp: asan_inv_def live_slots_def)

lemma asan_live_unpoisoned: "asan_inv A \<Longrightarrow> i \<in> live_slots (ap_pool A) \<Longrightarrow> i \<notin> ap_poisoned A"
  by (auto simp: asan_inv_def live_slots_def)

lemma asan_grow_clean:
  "asan_grow d \<lparr>ap_pool = P, ap_poisoned = {}\<rparr> =
     Inr (bind_run (pool_grow d P) (\<lambda>u P. ret u \<lparr>ap_pool = P, ap_poisoned = {}\<rparr>) (\<lambda>P. \<lparr>ap_pool = P, ap_poisoned = {}\<rparr>))"
  by (auto simp: asan_grow_def Let_def pool_grow_def find_None_iff split: option.split dest!: find_Some_member)

lemma asan_acquire_inv:
  assumes inv: "asan_inv A" and room: "pool_live (ap_pool A) < 4294967295"
  shows "\<exists>i P'. acquire d (ap_pool A) = ret i P' \<and>
    asan_acquire d A = Inr (ret i (A\<lparr>ap_pool := P', ap_poisoned := ap_poisoned A - {i}\<rparr>)) \<and>
    asan_inv (A\<lparr>ap_pool := P', ap_poisoned := ap_poisoned A - {i}\<rparr>)"
proof -
  note p = inv [unfolded asan_inv_def, THEN conjunct1]
  show ?thesis
  proof (cases "free_list (ap_pool A)")
    case (Cons i fs)
    have head: "free_head (ap_pool A) = i" "i \<noteq> kNoSlot" using pool_invD(1) [OF p] by (auto simp: free_chain_def Cons)
    obtain P' where P': "acquire d (ap_pool A) = ret i P'" "pool_inv P'" "free_list P' = fs"
      using acquire_recycled [OF p Cons, of d] by blast
    have fs: "set fs = ap_poisoned A - {i}" using inv pool_invD(7) [OF p] by (auto simp: asan_inv_def Cons)
    have "asan_acquire d A = Inr (ret i (A\<lparr>ap_pool := P', ap_poisoned := ap_poisoned A - {i}\<rparr>))"
      using P'(1) head by (cases A) (auto simp: acquire_def asan_acquire_def Let_def read_slot_def write_slot_def asan_hand_out_def
        on_pool_def unpoison_def hand_out_def reset_links_def upd_slot_def)
    then show ?thesis using P' fs by (auto simp: asan_inv_def)
  next
    case Nil
    then have none: "ap_poisoned A = {}" using inv by (simp add: asan_inv_def)
    have head: "free_head (ap_pool A) = kNoSlot" using pool_invD(1) [OF p] by (auto simp: free_chain_def Nil)
    obtain i P' where P': "acquire d (ap_pool A) = ret i P'" "pool_inv P'" "free_list P' = []"
      using acquire_extends [OF p Nil room, of d] by blast
    have "asan_acquire d A = Inr (ret i (A\<lparr>ap_pool := P', ap_poisoned := ap_poisoned A - {i}\<rparr>))"
      using P'(1) head none
      by (cases A) (auto simp: acquire_def asan_acquire_def asan_grow_clean Let_def write_slot_def asan_hand_out_def pool_grow_def
        on_pool_def hand_out_def reset_links_def upd_slot_def case_run split: if_splits)
    then show ?thesis using P' none by (auto simp: asan_inv_def)
  qed
qed

lemma pool_free_live: "pool_inv P \<Longrightarrow> set (free_list P) = {i. unat i < pool_used P} - live_slots P"
  using pool_invD(3) [of P] by (auto simp: live_slots_def)

lemma asan_write_inv:
  assumes "asan_inv A" and "i \<in> live_slots (ap_pool A)"
  shows "write_slot i f A = Inr (A\<lparr>ap_pool := upd_slot i f (ap_pool A)\<rparr>)" "asan_inv (A\<lparr>ap_pool := upd_slot i f (ap_pool A)\<rparr>)"
    "live_slots (upd_slot i f (ap_pool A)) = live_slots (ap_pool A)"
proof -
  have p: "pool_inv (ap_pool A)" using assms(1) by (simp add: asan_inv_def)
  note u = upd_live_inv [OF p assms(2), of f]
  show "live_slots (upd_slot i f (ap_pool A)) = live_slots (ap_pool A)" by (rule u(2))
  show "asan_inv (A\<lparr>ap_pool := upd_slot i f (ap_pool A)\<rparr>)"
    using assms(1) u(2) pool_free_live [OF p] pool_free_live [OF u(1)] u(1) by (simp add: asan_inv_def)
  show "write_slot i f A = Inr (A\<lparr>ap_pool := upd_slot i f (ap_pool A)\<rparr>)"
    using asan_live_unpoisoned [OF assms] by (simp add: write_slot_def)
qed

lemma asan_release_inv:
  assumes inv: "asan_inv A" and i: "i \<in> live_slots (ap_pool A)"
  shows "\<exists>A' P''. asan_release fill i A = Inr A' \<and> asan_inv A' \<and> live_slots (ap_pool A') = live_slots (ap_pool A) - {i} \<and>
    pool_used (ap_pool A') = pool_used (ap_pool A) \<and> (\<forall>j. j \<noteq> i \<longrightarrow> slot_at (ap_pool A') j = slot_at (ap_pool A) j) \<and>
    acquire d (ap_pool A') = ret i P''"
proof -
  have p0: "pool_inv (ap_pool A)" using inv by (simp add: asan_inv_def)
  obtain A1 where A1: "(case fill of None \<Rightarrow> Inr A | Some v \<Rightarrow> write_slot i (\<lambda>s. s\<lparr>slot_value := v\<rparr>) A) = Inr A1" "asan_inv A1"
      "live_slots (ap_pool A1) = live_slots (ap_pool A)" "pool_used (ap_pool A1) = pool_used (ap_pool A)"
      "\<forall>j. j \<noteq> i \<longrightarrow> slot_at (ap_pool A1) j = slot_at (ap_pool A) j"
    using that inv asan_write_inv [OF inv i] upd_live_inv(3) [OF p0 i] by (cases fill) auto
  have p: "pool_inv (ap_pool A1)" using A1(2) by (simp add: asan_inv_def)
  have live: "i \<in> live_slots (ap_pool A1)" using i A1(3) by simp
  note rel = release_inv [OF p live]
  define A' where "A' = A1\<lparr>ap_pool := release i (ap_pool A1), ap_poisoned := insert i (ap_poisoned A1)\<rparr>"
  have "asan_release fill i A = Inr A'"
    unfolding asan_release_def A1(1) using asan_write_inv(1) [OF A1(2) live]
    by (simp add: A'_def poison_def on_pool_def release_def)
  moreover have "asan_inv A'" using rel(1) A1(2) by (simp add: asan_inv_def A'_def)
  moreover obtain P'' where "acquire d (ap_pool A') = ret i P''" using pool.acq_rel [OF p live, of d] by (auto simp: A'_def)
  moreover have "slot_at (ap_pool A') j = slot_at (ap_pool A) j" if "j \<noteq> i" for j using rel(3) [OF that] A1(5) that by (simp add: A'_def)
  moreover have "pool_used (ap_pool A') = pool_used (ap_pool A)" using A1(4) by (simp add: A'_def release_def)
  moreover have "live_slots (ap_pool A') = live_slots (ap_pool A) - {i}" using rel(2) A1(3) by (simp add: A'_def)
  ultimately show ?thesis by blast
qed

text \<open>
  So this build provides the interface of the other, and whatever a client does with it by the rules reports nothing. The
  contract has no place for a report: here it would be an exception, or a release that does nothing.
\<close>

definition asan_acq :: "'a \<Rightarrow> 'a asan_pool \<Rightarrow> (slot_index, 'a asan_pool) run" where
  "asan_acq d A = (case asan_acquire d A of Inl i \<Rightarrow> throw Undefined_behaviour A | Inr m \<Rightarrow> m)"

definition asan_rel :: "'a option \<Rightarrow> slot_index \<Rightarrow> 'a asan_pool \<Rightarrow> 'a asan_pool" where
  "asan_rel fill i A = (case asan_release fill i A of Inl j \<Rightarrow> A | Inr A' \<Rightarrow> A')"

interpretation asan: slot_allocator "asan_acq d" "asan_rel fill" "\<lambda>A. live_slots (ap_pool A)" "\<lambda>A. slot_at (ap_pool A)" asan_inv 4294967295
  for d fill
proof unfold_locales
  fix A :: "'a asan_pool"
  assume inv: "asan_inv A"
  then have p: "pool_inv (ap_pool A)" by (simp add: asan_inv_def)
  assume "card (live_slots (ap_pool A)) < 4294967295"
  then have room: "pool_live (ap_pool A) < 4294967295" using card_live_slots [OF p] by simp
  show "\<exists>i A'. asan_acq d A = ret i A' \<and> i \<notin> live_slots (ap_pool A) \<and> live_slots (ap_pool A') = insert i (live_slots (ap_pool A)) \<and>
      asan_inv A' \<and> (\<forall>j\<in>live_slots (ap_pool A). slot_at (ap_pool A') j = slot_at (ap_pool A) j)"
    using asan_acquire_inv [OF inv room, of d] acquire_spec [OF p room, of d] by (auto simp: asan_acq_def)
next
  fix A :: "'a asan_pool" and i
  assume inv: "asan_inv A" and i: "i \<in> live_slots (ap_pool A)"
  obtain A' P'' where A': "asan_release fill i A = Inr A'" "asan_inv A'" "live_slots (ap_pool A') = live_slots (ap_pool A) - {i}"
      "\<forall>j. j \<noteq> i \<longrightarrow> slot_at (ap_pool A') j = slot_at (ap_pool A) j" "acquire d (ap_pool A') = ret i P''"
    using asan_release_inv [OF inv i, of fill d] by blast
  show "asan_inv (asan_rel fill i A) \<and> live_slots (ap_pool (asan_rel fill i A)) = live_slots (ap_pool A) - {i} \<and>
      (\<forall>j\<in>live_slots (ap_pool A) - {i}. slot_at (ap_pool (asan_rel fill i A)) j = slot_at (ap_pool A) j)"
    using A' by (simp add: asan_rel_def)
  have p': "pool_inv (ap_pool A')" using A'(2) by (simp add: asan_inv_def)
  have "card (live_slots (ap_pool A')) < card (live_slots (ap_pool A))" unfolding A'(3) using i by (intro card_Diff1_less) simp_all
  moreover have "pool_inv (ap_pool A)" using inv by (simp add: asan_inv_def)
  ultimately have "pool_live (ap_pool A') < 4294967295"
    using card_live_slots [OF p'] card_live_slots pool_invD(2,5) [of "ap_pool A"] by fastforce
  from asan_acquire_inv [OF A'(2) this, of d] A'(1,5) show "\<exists>A''. asan_acq d (asan_rel fill i A) = ret i A''"
    by (auto simp: asan_acq_def asan_rel_def)
qed

lemma asan_consistent_chain:
  assumes "chain kNoSlot (\<lambda>i. slot_next (slot_at (ap_pool A) i)) i fs" and "set fs \<subseteq> ap_poisoned A"
    and "\<And>j. j \<in> set fs \<Longrightarrow> unat j < pool_used (ap_pool A)" and "c + length fs + pool_live (ap_pool A) = pool_used (ap_pool A)"
  shows "asan_consistent_loop i c A = Inr (True, A)"
  using assms
proof (induction fs arbitrary: i c)
  case (Cons x fs)
  have "asan_consistent_loop (slot_next (slot_at (ap_pool A) x)) (c + 1) A = Inr (True, A)"
    by (rule Cons.IH) (use Cons.prems in auto)
  moreover have "poison x (unpoison x A) = A" using Cons.prems(2) by (intro poison_unpoison) simp
  moreover have "unat x < pool_used (ap_pool A)" "x \<noteq> kNoSlot" "i = x" using Cons.prems(1,3) by simp_all
  ultimately show ?case using Cons.prems(4)
    by (simp add: asan_consistent_loop.simps [of x] read_slot_def)
qed (simp add: asan_consistent_loop.simps [of kNoSlot])

lemma asan_consistent_inv: "asan_inv A \<Longrightarrow> asan_consistent A = Inr (True, A)"
  unfolding asan_consistent_def
  by (rule asan_consistent_chain [of _ _ "free_list (ap_pool A)"])
    (use pool_invD [of "ap_pool A"] in \<open>auto simp: asan_inv_def free_chain_def\<close>)

text \<open>An access to a slot that is not live is reported.\<close>

lemma asan_double_release: "i \<in> ap_poisoned A \<Longrightarrow> asan_release fill i A = Inl i"
  by (simp add: asan_release_def write_slot_def split: option.split)

subsection \<open>Pools in use\<close>

text \<open>
  A pool that has been used correctly: slots are written and released only while they are in the set \<open>L\<close> of
  slots that the client holds.
\<close>

inductive asan_reaches :: "'a \<Rightarrow> 'a option \<Rightarrow> slot_index set \<Rightarrow> 'a asan_pool \<Rightarrow> bool" for d fill where
  started: "asan_reaches d fill {} (asan_new d n)"
| acquired: "asan_reaches d fill L A \<Longrightarrow> card L < 4294967295 \<Longrightarrow> asan_acquire d A = Inr (ret i A') \<Longrightarrow>
    asan_reaches d fill (insert i L) A'"
| written: "asan_reaches d fill L A \<Longrightarrow> i \<in> L \<Longrightarrow> write_slot i f A = Inr A' \<Longrightarrow> asan_reaches d fill L A'"
| released: "asan_reaches d fill L A \<Longrightarrow> i \<in> L \<Longrightarrow> asan_release fill i A = Inr A' \<Longrightarrow> asan_reaches d fill (L - {i}) A'"
| checked: "asan_reaches d fill L A \<Longrightarrow> asan_consistent A = Inr (b, A') \<Longrightarrow> asan_reaches d fill L A'"

lemma asan_reaches_inv: "asan_reaches d fill L A \<Longrightarrow> asan_inv A \<and> live_slots (ap_pool A) = L"
proof (induction rule: asan_reaches.induct)
  case (acquired L A i A')
  note inv = acquired.IH [THEN conjunct1] and L = acquired.IH [THEN conjunct2]
  have p: "pool_inv (ap_pool A)" using inv by (simp add: asan_inv_def)
  have room: "pool_live (ap_pool A) < 4294967295" using card_live_slots [OF p] acquired.hyps(2) L by simp
  obtain j P' where j: "acquire d (ap_pool A) = ret j P'" "asan_acquire d A = Inr (ret j (A\<lparr>ap_pool := P', ap_poisoned := ap_poisoned A - {j}\<rparr>))"
      "asan_inv (A\<lparr>ap_pool := P', ap_poisoned := ap_poisoned A - {j}\<rparr>)"
    using asan_acquire_inv [OF inv room, of d] by blast
  have same: "j = i" "A' = A\<lparr>ap_pool := P', ap_poisoned := ap_poisoned A - {j}\<rparr>"
    using acquired.hyps(3) unfolding j(2) by auto
  have "live_slots P' = insert j (live_slots (ap_pool A))"
    using acquire_spec [OF p room, of d] j(1) by auto
  then show ?case using j(3) L same by simp
next
  case (written L A i f A')
  note inv = written.IH [THEN conjunct1] and L = written.IH [THEN conjunct2]
  have i: "i \<in> live_slots (ap_pool A)" using written.hyps(2) L by simp
  have "A' = A\<lparr>ap_pool := upd_slot i f (ap_pool A)\<rparr>"
    using written.hyps(3) unfolding asan_write_inv(1) [OF inv i] by (rule Inr_inject [symmetric])
  then show ?case using asan_write_inv(2,3) [OF inv i, of f] L by simp
next
  case (released L A i A')
  note inv = released.IH [THEN conjunct1] and L = released.IH [THEN conjunct2]
  have i: "i \<in> live_slots (ap_pool A)" using released.hyps(2) L by simp
  from asan_release_inv [OF inv i, of fill] released.hyps(3) L show ?case by force
next
  case (checked L A b A')
  have "A' = A" using checked.hyps(2) asan_consistent_inv [OF checked.IH [THEN conjunct1]] by simp
  then show ?case using checked.IH by simp
qed (simp add: asan_new_inv)

text \<open>
  (C15) AddressSanitizer reports stale slots, and only those. In every pool that a client has reached by correct use, whatever
  the capacity it started with and however often it grew, a slot that was handed out is reported when it is read, and when it is released
  again, exactly if the client does not hold it any more; acquiring, releasing a held slot and
  \<^verbatim>\<open>consistent()\<close> never report anything themselves, although they read and write the links of free slots and growing copies the
  block; a new slot is not one that is held; and the destructor leaves no slot poisoned.
\<close>

theorem asan_reports_exactly_stale:
  assumes "asan_reaches d fill L A"
  shows "(\<forall>i. unat i < pool_used (ap_pool A) \<longrightarrow> (read_slot i A = Inl i \<longleftrightarrow> i \<notin> L) \<and> (asan_release fill i A = Inl i \<longleftrightarrow> i \<notin> L)) \<and>
    (\<forall>i\<in>L. read_slot i A = Inr (slot_at (ap_pool A) i) \<and> (\<exists>A'. asan_release fill i A = Inr A')) \<and>
    (card L < 4294967295 \<longrightarrow> (\<exists>i A'. asan_acquire d A = Inr (ret i A') \<and> i \<notin> L)) \<and>
    asan_consistent A = Inr (True, A) \<and> ap_poisoned (unpoison_all A) = {}"
proof -
  have inv: "asan_inv A" "live_slots (ap_pool A) = L" using asan_reaches_inv [OF assms] by simp_all
  have p: "pool_inv (ap_pool A)" using inv(1) by (simp add: asan_inv_def)
  have poisoned: "i \<in> ap_poisoned A \<longleftrightarrow> i \<notin> L" if "unat i < pool_used (ap_pool A)" for i
    using asan_poisoned_iff [OF inv(1) that] inv(2) by simp
  have held: "i \<notin> ap_poisoned A" "\<exists>A'. asan_release fill i A = Inr A'" if "i \<in> L" for i
    using asan_live_unpoisoned [OF inv(1)] asan_release_inv [OF inv(1), of i fill d] that inv(2) by auto
  have "\<exists>i A'. asan_acquire d A = Inr (ret i A') \<and> i \<notin> L" if "card L < 4294967295"
  proof -
    have room: "pool_live (ap_pool A) < 4294967295" using card_live_slots [OF p] inv(2) that by simp
    show ?thesis using asan_acquire_inv [OF inv(1) room, of d] acquire_spec [OF p room, of d] inv(2) by auto
  qed
  moreover have "{i \<in> ap_poisoned A. length (slots (ap_pool A)) \<le> unat i} = {}"
    using inv(1) pool_invD(3,4) [OF p] by (force simp: asan_inv_def)
  then have "ap_poisoned (unpoison_all A) = {}" using pool_invD(6) [OF p] by (simp add: unpoison_all_def)
  moreover have "asan_release fill i A = Inl i \<longleftrightarrow> i \<notin> L" if "unat i < pool_used (ap_pool A)" for i
    using asan_double_release [of i A fill] held(2) [of i] poisoned [OF that] by auto
  ultimately show ?thesis using poisoned held asan_consistent_inv [OF inv(1)] by (auto simp: read_slot_def)
qed

theorem asan_reports_exactly_stale_witness:
  "\<exists>A. asan_reaches (0::nat) (Some 221) {} A \<and> pool_used (ap_pool A) = 1 \<and> read_slot 0 A = Inl 0"
proof -
  define A0 where "A0 = asan_new (0::nat) 1"
  have inv: "asan_inv A0" "pool_live (ap_pool A0) < 4294967295" by (simp_all add: A0_def asan_new_inv) (simp add: asan_new_def pool_new_def)
  have s0: "asan_reaches 0 (Some 221) {} A0" unfolding A0_def by (rule asan_reaches.started)
  obtain i A1 where A1: "asan_acquire 0 A0 = Inr (ret i A1)" "pool_used (ap_pool A1) = 1" "unat i < 1"
    using asan_acquire_inv [OF inv, of 0] acquire_spec [of "ap_pool A0" 0] inv
    by (auto simp: asan_inv_def) (auto simp: A0_def asan_new_def pool_new_def)
  have s1: "asan_reaches 0 (Some 221) {i} A1" using asan_reaches.acquired [OF s0 _ A1(1)] by simp
  obtain A2 where A2: "asan_release (Some 221) i A1 = Inr A2" "pool_used (ap_pool A2) = 1"
    using asan_release_inv [of A1 i "Some 221" 0] asan_reaches_inv [OF s1] A1(2) by auto
  have s2: "asan_reaches 0 (Some 221) {} A2" using asan_reaches.released [OF s1 _ A2(1)] by simp
  show ?thesis using asan_reports_exactly_stale [OF s2] s2 A2(2) by auto
qed

end
