(* ===== verification/Spec2Isabelle.thy ===== *)
theory Spec2Isabelle
  imports Bench_Report Map_Allocator Huge_Pages Diff_Fuzzer Asan_Pool
begin

text \<open>
  Verification of \<^verbatim>\<open>lob\<close>, a limit order book in C++20: the matching engine (\<^verbatim>\<open>include/lob\<close>, \<^verbatim>\<open>src\<close>), the naive book and the
  harness and fuzzer that compare the two (\<^verbatim>\<open>tests/reference_book.hpp\<close>, \<^verbatim>\<open>tests/diff_harness\<close>, \<^verbatim>\<open>tests/difftest_main.cpp\<close>), and the
  latency benchmark with its flow generator (\<^verbatim>\<open>bench\<close>).

  \<^bold>\<open>The program.\<close> \<^verbatim>\<open>OrderBook\<close> keeps one \<^verbatim>\<open>PriceLadder\<close> per side (a flat window of price levels with an ordered map behind it), each level
  the head, tail and total of a queue of orders that is linked through the slots of one \<^verbatim>\<open>SlotPool\<close>; an \<^verbatim>\<open>IdIndex\<close> (open addressing)
  finds the slot of an order id; trades go out through a \<^verbatim>\<open>TradeRing\<close>. A new order is matched against the other
  side, best price first and oldest order first, subject to a self-trade policy, and what is left of a limit order rests.
  The nodes of the map come from a \<^verbatim>\<open>NodeArena\<close>, the big tables from \<^verbatim>\<open>HugePageAllocator\<close>.

  \<^bold>\<open>Theories and what they model.\<close>
  \<^item> \<^verbatim>\<open>Lob_Prelude\<close>: results of calls (\<open>('a, 's) run\<close>: \<open>None\<close> when a call does not return, otherwise an exception or a value with the
    new state) and of constructors, the limits of \<^verbatim>\<open>std::vector\<close>, chains of links, list and word lemmas.
  \<^item> \<^verbatim>\<open>Trade_Ring\<close>, \<^verbatim>\<open>Slot_Pool\<close>, \<^verbatim>\<open>Id_Index\<close>, \<^verbatim>\<open>Price_Ladder\<close>: the classes of the same names. Each has a record with the members, an
    invariant, and an abstraction (a bounded queue, a set of live slots, a finite map, a map from prices to
    levels); the contracts are locales, interpreted on the model's operations.
  \<^item> \<^verbatim>\<open>Asan_Pool\<close>: the pool in the build under AddressSanitizer, access by access, with the set of poisoned slots; a second provider of
    the contract of \<^verbatim>\<open>Slot_Pool\<close>. \<^verbatim>\<open>Text_Numbers\<close>: decimal numbers as the C and C++ library print and read them.
  \<^item> \<^verbatim>\<open>Order_Queue\<close>, \<^verbatim>\<open>Order_Book\<close>: \<^verbatim>\<open>append\<close>, \<^verbatim>\<open>detach\<close> and the class \<^verbatim>\<open>OrderBook\<close>, with all queries and \<^verbatim>\<open>check_invariants\<close>. The
    constructor is \<open>book_init\<close>, over the blocks of memory that the system grants; \<open>book_new\<close> is the book that it returns when it is granted all.
  \<^item> \<^verbatim>\<open>Price_Time\<close>: the specification. A book is two lists of resting orders in priority order; \<open>sweep\<close> is matching; \<open>price_time_book\<close>
    is the contract of an implementation and \<open>two_books\<close> the consequence that two of them cannot be told apart.
    \<^verbatim>\<open>Fill_Rules\<close> derives accounting, priority and self-trade rules from \<open>sweep\<close>.
  \<^item> \<^verbatim>\<open>Book_Invariant\<close>, \<^verbatim>\<open>Matching\<close>, \<^verbatim>\<open>Book_Refinement\<close>: the representation relation \<open>book_rel\<close>, the matching loops, and the proof
    that every operation of the engine implements the specification.
  \<^item> \<^verbatim>\<open>Reference_Book\<close>, \<^verbatim>\<open>Differential\<close>, \<^verbatim>\<open>Shrink\<close>: the linear-scan book, the harness that runs both, and the delta-debugging loop.
    \<^verbatim>\<open>Trade_Count\<close>: a run prints at most one trade per operation. \<^verbatim>\<open>Diff_Generator\<close>: the random sequences. \<^verbatim>\<open>Reproducer\<close>: the C++ text of
    a sequence, with a reader. \<^verbatim>\<open>Diff_Fuzzer\<close>: the program that puts them together.
  \<^item> \<^verbatim>\<open>Engine\<close>, \<^verbatim>\<open>Engine_Properties\<close>: the reachable books (\<open>reaches cfg n b\<close>: \<open>b\<close> is reached with \<open>n\<close> operations) and what holds of all of
    them, stated on what the public interface shows.
  \<^item> \<^verbatim>\<open>Flow_Random\<close>, \<^verbatim>\<open>Flow\<close>, \<^verbatim>\<open>Flow_Replay\<close>, \<^verbatim>\<open>Flow_Properties\<close>: \<^verbatim>\<open>Rng\<close>, \<^verbatim>\<open>LivePool\<close>, the hashes and \<^verbatim>\<open>Generator\<close> of \<^verbatim>\<open>bench/flow.cpp\<close>; a driven
    book in terms of the specification; each turn of the generator emits one operation (\<open>generator_step\<close>).
  \<^item> \<^verbatim>\<open>Bench\<close>, \<^verbatim>\<open>Bench_Host\<close>, \<^verbatim>\<open>Bench_Main\<close>: the class \<^verbatim>\<open>Bench\<close> with the time-stamp counter as a parameter, the percentiles and the number
    format; what the program asks of the machine (the record \<open>host\<close> answers), the name of the processor and the calibration; the command
    line, \<^verbatim>\<open>main\<close> (\<open>bench_setup\<close> until the calibration is done, then \<open>bench_main\<close>) and its summary table. \<^verbatim>\<open>Bench_Dump\<close>,
    \<^verbatim>\<open>Bench_Report\<close>: the CSV file and the text on standard output, over the record \<open>doubles\<close> of floating-point operations.
  \<^item> \<^verbatim>\<open>Node_Arena\<close>, \<^verbatim>\<open>Huge_Pages\<close>: the allocators, with \<^verbatim>\<open>operator new\<close> and \<^verbatim>\<open>mmap\<close> as parameters; \<open>block_allocator\<close> is the contract of
    an allocator. \<^verbatim>\<open>Map_Allocator\<close>: \<^verbatim>\<open>ArenaAllocator\<close> over the arena or the system, and \<^verbatim>\<open>make_arena\<close>.
  \<^item> \<^verbatim>\<open>Capacity\<close>: what an operation does to the sizes and growth counters of pool and index, and the growth along a run.

  \<^bold>\<open>What the theorems show.\<close> On every reachable book each operation returns, with exactly the report, the book and the trades of the
  specification; so the engine agrees with the naive book on all sequences, trades follow price-time
  priority, quantities are conserved, rejected operations change nothing, the shape of the price window is invisible, and
  the debug build's invariant check never fails. Below that, the data structures refine queue, map and set, and
  all their loops end. A generated flow has the announced length and composition, its passive orders never trade, and every run of the
  benchmark on a fresh book of any window reproduces its trades without a drop, so that \<^verbatim>\<open>main\<close> reaches its report, which can be
  printed, unless reading the name of the processor throws first; the dump file reads back as the brackets of the counter's readings, in
  order. Of the counter these theorems assume only that it does not go back and does not stop (\<open>clock_runs\<close>): a coarse one will do. The random sequences of the fuzzer are well typed, it returns 0 for every command line with
  sequences of at most 65536 operations, and a reproducer reads back as the run it describes. Under AddressSanitizer
  exactly the stale slots of the pool are reported. The allocators hand
  out disjoint, aligned blocks and give everything back. A book provisioned for its peak (\<^verbatim>\<open>Config::expected_orders\<close>) never grows its
  pool or index, and its arena never asks the system for a second slab.

  \<^bold>\<open>Bounds.\<close> Prices, ids and volumes are 64-bit words, quantities, owners and slots 32-bit ones, with their wrap-around. Runs are of fewer
  than \<open>2 ^ 31\<close> operations, because slot indices share 32 bits with the side and the engine throws at \<open>2 ^ 31\<close> resting orders
  (modelled, and shown where it happens). \<^verbatim>\<open>expected_orders\<close> and \<^verbatim>\<open>trade_capacity\<close> are at most \<open>2 ^ 57\<close> and \<^verbatim>\<open>price_levels\<close> is
  below \<open>2 ^ 59\<close> (\<open>allocatable\<close>): beyond, a vector of the pool, the ladders, the index or the ring would exceed \<^verbatim>\<open>max_size()\<close> and the
  constructor throws \<^verbatim>\<open>length_error\<close>, or, for a \<^verbatim>\<open>trade_capacity\<close> above \<open>2 ^ 63\<close>, its rounding loop does not end; all of this is
  proved. The sizes of the elements and \<^verbatim>\<open>max_size()\<close> are those of the 64-bit Linux build with libstdc++. \<^verbatim>\<open>--prefault\<close> is at most \<open>2 ^ 44 - 16\<close> MiB, where its byte
  count still fits 64 bits. Loops whose end is not evident from their form are partial functions
  to \<open>option\<close>, and the theorems show that they return; no fuel is used.

  \<^bold>\<open>Not modelled.\<close> Failure of an allocation of a book that has been constructed (in the constructor it is modelled) and where its containers put their elements (the engine's
  data are values; the allocators are verified on their own); in the debug build, the overwriting of memory that the arena frees; a
  run of the shrinking loop that aborts (it counts as one that does not diverge; by \<open>verdict\<close> of \<^verbatim>\<open>Trade_Count\<close> none does); threads (a book is used by one); in the
  benchmark, the instructions that read the time-stamp counter and the system calls (their answers are parameters), floating-point
  arithmetic (a parameter), and the messages of an exit with code 1; the test cases of the unit tests, whose
  assertions are samples of what is proved; the Python tools. \<^verbatim>\<open>std::sort\<close>, \<^verbatim>\<open>std::map\<close>, \<^verbatim>\<open>std::vector\<close> and \<^verbatim>\<open>std::nth_element\<close> are
  modelled by what the standard says of them.
\<close>

end
